(* ===== verification/Rcon_Prelude.thy ===== *)
theory Rcon_Prelude
  imports Main "HOL-Library.Word"
begin

text \<open>
  Shared vocabulary of the development: byte strings, the result of a Go call that may
  fail or never return, the collections the component proofs feed to the simplifier, and
  the generic list lemmas they share.

  A Go string and a Go byte slice are both sequences of bytes; an Isabelle
  \<^typ>\<open>char\<close> is exactly one byte, so both are modelled as \<^typ>\<open>string\<close>.
\<close>

type_synonym bytes = string
type_synonym int32 = "32 word"
type_synonym uint32 = "32 word"
type_synonym int64 = "64 word"

text \<open>
  Instants and durations are whole nanoseconds. A deadline is an optional instant: no instant is the zero
  \<^verbatim>\<open>time.Time\<close>, which \<^verbatim>\<open>net.Conn\<close> reads as "no deadline".
\<close>

type_synonym time = int
type_synonym duration = int

named_theorems io_defs \<open>definitions of the socket and buffer operations\<close>
named_theorems conn_defs \<open>definitions of the connection operations\<close>
named_theorems srv_defs \<open>definitions of the server operations\<close>

subsection \<open>Results\<close>

text \<open>
  A call returns a value, returns an error, or blocks for ever (a read without a deadline
  on a peer that stays silent).
\<close>

datatype ('e, 'a) res = Ok 'a | Err 'e | Hang

fun is_Ok :: "('e, 'a) res \<Rightarrow> bool" where
  "is_Ok (Ok _) = True"
| "is_Ok _ = False"

fun map_res :: "('a \<Rightarrow> 'b) \<Rightarrow> ('e, 'a) res \<Rightarrow> ('e, 'b) res" where
  "map_res f (Ok a) = Ok (f a)"
| "map_res f (Err e) = Err e"
| "map_res f Hang = Hang"

lemma is_Ok_iff: "is_Ok r \<longleftrightarrow> (\<exists>a. r = Ok a)"
  by (cases r) auto

lemma map_res_eq_Ok [simp]: "map_res f r = Ok b \<longleftrightarrow> (\<exists>a. r = Ok a \<and> b = f a)"
  by (cases r) auto

lemma map_res_eq_Err [simp]: "map_res f r = Err e \<longleftrightarrow> r = Err e"
  by (cases r) auto

lemma map_res_eq_Hang [simp]: "map_res f r = Hang \<longleftrightarrow> r = Hang"
  by (cases r) auto

text \<open>Go's \<^verbatim>\<open>if err != nil { return ..., err }\<close>: go on with the value and the state, or stop.\<close>

definition andThen :: "('e, 'a) res \<times> 's \<Rightarrow> ('a \<Rightarrow> 's \<Rightarrow> ('e, 'b) res \<times> 's) \<Rightarrow> ('e, 'b) res \<times> 's" where
  "andThen m f = (case m of (Ok a, s) \<Rightarrow> f a s | (Err e, s) \<Rightarrow> (Err e, s) | (Hang, s) \<Rightarrow> (Hang, s))"

lemma andThen_simps [simp]:
  "andThen (Ok a, s) f = f a s" "andThen (Err e, s) f = (Err e, s)" "andThen (Hang, s) f = (Hang, s)"
  by (simp_all add: andThen_def)

lemma andThen_cong [fundef_cong]:
  "m = m' \<Longrightarrow> (\<And>a s. m' = (Ok a, s) \<Longrightarrow> f a s = g a s) \<Longrightarrow> andThen m f = andThen m' g"
  by (auto simp: andThen_def split: prod.splits res.splits)

lemma andThen_eq_Ok:
  "andThen m f = (Ok b, s') \<longleftrightarrow> (\<exists>a s. m = (Ok a, s) \<and> f a s = (Ok b, s'))"
  by (auto simp: andThen_def split: prod.splits res.splits)

text \<open>A property kept by both parts is kept by the sequence.\<close>

lemma andThen_keeps:
  "P (snd m) \<Longrightarrow> (\<And>a s. m = (Ok a, s) \<Longrightarrow> P s \<Longrightarrow> P (snd (f a s))) \<Longrightarrow> P (snd (andThen m f))"
  by (auto simp: andThen_def split: prod.splits res.splits)

subsection \<open>Lists of bytes\<close>

lemma take_append_exact [simp]: "length xs = n \<Longrightarrow> take n (xs @ ys) = xs"
  by simp

lemma drop_append_exact [simp]: "length xs = n \<Longrightarrow> drop n (xs @ ys) = ys"
  by simp

lemma take_drop_split: "n \<le> length xs \<Longrightarrow> xs = take n xs @ drop n xs"
  by simp

lemma sum_list_concat_length: "length (concat xss) = sum_list (map length xss)"
  by (induction xss) auto

lemma take_prefix_append:
  assumes "xs = d @ ys" "length d \<le> n"
  shows "take n xs = d @ take (n - length d) ys" "drop n xs = drop (n - length d) ys"
  using assms by simp_all

end
