(* ===== verification/Go_Errors.thy ===== *)
theory Go_Errors
  imports Rcon_Prelude
begin

text \<open>
  The error values of the program. The sentinels of \<^verbatim>\<open>src/rcon/errors.go\<close> are
  constructors of their own, beside the errors of the standard library that the code
  inspects: \<^verbatim>\<open>io.EOF\<close>, \<^verbatim>\<open>io.ErrUnexpectedEOF\<close>, the context errors,
  the error of an HTTP body over its limit, and the \<^verbatim>\<open>*net.OpError\<close> of a socket, told apart by its cause.
  \<^verbatim>\<open>errors.Is\<close> and \<^verbatim>\<open>errors.AsType[net.Error]\<close> are functions on them.
\<close>

text \<open>
  The cause inside a \<^verbatim>\<open>*net.OpError\<close>: an expired read or write deadline
  (\<^verbatim>\<open>os.ErrDeadlineExceeded\<close>), a dial that ran into its timeout or was cancelled
  (these two answer to the context errors under \<^verbatim>\<open>errors.Is\<close>), an operation on a
  socket closed locally, or another fault, with its \<^verbatim>\<open>Timeout()\<close> and its text.
\<close>

datatype net_cause =
    IOTimeout
  | DialTimeout
  | DialCanceled
  | UseOfClosed
  | NetFault bool string

datatype goerr =
    ErrResponseTooShort
  | ErrResponseTooLong
  | ErrAuthFailed
  | ErrInvalidAuthResponse
  | ErrClosed
  | ErrCommandEmpty
  | ErrCommandTooLong
  | ErrResponseMismatch
  | IoEOF
  | IoErrUnexpectedEOF
  | CtxCanceled
  | CtxDeadlineExceeded
  | NetError net_cause
  | MaxBytesError
  | ErrorString string
  | Wrapf string "goerr list"

text \<open>\<^verbatim>\<open>ErrorString\<close> is any other \<^verbatim>\<open>errors.New\<close> value; \<^verbatim>\<open>Wrapf\<close> is a
  \<^verbatim>\<open>fmt.Errorf\<close> value with its \<^verbatim>\<open>%w\<close> operands.\<close>

type_synonym 'a gores = "(goerr, 'a) res"

text \<open>\<^verbatim>\<open>errors.Is\<close>: the error itself, an error that declares itself equal to the
  target, or one of the errors it wraps.\<close>

fun errors_Is :: "goerr \<Rightarrow> goerr \<Rightarrow> bool" where
  "errors_Is (Wrapf m es) t \<longleftrightarrow> Wrapf m es = t \<or> list_ex (\<lambda>e. errors_Is e t) es"
| "errors_Is (NetError c) t \<longleftrightarrow>
     NetError c = t \<or> (c = DialTimeout \<and> t = CtxDeadlineExceeded)
       \<or> (c = DialCanceled \<and> t = CtxCanceled)"
| "errors_Is e t \<longleftrightarrow> e = t"

text \<open>\<^verbatim>\<open>errors.AsType[net.Error]\<close>: the first error of the tree, in pre-order, that
  implements \<^verbatim>\<open>net.Error\<close>. \<^verbatim>\<open>context.DeadlineExceeded\<close> does;
  \<^verbatim>\<open>context.Canceled\<close> does not.\<close>

fun errors_AsNetError :: "goerr \<Rightarrow> goerr option"
  and errors_AsNetError_list :: "goerr list \<Rightarrow> goerr option" where
  "errors_AsNetError (NetError c) = Some (NetError c)"
| "errors_AsNetError CtxDeadlineExceeded = Some CtxDeadlineExceeded"
| "errors_AsNetError (Wrapf m es) = errors_AsNetError_list es"
| "errors_AsNetError e = None"
| "errors_AsNetError_list [] = None"
| "errors_AsNetError_list (e # es) =
     (case errors_AsNetError e of Some x \<Rightarrow> Some x | None \<Rightarrow> errors_AsNetError_list es)"

text \<open>\<^verbatim>\<open>Timeout()\<close> of the \<^verbatim>\<open>net.Error\<close>s.\<close>

fun net_Timeout :: "goerr \<Rightarrow> bool" where
  "net_Timeout (NetError IOTimeout) = True"
| "net_Timeout (NetError DialTimeout) = True"
| "net_Timeout (NetError (NetFault tmo _)) = tmo"
| "net_Timeout CtxDeadlineExceeded = True"
| "net_Timeout _ = False"

text \<open>\<^verbatim>\<open>errors.AsType[*http.MaxBytesError]\<close>: the error of a body over its limit is in the tree.\<close>

fun errors_AsMaxBytes :: "goerr \<Rightarrow> bool" where
  "errors_AsMaxBytes MaxBytesError = True"
| "errors_AsMaxBytes (Wrapf m es) = list_ex errors_AsMaxBytes es"
| "errors_AsMaxBytes _ = False"

lemma errors_Is_refl [simp]: "errors_Is e e"
  by (cases e) auto

lemma errors_Is_EOF_iff [simp]: "errors_Is IoErrUnexpectedEOF IoEOF \<longleftrightarrow> False"
  by simp

end
