(* ===== verification/Go_Net.thy ===== *)
theory Go_Net
  imports Go_Errors
begin

text \<open>
  The standard library below the protocol: a \<^verbatim>\<open>net.Conn\<close> with its deadlines, the
  4096-byte \<^verbatim>\<open>bufio.Reader\<close> the client puts in front of it, \<^verbatim>\<open>io.ReadFull\<close>,
  and the contexts that carry deadlines. The interface \<^verbatim>\<open>io.Reader\<close> is the locale
  \<open>io_reader\<close>: the bytes a reader still delivers and how it ends; the locale
  \<open>timed_reader\<close> adds the instants at which they can be read, for code that moves the
  deadline between reads. Both readers are interpretations of both.

  A socket holds the future of its peer as a script: what arrives, and when. Every
  theorem is for all scripts, so for every way the network may cut, delay, end or break
  the stream. A script is finite: a peer that sends for ever is not a script, and the loops
  of the program that such a peer can keep running are total here for that reason only.
  Only blocking calls take time.
\<close>

subsection \<open>Sockets\<close>

text \<open>
  What a socket read can meet: a segment of data, the peer's orderly close, or a failure
  (a reset, or a \<^verbatim>\<open>Close\<close> of this end by another goroutine). A write succeeds,
  fails after some bytes, or stalls after some bytes.
\<close>

datatype rx = RxData bytes | RxEOF | RxFault net_cause

datatype tx = TxAll | TxFault nat net_cause | TxStall nat

record sock =
  clock :: time
  inbound :: "(time \<times> rx) list"
  outbound :: bytes
  txs :: "tx list"
  rdeadline :: "time option"
  wdeadline :: "time option"
  sclosed :: bool

definition expired :: "time option \<Rightarrow> time \<Rightarrow> bool" where
  "expired d t \<longleftrightarrow> (case d of None \<Rightarrow> False | Some x \<Rightarrow> x \<le> t)"

text \<open>Waiting for something that never comes: the deadline expires, or nothing ends the wait.\<close>

definition wait_out :: "time option \<Rightarrow> sock \<Rightarrow> 'a gores \<times> sock" where
  "wait_out d s =
     (case d of None \<Rightarrow> (Hang, s) | Some x \<Rightarrow> (Err (NetError IOTimeout), s\<lparr>clock := max (clock s) x\<rparr>))"

abbreviation nothing :: "time \<times> rx \<Rightarrow> bool" where
  "nothing e \<equiv> snd e = RxData []"

text \<open>\<^verbatim>\<open>net.Conn.Read\<close> into a slice of \<open>n\<close> bytes. An expired deadline wins over
  data that has already arrived.\<close>

definition sock_read :: "nat \<Rightarrow> sock \<Rightarrow> bytes gores \<times> sock" where
  "sock_read n s =
     (if sclosed s then (Err (NetError UseOfClosed), s)
      else if expired (rdeadline s) (clock s) then (Err (NetError IOTimeout), s)
      else (case dropWhile nothing (inbound s) of
          [] \<Rightarrow> wait_out (rdeadline s) s
        | (t, ev) # rest \<Rightarrow>
            (if expired (rdeadline s) t then wait_out (rdeadline s) s
             else (case ev of
                 RxData b \<Rightarrow>
                   (Ok (take n b),
                    s\<lparr>clock := max (clock s) t,
                      inbound := (if length b \<le> n then rest else (t, RxData (drop n b)) # rest)\<rparr>)
               | RxEOF \<Rightarrow> (Err IoEOF, s\<lparr>clock := max (clock s) t\<rparr>)
               | RxFault c \<Rightarrow> (Err (NetError c), s\<lparr>clock := max (clock s) t\<rparr>)))))"

text \<open>\<^verbatim>\<open>net.Conn.Write\<close>: the count of bytes written, and the error if there is one.\<close>

definition sock_write :: "bytes \<Rightarrow> sock \<Rightarrow> (nat \<times> unit gores) \<times> sock" where
  "sock_write b s =
     (if sclosed s then ((0, Err (NetError UseOfClosed)), s)
      else if expired (wdeadline s) (clock s) then ((0, Err (NetError IOTimeout)), s)
      else (case txs s of
          [] \<Rightarrow> ((length b, Ok ()), s\<lparr>outbound := outbound s @ b\<rparr>)
        | TxAll # r \<Rightarrow> ((length b, Ok ()), s\<lparr>outbound := outbound s @ b, txs := r\<rparr>)
        | TxFault k c # r \<Rightarrow>
            ((min k (length b), Err (NetError c)),
             s\<lparr>outbound := outbound s @ take k b, txs := r\<rparr>)
        | TxStall k # r \<Rightarrow>
            (case wait_out (wdeadline s) (s\<lparr>outbound := outbound s @ take k b, txs := r\<rparr>) of
               (e, s') \<Rightarrow> ((min k (length b), e), s'))))"

text \<open>\<^verbatim>\<open>SetDeadline\<close>, \<^verbatim>\<open>SetReadDeadline\<close> and \<^verbatim>\<open>Close\<close>.\<close>

definition sock_SetDeadline :: "time option \<Rightarrow> sock \<Rightarrow> unit gores \<times> sock" where
  "sock_SetDeadline d s =
     (if sclosed s then (Err (NetError UseOfClosed), s)
      else (Ok (), s\<lparr>rdeadline := d, wdeadline := d\<rparr>))"

definition sock_SetReadDeadline :: "time option \<Rightarrow> sock \<Rightarrow> unit gores \<times> sock" where
  "sock_SetReadDeadline d s =
     (if sclosed s then (Err (NetError UseOfClosed), s) else (Ok (), s\<lparr>rdeadline := d\<rparr>))"

definition sock_Close :: "sock \<Rightarrow> unit gores \<times> sock" where
  "sock_Close s =
     (if sclosed s then (Err (NetError UseOfClosed), s) else (Ok (), s\<lparr>sclosed := True\<rparr>))"

lemmas [io_defs] = sock_read_def sock_write_def sock_SetDeadline_def
  sock_SetReadDeadline_def sock_Close_def wait_out_def expired_def

subsection \<open>The buffered reader\<close>

text \<open>
  \<^verbatim>\<open>bufio.NewReader\<close> over a socket: the bytes read from it and not yet consumed. A
  read takes from the buffer if it can; otherwise it makes one socket read, straight into
  the caller's slice if that is at least as long as the buffer.
\<close>

record bufr =
  buffered :: bytes
  under :: sock

definition bufio_size :: nat where
  "bufio_size = 4096"

definition bufio_read :: "nat \<Rightarrow> bufr \<Rightarrow> bytes gores \<times> bufr" where
  "bufio_read n b =
     (if buffered b \<noteq> [] then
        (Ok (take n (buffered b)), b\<lparr>buffered := drop n (buffered b)\<rparr>)
      else if bufio_size \<le> n then
        (case sock_read n (under b) of (r, s) \<Rightarrow> (r, b\<lparr>under := s\<rparr>))
      else
        (case sock_read bufio_size (under b) of
           (Ok d, s) \<Rightarrow> (Ok (take n d), b\<lparr>buffered := drop n d, under := s\<rparr>)
         | (Err e, s) \<Rightarrow> (Err e, b\<lparr>under := s\<rparr>)
         | (Hang, s) \<Rightarrow> (Hang, b\<lparr>under := s\<rparr>)))"

subsection \<open>Reading exactly n bytes\<close>

text \<open>
  \<^verbatim>\<open>io.ReadFull\<close>, over any \<^verbatim>\<open>Read\<close>: repeat until the slice is full. An end of
  file after some bytes becomes \<^verbatim>\<open>io.ErrUnexpectedEOF\<close>. A reader that returned
  no byte and no error would spin here; neither reader of this program does so
  (\<open>read_progress\<close> of the reader interface).
\<close>

function io_ReadFull_from ::
  "(nat \<Rightarrow> 'r \<Rightarrow> bytes gores \<times> 'r) \<Rightarrow> nat \<Rightarrow> bytes \<Rightarrow> 'r \<Rightarrow> bytes gores \<times> 'r" where
  "io_ReadFull_from rd need acc r =
     (if need = 0 then (Ok acc, r)
      else (case rd need r of
          (Ok d, r') \<Rightarrow>
            (if d = [] then (Hang, r') else io_ReadFull_from rd (need - length d) (acc @ d) r')
        | (Err e, r') \<Rightarrow> (Err (if e = IoEOF \<and> acc \<noteq> [] then IoErrUnexpectedEOF else e), r')
        | (Hang, r') \<Rightarrow> (Hang, r')))"
  by pat_completeness auto
termination
  by (relation "measure (\<lambda>(rd, need, acc, r). need)") auto

declare io_ReadFull_from.simps [simp del]

definition io_ReadFull :: "(nat \<Rightarrow> 'r \<Rightarrow> bytes gores \<times> 'r) \<Rightarrow> nat \<Rightarrow> 'r \<Rightarrow> bytes gores \<times> 'r" where
  "io_ReadFull rd n r = io_ReadFull_from rd n [] r"

lemma ReadFull_from_grows:
  "io_ReadFull_from rd n acc r = (Ok d, r') \<Longrightarrow> length acc + n \<le> length d"
proof (induction n arbitrary: acc r rule: less_induct)
  case (less n)
  from less.prems show ?case
    by (auto simp: io_ReadFull_from.simps [of rd n] split: if_splits prod.splits res.splits
        dest!: less.IH [rotated])
qed

subsection \<open>The reader interface\<close>

text \<open>
  How \<^verbatim>\<open>io.ReadFull\<close> reports a reader that ends too early: the error of the reader's
  end, except that an end of file after the first byte is unexpected.
\<close>

definition dry_end :: "bytes \<Rightarrow> bytes gores \<Rightarrow> 'a gores" where
  "dry_end got fin = (case fin of
       Err e \<Rightarrow> Err (if e = IoEOF \<and> got \<noteq> [] then IoErrUnexpectedEOF else e)
     | _ \<Rightarrow> Hang)"

text \<open>
  A reader that counts: what it returns is taken off the bytes it has left. This is what
  makes every read loop of the program terminate.
\<close>

locale counted_reader =
  fixes rd :: "nat \<Rightarrow> 'r \<Rightarrow> bytes gores \<times> 'r"
    and left :: "'r \<Rightarrow> nat"
  assumes left_data: "rd n r = (Ok d, r') \<Longrightarrow> left r = length d + left r'"
    and left_stop: "rd n r = (x, r') \<Longrightarrow> \<not> is_Ok x \<Longrightarrow> left r' = left r"
begin

lemma left_ReadFull_from:
  "io_ReadFull_from rd n acc r = (x, r') \<Longrightarrow>
     left r' \<le> left r \<and> (\<forall>d. x = Ok d \<longrightarrow> left r + length acc = length d + left r')"
proof (induction n arbitrary: acc r rule: less_induct)
  case (less n)
  obtain y s where y: "rd n r = (y, s)" by fastforce
  show ?case
  proof (cases y)
    case (Ok d)
    then show ?thesis
      using less.prems less.IH [of "n - length d" "acc @ d" s] left_data [of n r d s] y
      by (auto simp: io_ReadFull_from.simps [of rd n] split: if_splits)
  qed (use less.prems y left_stop [of n r y s] in
      \<open>auto simp: io_ReadFull_from.simps [of rd n] split: if_splits\<close>)
qed

lemma left_ReadFull:
  assumes "io_ReadFull rd n r = (x, r')"
  shows "left r' \<le> left r" "x = Ok d \<Longrightarrow> left r = length d + left r'"
  using left_ReadFull_from assms by (fastforce simp: io_ReadFull_def)+

end

text \<open>
  The interface proper: the bytes the reader still delivers before it ends, and how it
  ends. A read takes a non-empty piece off the front; when nothing is left it reports the
  end, and goes on reporting it.
\<close>

locale io_reader = counted_reader rd left
  for rd :: "nat \<Rightarrow> 'r \<Rightarrow> bytes gores \<times> 'r" and left :: "'r \<Rightarrow> nat" +
  fixes pending :: "'r \<Rightarrow> bytes"
    and final :: "'r \<Rightarrow> bytes gores"
  assumes read_data: "0 < n \<Longrightarrow> pending r \<noteq> [] \<Longrightarrow>
      \<exists>d r'. rd n r = (Ok d, r') \<and> d \<noteq> [] \<and> length d \<le> n \<and> pending r = d @ pending r'
        \<and> final r' = final r"
    and read_final: "0 < n \<Longrightarrow> pending r = [] \<Longrightarrow>
      \<exists>r'. rd n r = (final r, r') \<and> pending r' = [] \<and> final r' = final r"
    and final_stops: "\<not> is_Ok (final r)"
begin

lemma read_progress: "0 < n \<Longrightarrow> rd n r = (Ok d, r') \<Longrightarrow> d \<noteq> []"
  using read_data [of n r] read_final [of n r] final_stops [of r]
  by (cases "final r"; cases "pending r = []") auto

lemma ReadFull_from_enough:
  "n \<le> length (pending r) \<Longrightarrow>
     \<exists>r'. io_ReadFull_from rd n acc r = (Ok (acc @ take n (pending r)), r')
       \<and> pending r' = drop n (pending r) \<and> final r' = final r"
proof (induction n arbitrary: acc r rule: less_induct)
  case (less n)
  show ?case
  proof (cases "n = 0")
    case False
    with less.prems obtain d s where d: "rd n r = (Ok d, s)" "d \<noteq> []" "length d \<le> n"
      "pending r = d @ pending s" "final s = final r"
      using read_data [of n r] by fastforce
    with less.prems False have "n - length d < n" "n - length d \<le> length (pending s)"
      by auto
    from less.IH [OF this, of "acc @ d"] d False show ?thesis
      by (auto simp: io_ReadFull_from.simps [of rd n])
  qed (simp add: io_ReadFull_from.simps)
qed

lemma ReadFull_from_dry:
  "length (pending r) < n \<Longrightarrow>
     \<exists>r'. io_ReadFull_from rd n acc r = (dry_end (acc @ pending r) (final r), r')
       \<and> pending r' = [] \<and> final r' = final r"
proof (induction n arbitrary: acc r rule: less_induct)
  case (less n)
  show ?case
  proof (cases "pending r = []")
    case True
    with less.prems read_final [of n r] final_stops [of r] show ?thesis
      by (auto simp: io_ReadFull_from.simps [of rd n] dry_end_def split: res.splits)
  next
    case False
    with less.prems obtain d s where d: "rd n r = (Ok d, s)" "d \<noteq> []" "length d \<le> n"
      "pending r = d @ pending s" "final s = final r"
      using read_data [of n r] by fastforce
    with less.prems have "n - length d < n" "length (pending s) < n - length d"
      by auto
    from less.IH [OF this, of "acc @ d"] d less.prems show ?thesis
      by (auto simp: io_ReadFull_from.simps [of rd n] dry_end_def)
  qed
qed

lemma ReadFull_enough:
  assumes "n \<le> length (pending r)"
  obtains r' where "io_ReadFull rd n r = (Ok (take n (pending r)), r')"
    "pending r' = drop n (pending r)" "final r' = final r"
  using ReadFull_from_enough [OF assms, of "[]"] by (auto simp: io_ReadFull_def)

lemma ReadFull_dry:
  assumes "length (pending r) < n"
  obtains r' where "io_ReadFull rd n r = (dry_end (pending r) (final r), r')"
    "pending r' = []" "final r' = final r"
  using ReadFull_from_dry [OF assms, of "[]"] by (auto simp: io_ReadFull_def)

end

subsection \<open>Both readers implement the interface\<close>

text \<open>The bytes a script delivers before the deadline, and how it ends.\<close>

fun rx_pending :: "time option \<Rightarrow> (time \<times> rx) list \<Rightarrow> bytes" where
  "rx_pending d [] = []"
| "rx_pending d ((t, RxData b) # r) =
     (if b = [] then rx_pending d r else if expired d t then [] else b @ rx_pending d r)"
| "rx_pending d (_ # r) = []"

fun rx_final :: "time option \<Rightarrow> (time \<times> rx) list \<Rightarrow> bytes gores" where
  "rx_final d [] = (case d of None \<Rightarrow> Hang | Some _ \<Rightarrow> Err (NetError IOTimeout))"
| "rx_final d ((t, RxData b) # r) =
     (if b = [] then rx_final d r else if expired d t then Err (NetError IOTimeout) else rx_final d r)"
| "rx_final d ((t, RxEOF) # r) = (if expired d t then Err (NetError IOTimeout) else Err IoEOF)"
| "rx_final d ((t, RxFault c) # r) =
     (if expired d t then Err (NetError IOTimeout) else Err (NetError c))"

fun rx_size :: "rx \<Rightarrow> nat" where
  "rx_size (RxData b) = length b"
| "rx_size _ = 0"

definition sock_pending :: "sock \<Rightarrow> bytes" where
  "sock_pending s =
     (if sclosed s \<or> expired (rdeadline s) (clock s) then []
      else rx_pending (rdeadline s) (inbound s))"

definition sock_final :: "sock \<Rightarrow> bytes gores" where
  "sock_final s =
     (if sclosed s then Err (NetError UseOfClosed)
      else if expired (rdeadline s) (clock s) then Err (NetError IOTimeout)
      else rx_final (rdeadline s) (inbound s))"

definition sock_left :: "sock \<Rightarrow> nat" where
  "sock_left s = (\<Sum>e\<leftarrow>inbound s. rx_size (snd e))"

definition bufr_pending :: "bufr \<Rightarrow> bytes" where
  "bufr_pending b = buffered b @ sock_pending (under b)"

definition bufr_left :: "bufr \<Rightarrow> nat" where
  "bufr_left b = length (buffered b) + sock_left (under b)"

lemma take_drop_append [simp]: "take n xs @ drop n xs @ ys = xs @ ys"
  by (simp add: append_assoc [symmetric] del: append_assoc)

lemma rx_pending_skip: "rx_pending d (dropWhile nothing es) = rx_pending d es"
  by (induction d es rule: rx_pending.induct) auto

lemma rx_final_skip: "rx_final d (dropWhile nothing es) = rx_final d es"
  by (induction d es rule: rx_final.induct) auto

lemma rx_left_skip:
  "(\<Sum>e\<leftarrow>dropWhile nothing es. rx_size (snd e)) = (\<Sum>e\<leftarrow>es. rx_size (snd e))"
  by (induction es) auto

lemma expired_max [simp]: "expired d (max t u) \<longleftrightarrow> expired d t \<or> expired d u"
  by (auto simp: expired_def max_def split: option.splits)

lemma rx_final_stops: "\<not> is_Ok (rx_final d es)"
  by (induction d es rule: rx_final.induct) (auto split: option.splits)

lemma hd_dropWhile_nothing: "dropWhile nothing es = (t, RxData b) # r \<Longrightarrow> b \<noteq> []"
  using hd_dropWhile [of nothing es] by auto

interpretation sockr: counted_reader sock_read sock_left
proof
  fix n r d r'
  assume "sock_read n r = (Ok d, r')"
  then show "sock_left r = length d + sock_left r'"
    using rx_left_skip [of "inbound r"]
    by (auto simp: io_defs sock_left_def split: if_splits option.splits list.splits rx.splits)
next
  fix n r x r'
  assume "sock_read n r = (x, r')" "\<not> is_Ok x"
  then show "sock_left r' = sock_left r"
    by (auto simp: io_defs sock_left_def split: if_splits option.splits list.splits rx.splits)
qed

lemma sock_read_pending:
  assumes "0 < n" "sock_pending s \<noteq> []"
  shows "\<exists>d s'. sock_read n s = (Ok d, s') \<and> d \<noteq> [] \<and> length d \<le> n
    \<and> sock_pending s = d @ sock_pending s' \<and> sock_final s' = sock_final s"
proof -
  from assms(2) have open_s: "\<not> sclosed s" "\<not> expired (rdeadline s) (clock s)"
    by (auto simp: sock_pending_def split: if_splits)
  obtain t b rest where ev: "dropWhile nothing (inbound s) = (t, RxData b) # rest"
    "\<not> expired (rdeadline s) t"
    using assms(2) rx_pending_skip [of "rdeadline s" "inbound s"] open_s
      hd_dropWhile_nothing [of "inbound s"]
    by (cases "dropWhile nothing (inbound s)"; cases "snd (hd (dropWhile nothing (inbound s)))")
      (fastforce simp: sock_pending_def split: if_splits)+
  from ev open_s assms(1) hd_dropWhile_nothing [OF ev(1)] show ?thesis
    using rx_pending_skip [of "rdeadline s" "inbound s"] rx_final_skip [of "rdeadline s" "inbound s"]
    by (auto simp: sock_read_def sock_pending_def sock_final_def)
qed

lemma sock_read_end:
  assumes "0 < n" "sock_pending s = []"
  shows "\<exists>s'. sock_read n s = (sock_final s, s') \<and> sock_pending s' = []
    \<and> sock_final s' = sock_final s"
proof (cases "sclosed s \<or> expired (rdeadline s) (clock s)")
  case True
  then show ?thesis by (auto simp: sock_read_def sock_pending_def sock_final_def)
next
  case False
  show ?thesis
  proof (cases "dropWhile nothing (inbound s)")
    case Nil
    have "rx_pending (rdeadline s) (inbound s) = rx_pending (rdeadline s) []"
      "rx_final (rdeadline s) (inbound s) = rx_final (rdeadline s) []"
      using rx_pending_skip [of "rdeadline s" "inbound s"] rx_final_skip [of "rdeadline s" "inbound s"]
      by (simp_all only: Nil)
    with Nil False show ?thesis
      by (cases "rdeadline s")
        (simp_all add: sock_read_def sock_pending_def sock_final_def wait_out_def expired_def
          del: dropWhile_eq_Nil_conv)
  next
    case (Cons e rest)
    obtain t ev where e: "e = (t, ev)" by fastforce
    have p: "rx_pending (rdeadline s) (inbound s) = rx_pending (rdeadline s) ((t, ev) # rest)"
      "rx_final (rdeadline s) (inbound s) = rx_final (rdeadline s) ((t, ev) # rest)"
      using rx_pending_skip [of "rdeadline s" "inbound s"] rx_final_skip [of "rdeadline s" "inbound s"]
      by (simp_all only: Cons e)
    have "b \<noteq> []" if "ev = RxData b" for b
      using hd_dropWhile_nothing [of "inbound s" t b rest] Cons e that by simp
    with p False Cons e assms(2) show ?thesis
      by (cases ev; cases "rdeadline s")
        (auto simp: sock_read_def sock_pending_def sock_final_def wait_out_def expired_def
          simp del: dropWhile_eq_Cons_conv split: if_splits)
  qed
qed

interpretation sockr: io_reader sock_read sock_left sock_pending sock_final
proof
  show "\<not> is_Ok (sock_final r)" for r
    by (simp add: sock_final_def rx_final_stops)
qed (use sock_read_pending sock_read_end in auto)

text \<open>A buffered reader ends the way its socket ends.\<close>

abbreviation bufr_final :: "bufr \<Rightarrow> bytes gores" where
  "bufr_final b \<equiv> sock_final (under b)"

interpretation brd: counted_reader bufio_read bufr_left
proof
  fix n r d r'
  assume "bufio_read n r = (Ok d, r')"
  then show "bufr_left r = length d + bufr_left r'"
    by (auto simp: bufio_read_def bufr_left_def split: if_splits prod.splits res.splits
        dest!: sockr.left_data)
next
  fix n r x r'
  assume "bufio_read n r = (x, r')" "\<not> is_Ok x"
  then show "bufr_left r' = bufr_left r"
    by (auto simp: bufio_read_def bufr_left_def split: if_splits prod.splits res.splits
        dest: sockr.left_stop)
qed

lemma bufio_read_pending:
  assumes "0 < n" "bufr_pending b \<noteq> []"
  shows "\<exists>d b'. bufio_read n b = (Ok d, b') \<and> d \<noteq> [] \<and> length d \<le> n
    \<and> bufr_pending b = d @ bufr_pending b' \<and> bufr_final b' = bufr_final b"
proof (cases "buffered b = []")
  case True
  with assms(2) have p: "sock_pending (under b) \<noteq> []"
    by (simp add: bufr_pending_def)
  show ?thesis
    using sockr.read_data [OF _ p, of n] sockr.read_data [OF _ p, of bufio_size] assms(1) True
    by (auto simp: bufio_read_def bufr_pending_def bufio_size_def split: if_splits)
next
  case False
  with assms(1) show ?thesis
    by (auto simp: bufio_read_def bufr_pending_def)
qed

interpretation brd: io_reader bufio_read bufr_left bufr_pending bufr_final
proof
  fix n :: nat and r
  assume "0 < n" "bufr_pending r = []"
  then show "\<exists>r'. bufio_read n r = (bufr_final r, r') \<and> bufr_pending r' = [] \<and> bufr_final r' = bufr_final r"
    using sockr.read_final [of n "under r"] sockr.read_final [of bufio_size "under r"]
      sockr.final_stops [of "under r"]
    by (auto simp: bufio_read_def bufr_pending_def bufio_size_def split: if_splits res.splits)
next
  show "\<not> is_Ok (bufr_final r)" for r
    by (rule sockr.final_stops)
qed (use bufio_read_pending in auto)

lemma sock_final_deadline: "rdeadline s = Some d \<Longrightarrow> sock_final s \<noteq> Hang"
proof -
  have "rx_final (Some d) es \<noteq> Hang" for es
    by (induction "Some d" es rule: rx_final.induct) auto
  then show "rdeadline s = Some d \<Longrightarrow> sock_final s \<noteq> Hang"
    by (simp add: sock_final_def)
qed

subsection \<open>Bytes and the instants they can be read\<close>

text \<open>
  When deadlines are moved between reads it matters at which instant each byte is there. The
  stamp of a byte is the earliest instant a reader that reads in order can have it: the
  arrival of its segment, or that of an earlier one that came later. Stamps end where the
  script stops delivering, at the tail.
\<close>

fun rx_stamps :: "time \<Rightarrow> (time \<times> rx) list \<Rightarrow> (time \<times> char) list" where
  "rx_stamps t [] = []"
| "rx_stamps t ((u, RxData b) # r) =
     (if b = [] then rx_stamps t r else map (Pair (max t u)) b @ rx_stamps (max t u) r)"
| "rx_stamps t (_ # r) = []"

fun rx_tail :: "(time \<times> rx) list \<Rightarrow> (time \<times> rx) list" where
  "rx_tail [] = []"
| "rx_tail ((u, RxData b) # r) = rx_tail r"
| "rx_tail (e # r) = e # r"

text \<open>The instant of the last of some stamped bytes, or of before, if there are none.\<close>

definition last_at :: "time \<Rightarrow> (time \<times> 'a) list \<Rightarrow> time" where
  "last_at t A = last (t # map fst A)"

lemma last_at_Nil [simp]: "last_at t [] = t"
  by (simp add: last_at_def)

lemma last_at_append: "last_at t (A @ B) = last_at (last_at t A) B"
  by (simp add: last_at_def)

lemma last_at_const [simp]: "d \<noteq> [] \<Longrightarrow> last_at t (map (Pair u) d) = u"
  by (induction d) (auto simp: last_at_def)

text \<open>
  A reader in time: a byte whose instant the reader lives to see is returned, with others of
  the same instant, and at that instant; the other stamps, the tail and the end of the
  reader's life stay.
\<close>

locale timed_reader =
  fixes rd :: "nat \<Rightarrow> 'r \<Rightarrow> bytes gores \<times> 'r"
    and stamps :: "'r \<Rightarrow> (time \<times> char) list"
    and now :: "'r \<Rightarrow> time"
    and alive :: "'r \<Rightarrow> time \<Rightarrow> bool"
    and tail :: "'r \<Rightarrow> (time \<times> rx) list"
  assumes timed_read: "0 < n \<Longrightarrow> stamps r = (u, x) # A \<Longrightarrow> alive r u \<Longrightarrow>
    \<exists>d r'. rd n r = (Ok d, r') \<and> d \<noteq> [] \<and> length d \<le> n \<and> stamps r = map (Pair (now r')) d @ stamps r'
      \<and> tail r' = tail r \<and> (\<forall>v. alive r v \<longrightarrow> alive r' v)"
begin

lemma timed_ReadFull_from:
  "stamps r = A @ B \<Longrightarrow> \<forall>e \<in> set A. alive r (fst e) \<Longrightarrow>
    \<exists>r'. io_ReadFull_from rd (length A) acc r = (Ok (acc @ map snd A), r') \<and> stamps r' = B
      \<and> now r' = last_at (now r) A \<and> tail r' = tail r \<and> (\<forall>v. alive r v \<longrightarrow> alive r' v)"
proof (induction "length A" arbitrary: A acc r rule: less_induct)
  case less
  show ?case
  proof (cases A)
    case Nil
    with less.prems show ?thesis by (auto simp: io_ReadFull_from.simps [of rd 0])
  next
    case (Cons e A')
    obtain u x where e: "e = (u, x)" by fastforce
    with Cons less.prems have "stamps r = (u, x) # A' @ B" "alive r u" by auto
    from timed_read [OF _ this, of "length A"] Cons obtain d s where d: "rd (length A) r = (Ok d, s)"
      "d \<noteq> []" "length d \<le> length A" "stamps r = map (Pair (now s)) d @ stamps s" "tail s = tail r"
      "\<forall>v. alive r v \<longrightarrow> alive s v"
      by auto
    define C where "C = drop (length d) A"
    have "take (length d) (A @ B) = map (Pair (now s)) d" "drop (length d) (A @ B) = stamps s"
      using d(4) less.prems(1) by simp_all
    with d(3) have A: "A = map (Pair (now s)) d @ C" and C: "stamps s = C @ B"
      using append_take_drop_id [of "length d" A] by (auto simp: C_def)
    have "length C < length A" using d(2) Cons by (simp add: C_def)
    moreover have "\<forall>e \<in> set C. alive s (fst e)"
      using less.prems(2) d(6) set_drop_subset [of "length d" A] unfolding C_def by blast
    ultimately obtain r' where r': "io_ReadFull_from rd (length C) (acc @ d) s = (Ok ((acc @ d) @ map snd C), r')"
      "stamps r' = B" "now r' = last_at (now s) C" "tail r' = tail s" "\<forall>v. alive s v \<longrightarrow> alive r' v"
      using less.hyps [of C s "acc @ d"] C by blast
    have "length A - length d = length C" "length A \<noteq> 0" using Cons by (simp_all add: C_def)
    then have "io_ReadFull_from rd (length A) acc r = io_ReadFull_from rd (length C) (acc @ d) s"
      using d(1,2) by (simp add: io_ReadFull_from.simps [of rd "length A"])
    moreover have "(acc @ d) @ map snd C = acc @ map snd A" by (subst A) (simp add: o_def)
    moreover have "last_at (now s) C = last_at (now r) A" using d(2) by (subst A) (simp add: last_at_append)
    ultimately show ?thesis using r' d(5,6) by auto
  qed
qed

lemma timed_ReadFull:
  assumes "stamps r = A @ B" "\<forall>e \<in> set A. alive r (fst e)"
  obtains r' where "io_ReadFull rd (length A) r = (Ok (map snd A), r')" "stamps r' = B"
    "now r' = last_at (now r) A" "tail r' = tail r" "\<And>v. alive r v \<Longrightarrow> alive r' v"
  using timed_ReadFull_from [OF assms, of "[]"] by (auto simp: io_ReadFull_def)

end

text \<open>Both readers are in time while they are open and their deadline has not passed.\<close>

definition sock_stamps :: "sock \<Rightarrow> (time \<times> char) list" where
  "sock_stamps s = rx_stamps (clock s) (inbound s)"

definition sock_alive :: "sock \<Rightarrow> time \<Rightarrow> bool" where
  "sock_alive s t \<longleftrightarrow> \<not> sclosed s \<and> \<not> expired (rdeadline s) (clock s) \<and> \<not> expired (rdeadline s) t"

definition bufr_stamps :: "bufr \<Rightarrow> (time \<times> char) list" where
  "bufr_stamps b = map (Pair (clock (under b))) (buffered b) @ sock_stamps (under b)"

lemma rx_stamps_skip: "rx_stamps t (dropWhile nothing es) = rx_stamps t es"
  by (induction t es rule: rx_stamps.induct) auto

lemma rx_tail_skip: "rx_tail (dropWhile nothing es) = rx_tail es"
  by (induction es rule: rx_tail.induct) auto

lemma rx_stamps_first:
  "rx_stamps t es = (u, x) # A \<Longrightarrow> \<exists>v b r. dropWhile nothing es = (v, RxData b) # r \<and> b \<noteq> [] \<and> u = max t v"
proof (induction t es rule: rx_stamps.induct)
  case (2 t v b r)
  then show ?case by (cases b) auto
qed auto

interpretation sockt: timed_reader sock_read sock_stamps clock sock_alive "\<lambda>s. rx_tail (inbound s)"
proof
  fix n :: nat and s u x A
  assume n: "0 < n" and st: "sock_stamps s = (u, x) # A" and al: "sock_alive s u"
  obtain v b r where ev: "dropWhile nothing (inbound s) = (v, RxData b) # r" "b \<noteq> []" "u = max (clock s) v"
    using st rx_stamps_first unfolding sock_stamps_def by blast
  let ?s = "s\<lparr>clock := u, inbound := (if length b \<le> n then r else (v, RxData (drop n b)) # r)\<rparr>"
  have "sock_read n s = (Ok (take n b), ?s)"
    using ev al by (simp add: sock_read_def sock_alive_def)
  moreover have "sock_stamps s = map (Pair u) b @ rx_stamps u r" "rx_tail (inbound s) = rx_tail r"
    using ev rx_stamps_skip [of "clock s" "inbound s"] rx_tail_skip [of "inbound s"] by (simp_all add: sock_stamps_def)
  moreover have "sock_stamps ?s = map (Pair u) (drop n b) @ rx_stamps u r" "rx_tail (inbound ?s) = rx_tail r"
    using ev(3) by (auto simp: sock_stamps_def)
  moreover have "map (Pair u) (take n b) @ map (Pair u) (drop n b) = map (Pair u) b"
    by (simp flip: map_append)
  moreover have "\<forall>w. sock_alive s w \<longrightarrow> sock_alive ?s w" using al by (simp add: sock_alive_def)
  ultimately show "\<exists>d s'. sock_read n s = (Ok d, s') \<and> d \<noteq> [] \<and> length d \<le> n
      \<and> sock_stamps s = map (Pair (clock s')) d @ sock_stamps s'
      \<and> rx_tail (inbound s') = rx_tail (inbound s) \<and> (\<forall>v. sock_alive s v \<longrightarrow> sock_alive s' v)"
    using n ev(2) by (intro exI [of _ "take n b"] exI [of _ ?s]) (simp flip: append_assoc)
qed

interpretation brt: timed_reader bufio_read bufr_stamps "\<lambda>b. clock (under b)" "\<lambda>b. sock_alive (under b)"
  "\<lambda>b. rx_tail (inbound (under b))"
proof
  fix n :: nat and b u x A
  assume n: "0 < n" and st: "bufr_stamps b = (u, x) # A" and al: "sock_alive (under b) u"
  show "\<exists>d b'. bufio_read n b = (Ok d, b') \<and> d \<noteq> [] \<and> length d \<le> n
      \<and> bufr_stamps b = map (Pair (clock (under b'))) d @ bufr_stamps b'
      \<and> rx_tail (inbound (under b')) = rx_tail (inbound (under b))
      \<and> (\<forall>v. sock_alive (under b) v \<longrightarrow> sock_alive (under b') v)"
  proof (cases "buffered b = []")
    case False
    let ?b = "b\<lparr>buffered := drop n (buffered b)\<rparr>"
    have "map (Pair t) (take n (buffered b)) @ map (Pair t) (drop n (buffered b)) = map (Pair t) (buffered b)" for t :: time
      by (simp flip: map_append)
    with False n show ?thesis
      by (intro exI [of _ "take n (buffered b)"] exI [of _ ?b])
        (simp add: bufio_read_def bufr_stamps_def flip: append_assoc)
  next
    case True
    define m where "m = (if bufio_size \<le> n then n else bufio_size)"
    have m: "0 < m" using n by (simp add: m_def bufio_size_def)
    have "sock_stamps (under b) = (u, x) # A" using st True by (simp add: bufr_stamps_def)
    from sockt.timed_read [OF m this al] obtain d s where s: "sock_read m (under b) = (Ok d, s)" "d \<noteq> []"
      "length d \<le> m" "sock_stamps (under b) = map (Pair (clock s)) d @ sock_stamps s"
      "rx_tail (inbound s) = rx_tail (inbound (under b))" "\<forall>v. sock_alive (under b) v \<longrightarrow> sock_alive s v"
      by blast
    let ?b = "b\<lparr>buffered := drop n d, under := s\<rparr>"
    have "bufio_read n b = (Ok (take n d), ?b)"
      using True s(1,3) by (cases b) (auto simp: bufio_read_def m_def split: if_splits)
    moreover have "map (Pair (clock s)) (take n d) @ map (Pair (clock s)) (drop n d) = map (Pair (clock s)) d"
      by (simp flip: map_append)
    ultimately show ?thesis
      using True s n by (intro exI [of _ "take n d"] exI [of _ ?b])
        (simp add: bufr_stamps_def flip: append_assoc)
  qed
qed

text \<open>What a reader with a deadline meets if nothing is stamped before it.\<close>

lemma rx_late:
  assumes "t < d" "rx_stamps t es = [] \<or> d \<le> fst (hd (rx_stamps t es))"
  shows "rx_pending (Some d) es = []"
    "rx_final (Some d) es =
       (if rx_stamps t es = [] then rx_final (Some d) (rx_tail es) else Err (NetError IOTimeout))"
proof -
  have "rx_pending (Some d) es = [] \<and> rx_final (Some d) es =
       (if rx_stamps t es = [] then rx_final (Some d) (rx_tail es) else Err (NetError IOTimeout))"
    using assms
  proof (induction t es rule: rx_stamps.induct)
    case (2 t u b r)
    then show ?case by (cases b) (auto simp: expired_def)
  qed auto
  then show "rx_pending (Some d) es = []" "rx_final (Some d) es =
       (if rx_stamps t es = [] then rx_final (Some d) (rx_tail es) else Err (NetError IOTimeout))"
    by auto
qed

subsection \<open>The writer interface\<close>

text \<open>A writer appends to what it has sent: everything, or a prefix before an error.\<close>

locale io_writer =
  fixes wr :: "bytes \<Rightarrow> 'w \<Rightarrow> (nat \<times> unit gores) \<times> 'w"
    and sent :: "'w \<Rightarrow> bytes"
  assumes write_sent: "wr b w = ((k, x), w') \<Longrightarrow> k \<le> length b \<and> sent w' = sent w @ take k b"
    and write_all: "wr b w = ((k, Ok u), w') \<Longrightarrow> k = length b"
begin

lemma write_ok: "wr b w = ((k, Ok u), w') \<Longrightarrow> sent w' = sent w @ b"
  using write_sent [of b w k "Ok u" w'] write_all [of b w k u w'] by simp

end

interpretation sockw: io_writer sock_write outbound
  by unfold_locales
    (auto simp: sock_write_def wait_out_def min_def split: if_splits list.splits tx.splits option.splits)

subsection \<open>Frames of the read and write operations\<close>

text \<open>A property that every read keeps is kept by \<^verbatim>\<open>io.ReadFull\<close>.\<close>

lemma ReadFull_from_keeps:
  assumes "\<And>n r. P r \<Longrightarrow> P (snd (rd n r))"
  shows "P r \<Longrightarrow> P (snd (io_ReadFull_from rd n acc r))"
proof (induction n arbitrary: acc r rule: less_induct)
  case (less n)
  then show ?case
    using assms [of r n]
    by (auto simp: io_ReadFull_from.simps [of rd n] split: prod.splits res.splits)
qed

lemma ReadFull_keeps:
  assumes "\<And>n r. P r \<Longrightarrow> P (snd (rd n r))"
  shows "P r \<Longrightarrow> P (snd (io_ReadFull rd n r))"
  using ReadFull_from_keeps [of P rd r n "[]"] assms by (simp add: io_ReadFull_def)

lemma ReadFull_from_Ok_keeps:
  assumes "\<And>n r d r'. P r \<Longrightarrow> rd n r = (Ok d, r') \<Longrightarrow> P r'"
  shows "P r \<Longrightarrow> io_ReadFull_from rd n acc r = (Ok d, r') \<Longrightarrow> P r'"
proof (induction n arbitrary: acc r rule: less_induct)
  case (less n)
  show ?case
    using less.prems less.IH assms [of r n]
    by (auto simp: io_ReadFull_from.simps [of rd n acc] split: prod.splits res.splits if_splits)
      (metis diff_less length_greater_0_conv)
qed

lemma ReadFull_Ok_keeps:
  assumes "\<And>n r d r'. P r \<Longrightarrow> rd n r = (Ok d, r') \<Longrightarrow> P r'"
  shows "P r \<Longrightarrow> io_ReadFull rd n r = (Ok d, r') \<Longrightarrow> P r'"
  using ReadFull_from_Ok_keeps [of P rd r n "[]" d r'] assms by (simp add: io_ReadFull_def)

lemma sock_read_frame [simp]:
  "outbound (snd (sock_read n s)) = outbound s" "txs (snd (sock_read n s)) = txs s"
  "rdeadline (snd (sock_read n s)) = rdeadline s" "wdeadline (snd (sock_read n s)) = wdeadline s"
  "sclosed (snd (sock_read n s)) = sclosed s"
  by (auto simp: sock_read_def wait_out_def split: list.splits rx.splits option.splits)

lemma under_bufio_read:
  "under (snd (bufio_read n b)) = under b \<or> (\<exists>m. under (snd (bufio_read n b)) = snd (sock_read m (under b)))"
  by (auto simp: bufio_read_def split: prod.splits res.splits) (metis snd_conv)+

lemma bufio_read_keeps:
  assumes "\<And>n s. P s \<Longrightarrow> P (snd (sock_read n s))" and "P (under b)"
  shows "P (under (snd (bufio_read n b)))"
  using under_bufio_read [of n b] assms by metis

text \<open>Reads do not run the clock past the deadline, nor back.\<close>

lemma sock_read_clock:
  "clock s \<le> clock (snd (sock_read n s))"
  "rdeadline s = Some d \<Longrightarrow> clock (snd (sock_read n s)) \<le> max (clock s) d"
  by (auto simp: sock_read_def wait_out_def expired_def split: list.splits rx.splits option.splits)

subsection \<open>Contexts\<close>

text \<open>
  A \<^verbatim>\<open>context.Context\<close>: the deadline it carries and the instant its cancel function is
  called, if ever. \<^verbatim>\<open>context.WithTimeout\<close> tightens the deadline.
\<close>

record ctx =
  ctx_Deadline :: "time option"
  ctx_cancelled :: "time option"

definition context_Background :: ctx where
  "context_Background = \<lparr>ctx_Deadline = None, ctx_cancelled = None\<rparr>"

definition context_WithTimeout :: "ctx \<Rightarrow> time \<Rightarrow> duration \<Rightarrow> ctx" where
  "context_WithTimeout c t d =
     c\<lparr>ctx_Deadline := (case ctx_Deadline c of
          None \<Rightarrow> Some (t + d) | Some x \<Rightarrow> Some (min x (t + d)))\<rparr>"

text \<open>When a context is done, and the error it then reports.\<close>

definition ctx_done :: "ctx \<Rightarrow> (time \<times> goerr) option" where
  "ctx_done c =
     (case (ctx_Deadline c, ctx_cancelled c) of
        (None, None) \<Rightarrow> None
      | (Some d, None) \<Rightarrow> Some (d, CtxDeadlineExceeded)
      | (None, Some t) \<Rightarrow> Some (t, CtxCanceled)
      | (Some d, Some t) \<Rightarrow> if t < d then Some (t, CtxCanceled) else Some (d, CtxDeadlineExceeded))"

lemma ctx_done_deadline: "ctx_Deadline c = Some d \<Longrightarrow> \<exists>t e. ctx_done c = Some (t, e) \<and> t \<le> d"
  by (auto simp: ctx_done_def split: option.splits)

end
