(* ===== verification/Rcon_Packet.thy ===== *)
theory Rcon_Packet
  imports Go_Net
begin

text \<open>
  The wire format, \<^verbatim>\<open>src/rcon/packet.go\<close>: little-endian integers, the packet, its
  encoder \<^verbatim>\<open>WriteTo\<close> and its decoder \<^verbatim>\<open>ReadFrom\<close> over any reader. The decoder
  is shown to refine a parser of byte strings, and the parser to invert the encoder.
\<close>

subsection \<open>Little-endian integers\<close>

text \<open>\<^verbatim>\<open>binary.LittleEndian.PutUint32\<close> and \<^verbatim>\<open>Uint32\<close>.\<close>

definition PutUint32 :: "uint32 \<Rightarrow> bytes" where
  "PutUint32 v =
     [char_of (uint v), char_of (uint (drop_bit 8 v)),
      char_of (uint (drop_bit 16 v)), char_of (uint (drop_bit 24 v))]"

definition Uint32 :: "bytes \<Rightarrow> uint32" where
  "Uint32 b =
     or (or (or (word_of_nat (of_char (b ! 0))) (push_bit 8 (word_of_nat (of_char (b ! 1)))))
       (push_bit 16 (word_of_nat (of_char (b ! 2))))) (push_bit 24 (word_of_nat (of_char (b ! 3))))"

subsection \<open>Packets\<close>

type_synonym PacketType = int32

definition TypeResponseValue :: PacketType where
  "TypeResponseValue = 0"

definition TypeExecCommand :: PacketType where
  "TypeExecCommand = 2"

definition TypeAuthResponse :: PacketType where
  "TypeAuthResponse = 2"

definition TypeAuth :: PacketType where
  "TypeAuth = 3"

definition MaxPayloadSize :: nat where
  "MaxPayloadSize = 4096"

definition HeaderSize :: nat where
  "HeaderSize = 8"

definition PaddingSize :: nat where
  "PaddingSize = 2"

definition MinPacketSize :: nat where
  "MinPacketSize = HeaderSize + PaddingSize"

lemmas packet_types = TypeResponseValue_def TypeExecCommand_def TypeAuthResponse_def TypeAuth_def
lemmas packet_sizes = MaxPayloadSize_def HeaderSize_def PaddingSize_def MinPacketSize_def

record Packet =
  ID :: int32
  Type :: PacketType
  Body :: bytes

text \<open>The buffer \<^verbatim>\<open>WriteTo\<close> fills and writes in one call.\<close>

definition encode :: "Packet \<Rightarrow> bytes" where
  "encode p =
     (let size = HeaderSize + length (Body p) + PaddingSize
      in PutUint32 (word_of_nat size) @ PutUint32 (ID p) @ PutUint32 (Type p)
           @ Body p @ replicate PaddingSize (CHR 0x00))"

definition Packet_WriteTo ::
  "(bytes \<Rightarrow> 'w \<Rightarrow> (nat \<times> unit gores) \<times> 'w) \<Rightarrow> Packet \<Rightarrow> 'w \<Rightarrow> (nat \<times> unit gores) \<times> 'w" where
  "Packet_WriteTo wr p w = wr (encode p) w"

text \<open>The fields of a frame's body, once its \<open>size\<close> bytes are read.\<close>

definition packet_of :: "bytes \<Rightarrow> Packet" where
  "packet_of body =
     \<lparr>ID = Uint32 (take 4 body), Type = Uint32 (take 4 (drop 4 body)),
      Body = take (length body - PaddingSize - 8) (drop 8 body)\<rparr>"

text \<open>\<^verbatim>\<open>ReadFrom\<close>: the count it returns and the packet or the error.\<close>

definition Packet_ReadFrom ::
  "(nat \<Rightarrow> 'r \<Rightarrow> bytes gores \<times> 'r) \<Rightarrow> 'r \<Rightarrow> (nat \<times> Packet gores) \<times> 'r" where
  "Packet_ReadFrom rd r =
     (case io_ReadFull rd 4 r of
        (Err e, r1) \<Rightarrow> ((0, Err e), r1)
      | (Hang, r1) \<Rightarrow> ((0, Hang), r1)
      | (Ok sizeField, r1) \<Rightarrow>
          (let sizeU = Uint32 sizeField in
           if sizeU > word_of_nat (MaxPayloadSize + MinPacketSize) then ((4, Err ErrResponseTooLong), r1)
           else (let size = unat sizeU in
             if size < MinPacketSize then ((4, Err ErrResponseTooShort), r1)
             else (case io_ReadFull rd size r1 of
                 (Err e, r2) \<Rightarrow> ((4, Err e), r2)
               | (Hang, r2) \<Rightarrow> ((4, Hang), r2)
               | (Ok body, r2) \<Rightarrow> ((4 + size, Ok (packet_of body)), r2)))))"

subsection \<open>The parser the decoder refines\<close>

text \<open>
  What decoding means on the stream a reader delivers: \<open>st\<close> the bytes still to come,
  \<open>fin\<close> how the stream ends. The result is the count, the packet or error, and the
  bytes that remain.
\<close>

definition parse_frame :: "bytes \<Rightarrow> bytes gores \<Rightarrow> (nat \<times> Packet gores) \<times> bytes" where
  "parse_frame st fin =
     (if length st < 4 then ((0, dry_end st fin), [])
      else (let sz = unat (Uint32 (take 4 st)); st1 = drop 4 st in
        if sz > MaxPayloadSize + MinPacketSize then ((4, Err ErrResponseTooLong), st1)
        else if sz < MinPacketSize then ((4, Err ErrResponseTooShort), st1)
        else if length st1 < sz then ((4, dry_end st1 fin), [])
        else ((4 + sz, Ok (packet_of (take sz st1))), drop sz st1)))"

text \<open>A packet that fits the protocol.\<close>

definition fits :: "Packet \<Rightarrow> bool" where
  "fits p \<longleftrightarrow> length (Body p) \<le> MaxPayloadSize"

text \<open>A stream of packets.\<close>

definition frames :: "Packet list \<Rightarrow> bytes" where
  "frames ps = concat (map encode ps)"

lemma frames_simps [simp]:
  "frames [] = []" "frames (p # ps) = encode p @ frames ps" "frames (ps @ qs) = frames ps @ frames qs"
  by (simp_all add: frames_def)

subsection \<open>Integers round trip\<close>

lemma char_of_uint: "(char_of (uint (w :: uint32)) :: char) = char_of (unat w)"
  by (simp add: char_of_def bit_unsigned_iff flip: bit_0)

lemma PutUint32_unat:
  "PutUint32 v =
     [char_of (unat v), char_of (unat (drop_bit 8 v)),
      char_of (unat (drop_bit 16 v)), char_of (unat (drop_bit 24 v))]"
  by (simp add: PutUint32_def char_of_uint)

lemma too_long_iff:
  "word_of_nat MaxPayloadSize + word_of_nat MinPacketSize < (w :: uint32) \<longleftrightarrow> MaxPayloadSize + MinPacketSize < unat w"
  by (simp add: packet_sizes word_less_nat_alt)

lemma length_PutUint32 [simp]: "length (PutUint32 v) = 4"
  by (simp add: PutUint32_def)

lemma Uint32_append [simp]: "4 \<le> length b \<Longrightarrow> Uint32 (b @ c) = Uint32 b"
  by (cases b) (auto simp: Uint32_def nth_append)

lemma Uint32_take [simp]: "Uint32 (take 4 b) = Uint32 b"
  by (simp add: Uint32_def)

lemma of_char_take_bit: "(of_char (char_of m) :: nat) = take_bit 8 m"
  by (simp add: take_bit_eq_mod)

lemma bit_of_char: "bit (of_char c :: nat) i \<longleftrightarrow> i < 8 \<and> bit (of_char c :: nat) i"
proof -
  have "of_char c = take_bit 8 (of_char c :: nat)"
    by (metis char_of_char of_char_take_bit)
  then show ?thesis by (metis bit_take_bit_iff)
qed

lemma bit_char_word: "bit (word_of_nat (of_char c) :: 32 word) i \<longleftrightarrow> i < 8 \<and> bit (of_char c :: nat) i"
  using bit_of_char [of c i] by (auto simp: bit_of_nat_iff)

lemma bit_Uint32:
  "bit (Uint32 b) n \<longleftrightarrow>
     (if n < 8 then bit (of_char (b ! 0) :: nat) n
      else if n < 16 then bit (of_char (b ! 1) :: nat) (n - 8)
      else if n < 24 then bit (of_char (b ! 2) :: nat) (n - 16)
      else n < 32 \<and> bit (of_char (b ! 3) :: nat) (n - 24))"
  by (auto simp: Uint32_def bit_or_iff bit_push_bit_iff bit_char_word)

lemma Uint32_PutUint32 [simp]: "Uint32 (PutUint32 v) = v"
  by (rule bit_word_eqI)
    (auto simp: bit_Uint32 PutUint32_unat of_char_take_bit bit_take_bit_iff bit_unsigned_iff
      bit_drop_bit_eq simp del: of_char_of)

lemma PutUint32_Uint32:
  assumes "length b = 4"
  shows "PutUint32 (Uint32 b) = b"
proof -
  have c: "char_of (unat (drop_bit k (Uint32 b))) = c"
    if "\<And>i. i < 8 \<Longrightarrow> bit (Uint32 b) (k + i) \<longleftrightarrow> bit (of_char c :: nat) i" for k c
    unfolding char_of_eq_iff
    by (rule bit_eqI) (use that bit_of_char in \<open>auto simp: bit_take_bit_iff bit_unsigned_iff bit_drop_bit_eq\<close>)
  obtain b0 b1 b2 b3 where b: "b = [b0, b1, b2, b3]"
    using assms by (auto simp: length_Suc_conv numeral_eq_Suc)
  show ?thesis
    using c [of 0 b0] c [of 8 b1] c [of 16 b2] c [of 24 b3]
    by (simp add: PutUint32_unat bit_Uint32 b)
qed

subsection \<open>Frames round trip\<close>

lemma length_encode [simp]: "length (encode p) = 14 + length (Body p)"
  by (simp add: encode_def Let_def packet_sizes)

lemma encode_nonempty [simp]: "encode p \<noteq> []"
  by (metis add_is_0 length_encode list.size(3) zero_neq_numeral)

lemma fits_size: "fits p \<Longrightarrow> unat (word_of_nat (10 + length (Body p)) :: uint32) = 10 + length (Body p)"
  by (rule of_nat_inverse [OF refl]) (simp add: fits_def MaxPayloadSize_def)

lemma encode_split:
  "encode p = PutUint32 (word_of_nat (10 + length (Body p)))
     @ (PutUint32 (ID p) @ PutUint32 (Type p) @ Body p @ replicate 2 (CHR 0x00))"
  by (simp add: encode_def Let_def packet_sizes add.commute)

lemma size_encode: "fits p \<Longrightarrow> unat (Uint32 (encode p)) = 10 + length (Body p)"
  using fits_size [of p] by (simp add: encode_split)

lemma packet_of_fields:
  "length pad = 2 \<Longrightarrow> packet_of (PutUint32 i @ PutUint32 t @ b @ pad) = \<lparr>ID = i, Type = t, Body = b\<rparr>"
  by (simp add: packet_of_def packet_sizes)

text \<open>The parser inverts the encoder, whatever follows the frame.\<close>

lemma parse_encode:
  assumes "fits p"
  shows "parse_frame (encode p @ st) fin = ((length (encode p), Ok p), st)"
  using fits_size [OF assms] assms packet_of_fields [of "replicate 2 (CHR 0x00)" "ID p" "Type p" "Body p"]
  by (simp add: parse_frame_def encode_split Let_def packet_sizes fits_def)

text \<open>And a parsed frame is the encoding of its packet, up to the two padding bytes, which
  the decoder does not look at.\<close>

lemma packet_of_inverse:
  assumes "10 \<le> length body"
  shows "\<exists>pad. length pad = 2 \<and> body = PutUint32 (ID (packet_of body)) @ PutUint32 (Type (packet_of body))
      @ Body (packet_of body) @ pad"
proof -
  let ?k = "length body - 10"
  have "body = take 4 body @ take 4 (drop 4 body) @ take ?k (drop 8 body) @ drop ?k (drop 8 body)"
    using append_take_drop_id [of 4 body] append_take_drop_id [of 4 "drop 4 body"]
      append_take_drop_id [of ?k "drop 8 body"] by simp
  moreover have "PutUint32 (ID (packet_of body)) = take 4 body"
    "PutUint32 (Type (packet_of body)) = take 4 (drop 4 body)"
    "Body (packet_of body) = take ?k (drop 8 body)"
    using assms PutUint32_Uint32 [of "take 4 body"] PutUint32_Uint32 [of "take 4 (drop 4 body)"]
    by (simp_all add: packet_of_def PaddingSize_def)
  moreover have "length (drop ?k (drop 8 body)) = 2"
    using assms by simp
  ultimately show ?thesis by metis
qed

lemma parse_frame_Ok:
  assumes "parse_frame st fin = ((n, Ok p), st')"
  shows "fits p" "n = length (encode p)"
    "\<exists>pad. length pad = 2 \<and> st = take (length (encode p) - 2) (encode p) @ pad @ st'"
proof -
  from assms have sz: "4 \<le> length st" "10 \<le> unat (Uint32 st)" "unat (Uint32 st) \<le> 4106"
    "unat (Uint32 st) \<le> length (drop 4 st)" "p = packet_of (take (unat (Uint32 st)) (drop 4 st))"
    "st' = drop (unat (Uint32 st)) (drop 4 st)" "n = 4 + unat (Uint32 st)"
    by (auto simp: parse_frame_def Let_def packet_sizes dry_end_def
        split: if_splits res.splits)
  let ?body = "take (unat (Uint32 st)) (drop 4 st)"
  have len: "length (Body p) + 10 = unat (Uint32 st)"
    using sz by (simp add: packet_of_def packet_sizes)
  then show "fits p" "n = length (encode p)"
    using sz by (simp_all add: fits_def MaxPayloadSize_def)
  obtain pad where pad: "length pad = 2" "?body = PutUint32 (ID p) @ PutUint32 (Type p) @ Body p @ pad"
    using packet_of_inverse [of ?body] sz by auto
  from len have "10 + length (Body p) = unat (Uint32 (take 4 st))" by simp
  then have "word_of_nat (10 + length (Body p)) = (word_of_nat (unat (Uint32 (take 4 st))) :: uint32)"
    by (rule arg_cong)
  also have "\<dots> = Uint32 (take 4 st)" by simp
  finally have "PutUint32 (word_of_nat (10 + length (Body p))) = take 4 st"
    using PutUint32_Uint32 [of "take 4 st"] sz(1) by simp
  moreover have "st = take 4 st @ ?body @ st'"
    unfolding sz(6) append_take_drop_id ..
  ultimately show "\<exists>pad. length pad = 2 \<and> st = take (length (encode p) - 2) (encode p) @ pad @ st'"
    using pad by (auto simp: encode_split)
qed

text \<open>A body above the cap is refused by the decoder at its size field.\<close>

lemma parse_oversized:
  assumes "\<not> fits p" "10 + length (Body p) < 2 ^ 32"
  shows "parse_frame (encode p @ st) fin = ((4, Err ErrResponseTooLong), drop 4 (encode p @ st))"
proof -
  have "unat (word_of_nat (10 + length (Body p)) :: uint32) = 10 + length (Body p)"
    by (rule of_nat_inverse [OF refl]) (use assms(2) in simp)
  with assms(1) show ?thesis
    by (simp add: parse_frame_def encode_split Let_def packet_sizes fits_def)
qed

lemma dry_end_not_Ok [simp]: "dry_end got fin \<noteq> Ok x"
  by (auto simp: dry_end_def split: res.splits)

lemma parse_frame_hang: "parse_frame st fin = ((n, Hang), st') \<Longrightarrow> \<not> is_Ok fin \<Longrightarrow> fin = Hang"
  by (auto simp: parse_frame_def dry_end_def Let_def split: if_splits res.splits)

subsection \<open>The decoder refines the parser\<close>

context io_reader
begin

lemma ReadFrom_parse:
  "Packet_ReadFrom rd r = (out, r') \<Longrightarrow>
     parse_frame (pending r) (final r) = (out, pending r') \<and> final r' = final r"
proof (cases "length (pending r) < 4")
  case True
  then obtain r1 where "io_ReadFull rd 4 r = (dry_end (pending r) (final r), r1)"
    "pending r1 = []" "final r1 = final r" by (rule ReadFull_dry)
  moreover assume "Packet_ReadFrom rd r = (out, r')"
  ultimately show ?thesis using True
    by (auto simp: Packet_ReadFrom_def too_long_iff parse_frame_def dry_end_def split: res.splits)
next
  case False
  then obtain r1 where r1: "io_ReadFull rd 4 r = (Ok (take 4 (pending r)), r1)"
    "pending r1 = drop 4 (pending r)" "final r1 = final r"
    by (metis ReadFull_enough not_less)
  assume out: "Packet_ReadFrom rd r = (out, r')"
  let ?sz = "unat (Uint32 (pending r))"
  show ?thesis
  proof (cases "length (pending r1) < ?sz")
    case True
    then obtain r2 where "io_ReadFull rd ?sz r1 = (dry_end (pending r1) (final r1), r2)"
      "pending r2 = []" "final r2 = final r1" by (rule ReadFull_dry)
    with out r1 False True show ?thesis
      by (auto simp: Packet_ReadFrom_def too_long_iff parse_frame_def Let_def dry_end_def
          split: res.splits if_splits)
  next
    case False2: False
    then obtain r2 where "io_ReadFull rd ?sz r1 = (Ok (take ?sz (pending r1)), r2)"
      "pending r2 = drop ?sz (pending r1)" "final r2 = final r1"
      by (metis ReadFull_enough not_less)
    with out r1 False False2 show ?thesis
      by (auto simp: Packet_ReadFrom_def too_long_iff parse_frame_def Let_def split: if_splits)
  qed
qed

lemma ReadFrom_encode:
  assumes "fits p" "pending r = encode p @ st"
  obtains r' where "Packet_ReadFrom rd r = ((length (encode p), Ok p), r')"
    "pending r' = st" "final r' = final r"
proof -
  obtain out r' where r': "Packet_ReadFrom rd r = (out, r')" by fastforce
  from ReadFrom_parse [OF r'] assms show thesis
    by (auto intro!: that [of r'] simp: parse_encode r')
qed

lemma ReadFrom_empty:
  assumes "pending r = []"
  obtains r' where "Packet_ReadFrom rd r = ((0, dry_end [] (final r)), r')"
    "pending r' = []" "final r' = final r"
proof -
  obtain out r' where r': "Packet_ReadFrom rd r = (out, r')" by fastforce
  from ReadFrom_parse [OF r'] assms show thesis
    by (auto intro!: that [of r'] simp: parse_frame_def r')
qed

end

context counted_reader
begin

lemma left_ReadFull_min:
  assumes "io_ReadFull rd n r = (Ok d, r')"
  shows "n + left r' \<le> left r"
  using left_ReadFull(2) [OF assms refl] ReadFull_from_grows [of rd n "[]" r d r'] assms
  by (simp add: io_ReadFull_def)

lemma left_ReadFrom:
  assumes "Packet_ReadFrom rd r = ((n, x), r')"
  shows "left r' \<le> left r" "x = Ok p \<Longrightarrow> 4 + MinPacketSize + left r' \<le> left r"
    "x = Ok p \<Longrightarrow> left r' < left r"
proof -
  obtain y r1 where r1: "io_ReadFull rd 4 r = (y, r1)" by fastforce
  have "left r1 \<le> left r" by (rule left_ReadFull [OF r1])
  with assms r1 left_ReadFull(1) [of _ r1] show "left r' \<le> left r"
    by (fastforce simp: Packet_ReadFrom_def Let_def split: res.splits prod.splits if_splits)
  show least: "4 + MinPacketSize + left r' \<le> left r" if ok: "x = Ok p"
  proof -
    obtain sz b where "io_ReadFull rd 4 r = (Ok sz, r1)" "MinPacketSize \<le> unat (Uint32 sz)"
      "io_ReadFull rd (unat (Uint32 sz)) r1 = (Ok b, r')"
      using assms ok r1 by (auto simp: Packet_ReadFrom_def Let_def split: prod.splits res.splits if_splits)
    with left_ReadFull_min [of 4 r sz r1] left_ReadFull_min [of "unat (Uint32 sz)" r1 b r'] show ?thesis
      by simp
  qed
  then show "x = Ok p \<Longrightarrow> left r' < left r" by simp
qed

end

context timed_reader
begin

text \<open>The bytes of a packet, all of them in time, are read as that packet, at the instant of the
  last of them.\<close>

lemma timed_ReadFrom:
  assumes "stamps r = A @ B" "map snd A = encode p" "fits p" "\<forall>e \<in> set A. alive r (fst e)"
  obtains r' where "Packet_ReadFrom rd r = ((length (encode p), Ok p), r')" "stamps r' = B"
    "now r' = last_at (now r) A" "tail r' = tail r"
proof -
  define A1 A2 where "A1 = take 4 A" and "A2 = drop 4 A"
  have A: "A = A1 @ A2" by (simp add: A1_def A2_def)
  have "length A = length (encode p)" using assms(2) by (metis length_map)
  then have L: "length A1 = 4" "length A2 = 10 + length (Body p)" by (simp_all add: A1_def A2_def)
  have m: "map snd A1 = take 4 (encode p)" "map snd A2 = drop 4 (encode p)"
    by (simp_all add: A1_def A2_def take_map drop_map flip: assms(2))
  have "stamps r = A1 @ A2 @ B" using assms(1) A by simp
  moreover have "\<forall>e \<in> set A1. alive r (fst e)" using assms(4) A by simp
  ultimately obtain r1 where r1: "io_ReadFull rd (length A1) r = (Ok (map snd A1), r1)" "stamps r1 = A2 @ B"
    "now r1 = last_at (now r) A1" "tail r1 = tail r" "\<And>v. alive r v \<Longrightarrow> alive r1 v"
    by (rule timed_ReadFull) blast
  have "\<forall>e \<in> set A2. alive r1 (fst e)" using assms(4) A r1(5) by simp
  with r1(2) obtain r2 where r2: "io_ReadFull rd (length A2) r1 = (Ok (map snd A2), r2)" "stamps r2 = B"
    "now r2 = last_at (now r1) A2" "tail r2 = tail r1"
    by (rule timed_ReadFull) blast
  have sz: "unat (Uint32 (take 4 (encode p))) = 10 + length (Body p)"
    using fits_size [OF assms(3)] by (simp add: encode_split)
  have "packet_of (drop 4 (encode p)) = p"
    using packet_of_fields [of "replicate 2 (CHR 0x00)" "ID p" "Type p" "Body p"]
    by (simp add: encode_split)
  then have "Packet_ReadFrom rd r = ((length (encode p), Ok p), r2)"
    using r1(1) r2(1) L m sz assms(3)
    by (simp add: Packet_ReadFrom_def word_less_nat_alt Let_def packet_sizes fits_def)
  moreover have "now r2 = last_at (now r) A" using r1(3) r2(3) by (simp add: A last_at_append)
  ultimately show thesis using r1(4) r2(2,4) that by simp
qed

end

text \<open>What every successful read keeps, a successful \<^verbatim>\<open>ReadFrom\<close> keeps.\<close>

lemma ReadFrom_Ok_keeps:
  assumes "\<And>n r d r'. P r \<Longrightarrow> rd n r = (Ok d, r') \<Longrightarrow> P r'" "P r"
    "Packet_ReadFrom rd r = ((n, Ok p), r')"
  shows "P r'"
proof -
  have full: "P r1" if "P r" "io_ReadFull rd m r = (Ok d, r1)" for m r d r1
    using ReadFull_Ok_keeps [of P rd r m d r1] assms(1) that by blast
  obtain sz r1 b where "io_ReadFull rd 4 r = (Ok sz, r1)" "io_ReadFull rd (unat (Uint32 sz)) r1 = (Ok b, r')"
    using assms(3) by (auto simp: Packet_ReadFrom_def Let_def split: prod.splits res.splits if_splits)
  with full assms(2) show ?thesis by blast
qed

lemma ReadFrom_keeps:
  assumes "\<And>n r. P r \<Longrightarrow> P (snd (rd n r))" and "P r"
  shows "P (snd (Packet_ReadFrom rd r))"
proof -
  have full: "P (snd (io_ReadFull rd n r))" if "P r" for n r
    using ReadFull_keeps [of P rd r n] assms(1) that by blast
  show ?thesis
    using full [OF assms(2), of 4] full
    by (auto simp: Packet_ReadFrom_def Let_def split: prod.splits res.splits) (metis snd_conv)+
qed

subsection \<open>The wire format\<close>

text \<open>A socket just connected, with the given future, for evaluating the operations on
  concrete inputs.\<close>

definition fresh_sock :: "(time \<times> rx) list \<Rightarrow> sock" where
  "fresh_sock es = \<lparr>clock = 0, inbound = es, outbound = [], txs = [], rdeadline = None,
     wdeadline = None, sclosed = False\<rparr>"

definition reply :: "int32 \<Rightarrow> bytes \<Rightarrow> Packet" where
  "reply i b = \<lparr>ID = i, Type = TypeResponseValue, Body = b\<rparr>"

lemma WriteTo_sent:
  "Packet_WriteTo sock_write p s = ((k, Ok ()), s') \<Longrightarrow> outbound s' = outbound s @ encode p"
  by (auto simp: Packet_WriteTo_def dest: sockw.write_ok)

text \<open>C4: the bytes a successful \<^verbatim>\<open>WriteTo\<close> put on one socket, read by
  \<^verbatim>\<open>ReadFrom\<close> through the buffered reader of another, however cut into segments,
  give back the packet and the count, and nothing of what follows is consumed.\<close>

theorem ReadFrom_WriteTo:
  assumes "fits p" "Packet_WriteTo sock_write p w = ((k, Ok ()), w')"
    "bufr_pending b = drop (length (outbound w)) (outbound w') @ st"
  shows "\<exists>b'. Packet_ReadFrom bufio_read b = ((k, Ok p), b') \<and> bufr_pending b' = st"
proof -
  have "bufr_pending b = encode p @ st" "k = length (encode p)"
    using assms(2,3) WriteTo_sent [OF assms(2)] sockw.write_all [of "encode p" w k "()" w']
    by (simp_all add: Packet_WriteTo_def)
  then show ?thesis
    using brd.ReadFrom_encode [OF assms(1)] by metis
qed

theorem ReadFrom_WriteTo_witness:
  "\<exists>b'. Packet_ReadFrom bufio_read \<lparr>buffered = take 3 (encode (reply 7 ''hi'')),
       under = fresh_sock [(1, RxData (drop 3 (encode (reply 7 ''hi'')) @ ''rest''))]\<rparr>
     = ((16, Ok (reply 7 ''hi'')), b') \<and> bufr_pending b' = ''rest''"
proof -
  have "fits (reply 7 ''hi'')"
    "Packet_WriteTo sock_write (reply 7 ''hi'') (fresh_sock []) =
       ((16, Ok ()), (fresh_sock [])\<lparr>outbound := encode (reply 7 ''hi'')\<rparr>)"
    by code_simp+
  moreover have "bufr_pending \<lparr>buffered = take 3 (encode (reply 7 ''hi'')),
       under = fresh_sock [(1, RxData (drop 3 (encode (reply 7 ''hi'')) @ ''rest''))]\<rparr> =
     drop (length (outbound (fresh_sock [])))
       (outbound ((fresh_sock [])\<lparr>outbound := encode (reply 7 ''hi'')\<rparr>)) @ ''rest''"
    by code_simp
  ultimately show ?thesis by (rule ReadFrom_WriteTo)
qed

text \<open>C30: whatever arrives, a packet \<^verbatim>\<open>ReadFrom\<close> accepts has a body within the payload
  cap, and the bytes consumed are exactly its encoding up to the two padding bytes, which are
  not inspected; the count returned is the number of bytes consumed.\<close>

theorem ReadFrom_sound:
  assumes "Packet_ReadFrom bufio_read b = ((n, Ok p), b')"
  shows "length (Body p) \<le> MaxPayloadSize \<and> n = length (encode p)
    \<and> (\<exists>pad. length pad = 2 \<and>
         bufr_pending b = take (length (encode p) - 2) (encode p) @ pad @ bufr_pending b')"
proof -
  from brd.ReadFrom_parse [OF assms]
  have "parse_frame (bufr_pending b) (bufr_final b) = ((n, Ok p), bufr_pending b')" by blast
  from parse_frame_Ok [OF this] show ?thesis by (simp add: fits_def)
qed

theorem ReadFrom_sound_witness:
  "\<exists>pad. length pad = 2 \<and> encode (reply 9 ''ok'') @ ''x'' =
     take 14 (encode (reply 9 ''ok'')) @ pad @ ''x''"
proof -
  have "Packet_ReadFrom bufio_read \<lparr>buffered = encode (reply 9 ''ok'') @ ''x'', under = fresh_sock []\<rparr>
      = ((16, Ok (reply 9 ''ok'')), \<lparr>buffered = ''x'', under = fresh_sock []\<rparr>)"
    by code_simp
  note r = ReadFrom_sound [OF this]
  moreover have "bufr_pending \<lparr>buffered = xs, under = fresh_sock []\<rparr> = xs" for xs
    by (simp add: bufr_pending_def sock_pending_def fresh_sock_def)
  moreover have "length (encode (reply 9 ''ok'')) - 2 = 14" by code_simp
  ultimately show ?thesis by metis
qed

text \<open>C31: a size field above 4106 is refused as too long and one below 10 as too short, in
  both cases after reading the four bytes of the field and nothing else, so no allocation or
  read depends on a size the peer makes up.\<close>

theorem ReadFrom_rejects_size:
  assumes "4 \<le> length (bufr_pending b)" "sz = uint (Uint32 (bufr_pending b))" "sz < 10 \<or> 4106 < sz"
  shows "\<exists>b'. Packet_ReadFrom bufio_read b =
      ((4, Err (if 4106 < sz then ErrResponseTooLong else ErrResponseTooShort)), b')
    \<and> bufr_pending b' = drop 4 (bufr_pending b)"
proof -
  obtain out b' where r: "Packet_ReadFrom bufio_read b = (out, b')" by fastforce
  obtain m where m: "unat (Uint32 (bufr_pending b)) = m" "sz = int m" using assms(2) by simp
  with assms(3) have "4106 < m \<or> \<not> 4106 < m \<and> m < 10" by auto
  with brd.ReadFrom_parse [OF r] assms(1) r m show ?thesis
    by (auto simp: parse_frame_def Let_def packet_sizes)
qed

theorem ReadFrom_rejects_size_witness:
  "\<exists>b'. Packet_ReadFrom bufio_read \<lparr>buffered = replicate 6 (CHR 0xFF), under = fresh_sock []\<rparr> =
     ((4, Err ErrResponseTooLong), b') \<and> bufr_pending b' = replicate 2 (CHR 0xFF)"
proof -
  let ?b = "\<lparr>buffered = replicate 6 (CHR 0xFF), under = fresh_sock []\<rparr>"
  have h: "4 \<le> length (bufr_pending ?b)" "4294967295 = uint (Uint32 (bufr_pending ?b))"
    by code_simp+
  have h2: "(4294967295 :: int) < 10 \<or> (4106 :: int) < 4294967295" by simp
  have "drop 4 (bufr_pending ?b) = replicate 2 (CHR 0xFF)" by code_simp
  with ReadFrom_rejects_size [OF h h2] show ?thesis by simp
qed

text \<open>C37: a frame cut short by the peer's close never yields a packet. The error is
  \<^verbatim>\<open>io.ErrUnexpectedEOF\<close>, except that a cut before the first byte or right after the
  size field gives plain \<^verbatim>\<open>io.EOF\<close>.\<close>

theorem ReadFrom_truncated:
  assumes "fits p" "k < length (encode p)" "bufr_pending b = take k (encode p)"
    "bufr_final b = Err IoEOF"
  shows "snd (fst (Packet_ReadFrom bufio_read b)) =
    Err (if k = 0 \<or> k = 4 then IoEOF else IoErrUnexpectedEOF)"
proof -
  obtain out b' where r: "Packet_ReadFrom bufio_read b = (out, b')" by fastforce
  note parsed = brd.ReadFrom_parse [OF r, unfolded assms(3,4)]
  show ?thesis
  proof (cases "k < 4")
    case True
    with parsed r assms(2) show ?thesis
      by (auto simp: parse_frame_def dry_end_def)
  next
    case False
    then have "take 4 (take k (encode p)) = take 4 (encode p)" "k - 4 < 10 + length (Body p)"
      "drop 4 (take k (encode p)) = [] \<longleftrightarrow> k = 4"
      using assms(2) by auto
    with False parsed r assms(1,2) size_encode [OF assms(1)] show ?thesis
      by (auto simp: parse_frame_def Let_def packet_sizes dry_end_def fits_def simp del: take_take)
  qed
qed

theorem ReadFrom_truncated_witness:
  "snd (fst (Packet_ReadFrom bufio_read \<lparr>buffered = take 4 (encode (reply 3 ''abc'')),
     under = fresh_sock [(2, RxEOF)]\<rparr>)) = Err IoEOF"
proof -
  let ?b = "\<lparr>buffered = take 4 (encode (reply 3 ''abc'')), under = fresh_sock [(2, RxEOF)]\<rparr>"
  have "fits (reply 3 ''abc'')" "4 < length (encode (reply 3 ''abc''))"
    "bufr_pending ?b = take 4 (encode (reply 3 ''abc''))" "bufr_final ?b = Err IoEOF"
    by code_simp+
  from ReadFrom_truncated [OF this] show ?thesis by simp
qed

end
