(* ===== verification/Rcon_Server.thy ===== *)
theory Rcon_Server
  imports Rcon_Packet
begin

text \<open>
  The server's side of one connection: \<^verbatim>\<open>src/rconserver/auth.go\<close>,
  \<^verbatim>\<open>handler.go\<close>, \<^verbatim>\<open>response.go\<close>, and \<^verbatim>\<open>serveConn\<close> and
  \<^verbatim>\<open>dispatch\<close> of \<^verbatim>\<open>server.go\<close>. The server reads its socket without a buffer.
\<close>

subsection \<open>Handlers\<close>

text \<open>\<^verbatim>\<open>Request\<close>, and its \<^verbatim>\<open>Context\<close> method.\<close>

record Request =
  Command :: bytes
  RemoteAddr :: bytes
  req_ctx :: "ctx option"

definition Request_Context :: "Request \<Rightarrow> ctx" where
  "Request_Context r = (case req_ctx r of Some x \<Rightarrow> x | None \<Rightarrow> context_Background)"

text \<open>
  A handler is the user's code: a parameter. It sees the request and its own state \<open>'h\<close>,
  makes calls on the response writer, takes some time, and returns, panics or blocks for
  ever.
\<close>

datatype hact = HWrite bytes | HWriteString bytes

datatype hend = HReturn | HPanic | HBlock

record 'h hrun =
  hr_acts :: "hact list"
  hr_end :: hend
  hr_took :: nat
  hr_state :: 'h

type_synonym 'h handler = "Request \<Rightarrow> 'h \<Rightarrow> 'h hrun"

text \<open>The exported fields of \<^verbatim>\<open>Server\<close>; a nil \<^verbatim>\<open>Handler\<close> or
  \<^verbatim>\<open>Authenticator\<close> is \<open>None\<close>.\<close>

record 'h Server =
  Addr :: bytes
  Handler :: "'h handler option"
  Password :: bytes
  Authenticator :: "(bytes \<Rightarrow> bool) option"
  ReadTimeout :: duration

subsection \<open>Authentication\<close>

definition errNotAuth :: goerr where
  "errNotAuth = ErrorString ''rconserver: first packet was not an auth request''"

definition validate :: "'h Server \<Rightarrow> unit gores" where
  "validate s =
     (if Handler s = None then Err (ErrorString ''rconserver: nil Handler'')
      else if Authenticator s = None \<and> Password s = []
        then Err (ErrorString ''rconserver: no Password or Authenticator configured'')
      else Ok ())"

text \<open>\<^verbatim>\<open>subtle.ConstantTimeCompare\<close>: the disjunction of the differences of all bytes, so
  that the time does not depend on where two strings of one length differ.\<close>

definition byte_of :: "char \<Rightarrow> 8 word" where
  "byte_of c = word_of_nat (of_char c)"

definition ConstantTimeCompare :: "bytes \<Rightarrow> bytes \<Rightarrow> int" where
  "ConstantTimeCompare x y =
     (if length x \<noteq> length y then 0
      else if fold (\<lambda>(a, b) v. or v (xor (byte_of a) (byte_of b))) (zip x y) 0 = 0 then 1 else 0)"

definition checkPassword :: "'h Server \<Rightarrow> bytes \<Rightarrow> bool" where
  "checkPassword s password =
     (case Authenticator s of
        Some f \<Rightarrow> f password
      | None \<Rightarrow> ConstantTimeCompare password (Password s) = 1)"

definition srv_read :: "sock \<Rightarrow> Packet gores \<times> sock" where
  "srv_read k = (case Packet_ReadFrom sock_read k of ((n, x), k') \<Rightarrow> (x, k'))"

definition srv_write :: "Packet \<Rightarrow> sock \<Rightarrow> unit gores \<times> sock" where
  "srv_write p k = (case Packet_WriteTo sock_write p k of ((n, x), k') \<Rightarrow> (x, k'))"

definition srv_authenticate :: "'h Server \<Rightarrow> sock \<Rightarrow> bool gores \<times> sock" where
  "srv_authenticate s k =
     andThen (srv_read k) (\<lambda>req k.
       if Type req \<noteq> TypeAuth then (Err errNotAuth, k)
       else (let ok = checkPassword s (Body req) in
         andThen (srv_write \<lparr>ID = ID req, Type = TypeResponseValue, Body = []\<rparr> k) (\<lambda>_ k.
         andThen (srv_write \<lparr>ID = (if ok then ID req else -1), Type = TypeAuthResponse, Body = []\<rparr> k)
           (\<lambda>_ k. (Ok ok, k)))))"

subsection \<open>Responses\<close>

record responseWriter =
  rw_buf :: bytes

definition responseWriter_Write :: "bytes \<Rightarrow> responseWriter \<Rightarrow> nat gores \<times> responseWriter" where
  "responseWriter_Write p w = (Ok (length p), w\<lparr>rw_buf := rw_buf w @ p\<rparr>)"

definition responseWriter_WriteString :: "bytes \<Rightarrow> responseWriter \<Rightarrow> nat gores \<times> responseWriter" where
  "responseWriter_WriteString s w = (Ok (length s), w\<lparr>rw_buf := rw_buf w @ s\<rparr>)"

fun handler_act :: "hact \<Rightarrow> responseWriter \<Rightarrow> responseWriter" where
  "handler_act (HWrite p) w = snd (responseWriter_Write p w)"
| "handler_act (HWriteString s) w = snd (responseWriter_WriteString s w)"

text \<open>The loop of \<^verbatim>\<open>writeResponse\<close>, and the function.\<close>

function writeResponse_loop :: "int32 \<Rightarrow> bytes \<Rightarrow> sock \<Rightarrow> unit gores \<times> sock" where
  "writeResponse_loop reqID body k =
     (if body = [] then (Ok (), k)
      else (let n = min (length body) MaxPayloadSize in
        andThen (srv_write \<lparr>ID = reqID, Type = TypeResponseValue, Body = take n body\<rparr> k)
          (\<lambda>_ k. writeResponse_loop reqID (drop n body) k)))"
  by pat_completeness auto
termination
  by (relation "measure (\<lambda>(q, body, k). length body)") (auto simp: MaxPayloadSize_def)

declare writeResponse_loop.simps [simp del]

definition writeResponse :: "int32 \<Rightarrow> bytes \<Rightarrow> sock \<Rightarrow> unit gores \<times> sock" where
  "writeResponse reqID body k =
     (if body = [] then srv_write \<lparr>ID = reqID, Type = TypeResponseValue, Body = []\<rparr> k
      else writeResponse_loop reqID body k)"

subsection \<open>Serving a connection\<close>

definition errHandlerPanic :: goerr where
  "errHandlerPanic = ErrorString ''rconserver: handler panicked''"

text \<open>\<^verbatim>\<open>dispatch\<close>: run the handler on a fresh response writer, recover a panic (a nil
  handler panics too), and frame what it wrote.\<close>

definition dispatch ::
  "'h Server \<Rightarrow> Request \<Rightarrow> int32 \<Rightarrow> sock \<times> 'h \<Rightarrow> unit gores \<times> sock \<times> 'h" where
  "dispatch s r reqID st =
     (case st of (k, h) \<Rightarrow>
      (case Handler s of
         None \<Rightarrow> (Err errHandlerPanic, k, h)
       | Some serveRCON \<Rightarrow>
           (let run = serveRCON r h;
                k = k\<lparr>clock := clock k + int (hr_took run)\<rparr>;
                rw = fold handler_act (hr_acts run) \<lparr>rw_buf = []\<rparr> in
            case hr_end run of
              HPanic \<Rightarrow> (Err errHandlerPanic, k, hr_state run)
            | HBlock \<Rightarrow> (Hang, k, hr_state run)
            | HReturn \<Rightarrow>
                (case writeResponse reqID (rw_buf rw) k of (x, k') \<Rightarrow> (x, k', hr_state run)))))"

text \<open>The read deadline set before every packet; its error is dropped.\<close>

definition armRead :: "'h Server \<Rightarrow> sock \<Rightarrow> sock" where
  "armRead s k =
     (if ReadTimeout s > 0 then snd (sock_SetReadDeadline (Some (clock k + ReadTimeout s)) k) else k)"

lemma srv_write_left: "srv_write p k = (x, k') \<Longrightarrow> sock_left k' = sock_left k"
  by (auto simp: srv_write_def Packet_WriteTo_def sock_write_def wait_out_def sock_left_def
      split: if_splits list.splits tx.splits option.splits)

lemma writeResponse_loop_left:
  "writeResponse_loop reqID body k = (x, k') \<Longrightarrow> sock_left k' = sock_left k"
proof (induction reqID body k rule: writeResponse_loop.induct)
  case (1 reqID body k)
  from "1.prems" show ?case
    using "1.IH" srv_write_left
    by (fastforce simp: writeResponse_loop.simps [of reqID body] Let_def andThen_def
        split: if_splits prod.splits res.splits)
qed

lemma dispatch_left: "dispatch s r reqID (k, h) = (x, k', h') \<Longrightarrow> sock_left k' = sock_left k"
  by (auto simp: dispatch_def writeResponse_def Let_def sock_left_def
      dest!: srv_write_left writeResponse_loop_left
      split: option.splits hend.splits prod.splits if_splits)

lemma armRead_left [simp]: "sock_left (armRead s k) = sock_left k"
  by (simp add: armRead_def sock_SetReadDeadline_def sock_left_def)

lemma srv_read_left: "(Ok p, k') = srv_read k \<Longrightarrow> sock_left k' < sock_left k"
  by (auto simp: srv_read_def split: prod.splits dest: sockr.left_ReadFrom(3))

lemma srv_read_least: "srv_read k = (Ok p, k') \<Longrightarrow> 4 + MinPacketSize + sock_left k' \<le> sock_left k"
  by (auto simp: srv_read_def split: prod.splits dest: sockr.left_ReadFrom(2))

text \<open>The loop of \<^verbatim>\<open>serveConn\<close> after the login; \<open>Ok ()\<close> is its \<^verbatim>\<open>return\<close>.
  The source's loop has no bound: a client that keeps sending keeps it running. Here it is
  total because the client's script is finite; how long it can run is a function of the bytes
  the script holds.\<close>

function serve_loop :: "'h Server \<Rightarrow> ctx \<Rightarrow> bytes \<Rightarrow> sock \<times> 'h \<Rightarrow> unit gores \<times> sock \<times> 'h" where
  "serve_loop s doneCtx addr (k, h) =
     (case srv_read (armRead s k) of
        (Err e, k1) \<Rightarrow> (Ok (), k1, h)
      | (Hang, k1) \<Rightarrow> (Hang, k1, h)
      | (Ok req, k1) \<Rightarrow>
          (if Type req = TypeExecCommand then
             (case dispatch s \<lparr>Command = Body req, RemoteAddr = addr, req_ctx = Some doneCtx\<rparr> (ID req) (k1, h) of
                (Ok _, k2, h2) \<Rightarrow> serve_loop s doneCtx addr (k2, h2)
              | (Err e, st) \<Rightarrow> (Ok (), st)
              | (Hang, st) \<Rightarrow> (Hang, st))
           else if Type req = TypeResponseValue then
             (case srv_write \<lparr>ID = ID req, Type = TypeResponseValue, Body = []\<rparr> k1 of
                (Hang, k2) \<Rightarrow> (Hang, k2, h)
              | (_, k2) \<Rightarrow> serve_loop s doneCtx addr (k2, h))
           else serve_loop s doneCtx addr (k1, h)))"
  by pat_completeness auto
termination
proof (relation "measure (\<lambda>(s, cx, a, k, h). sock_left k)", goal_cases)
qed (auto dest!: srv_read_left srv_write_left [OF sym] dispatch_left [OF sym])

declare serve_loop.simps [simp del]

definition serveConn :: "'h Server \<Rightarrow> ctx \<Rightarrow> bytes \<Rightarrow> sock \<times> 'h \<Rightarrow> unit gores \<times> sock \<times> 'h" where
  "serveConn s doneCtx addr st =
     (case st of (k, h) \<Rightarrow>
      (case (case srv_authenticate s (armRead s k) of
               (Ok True, k1) \<Rightarrow> serve_loop s doneCtx addr (k1, h)
             | (Hang, k1) \<Rightarrow> (Hang, k1, h)
             | (_, k1) \<Rightarrow> (Ok (), k1, h)) of
         (Hang, st') \<Rightarrow> (Hang, st')
       | (x, k2, h2) \<Rightarrow> (x, snd (sock_Close k2), h2)))"

end
