(* ===== verification/Rcon_Serve.thy ===== *)
theory Rcon_Serve
  imports Rcon_Server "HOL-Library.Sublist"
begin

text \<open>
  Properties of one server connection: the password check, the framing of responses, and
  the session as a whole, which is shown to be the one a function on packet lists
  prescribes.
\<close>

subsection \<open>Passwords\<close>

lemma byte_of_eq [simp]: "byte_of a = byte_of b \<longleftrightarrow> a = b"
proof
  assume "byte_of a = byte_of b"
  then have "unat (byte_of a) = unat (byte_of b)" by simp
  moreover have "unat (byte_of c) = of_char c" for c
    using of_char_take_bit [of "of_char c"] by (simp add: byte_of_def unsigned_of_nat del: of_char_of)
  ultimately show "a = b" by (metis of_char_eq_iff)
qed simp

lemma fold_or_zero:
  "fold (\<lambda>(a, b) v. or v (xor (byte_of a) (byte_of b))) ps v = 0 \<longleftrightarrow> v = 0 \<and> (\<forall>(a, b) \<in> set ps. a = b)"
proof (induction ps arbitrary: v)
  case (Cons p ps)
  obtain a b where p: "p = (a, b)" by fastforce
  have "xor x y = 0 \<longleftrightarrow> x = y" for x y :: "8 word"
    by (metis xor.right_neutral xor.assoc xor_self_eq)
  then show ?case
    using Cons p by (simp add: or_eq_0_iff)
qed auto

lemma ConstantTimeCompare_eq: "ConstantTimeCompare x y = (if x = y then 1 else 0)"
proof (cases "length x = length y")
  case True
  then have "(\<forall>(a, b) \<in> set (zip x y). a = b) \<longleftrightarrow> x = y"
    by (induction x y rule: list_induct2) auto
  with True show ?thesis by (auto simp: ConstantTimeCompare_def fold_or_zero)
qed (auto simp: ConstantTimeCompare_def)

subsection \<open>Framing a response\<close>

text \<open>The bodies of the packets of a response.\<close>

function chop :: "bytes \<Rightarrow> bytes list" where
  "chop b = (if b = [] then [] else take MaxPayloadSize b # chop (drop MaxPayloadSize b))"
  by pat_completeness auto
termination
  by (relation "measure length") (auto simp: MaxPayloadSize_def)

declare chop.simps [simp del]

definition response_bodies :: "bytes \<Rightarrow> bytes list" where
  "response_bodies b = (if b = [] then [[]] else chop b)"

definition response_packets :: "int32 \<Rightarrow> bytes \<Rightarrow> Packet list" where
  "response_packets reqID b = map (reply reqID) (response_bodies b)"

lemma chop_sound: "concat (chop b) = b \<and> (\<forall>c \<in> set (chop b). length c \<le> MaxPayloadSize)"
proof (induction b rule: chop.induct)
  case (1 b)
  then show ?case by (subst (1 2) chop.simps) auto
qed

lemma response_bodies_sound:
  "response_bodies b \<noteq> []" "concat (response_bodies b) = b"
  "c \<in> set (response_bodies b) \<Longrightarrow> length c \<le> MaxPayloadSize"
  using chop_sound [of b] by (auto simp: response_bodies_def split: if_splits)

text \<open>What a write of a packet sends: all of it, or a prefix.\<close>

lemma srv_write_sent:
  assumes "srv_write p k = (x, k')"
  shows "\<exists>d. outbound k' = outbound k @ d \<and> prefix d (encode p) \<and> (x = Ok () \<longrightarrow> d = encode p)"
proof -
  obtain n where w: "sock_write (encode p) k = ((n, x), k')"
    using assms by (auto simp: srv_write_def Packet_WriteTo_def split: prod.splits)
  show ?thesis
    using sockw.write_sent [OF w] sockw.write_all [of "encode p" k n "()" k'] w
    by (auto simp: take_is_prefix)
qed

lemma writeResponse_loop_sent:
  "writeResponse_loop reqID body k = (x, k') \<Longrightarrow>
    \<exists>d. outbound k' = outbound k @ d \<and> prefix d (frames (map (reply reqID) (chop body)))
      \<and> (x = Ok () \<longrightarrow> d = frames (map (reply reqID) (chop body)))"
proof (induction reqID body k arbitrary: x rule: writeResponse_loop.induct)
  case (1 reqID body k)
  show ?case
  proof (cases "body = []")
    case True
    with "1.prems" show ?thesis by (auto simp: writeResponse_loop.simps chop.simps)
  next
    case False
    let ?n = "min (length body) MaxPayloadSize"
    let ?p = "reply reqID (take ?n body)"
    have n: "take MaxPayloadSize body = take ?n body" "drop MaxPayloadSize body = drop ?n body"
      by (auto simp: min_def)
    obtain y k1 where w: "srv_write ?p k = (y, k1)" by fastforce
    have w2: "srv_write \<lparr>ID = reqID, Type = TypeResponseValue, Body = take ?n body\<rparr> k = (y, k1)"
      using w by (simp add: reply_def)
    obtain d where d: "outbound k1 = outbound k @ d" "prefix d (encode ?p)" "y = Ok () \<longrightarrow> d = encode ?p"
      using srv_write_sent [OF w] by blast
    have fr: "frames (map (reply reqID) (chop body)) =
        encode ?p @ frames (map (reply reqID) (chop (drop ?n body)))"
      using False n by (subst chop.simps) simp
    show ?thesis
    proof (cases y)
      case (Ok u)
      then have rest: "writeResponse_loop reqID (drop ?n body) k1 = (x, k')"
        using "1.prems" False w2 by (simp add: writeResponse_loop.simps [of reqID body k] Let_def)
      from "1.IH" [OF False refl w2 [unfolded Ok] rest] d fr Ok show ?thesis by auto
    qed (use "1.prems" False w2 d fr in
        \<open>auto simp: writeResponse_loop.simps [of reqID body k] Let_def\<close>)
  qed
qed

lemma writeResponse_sent:
  assumes "writeResponse reqID body k = (x, k')"
  shows "\<exists>d. outbound k' = outbound k @ d \<and> prefix d (frames (response_packets reqID body))
      \<and> (x = Ok () \<longrightarrow> d = frames (response_packets reqID body))"
  using assms srv_write_sent [of "reply reqID []" k x k'] writeResponse_loop_sent [of reqID body k x k']
  by (auto simp: writeResponse_def response_packets_def response_bodies_def reply_def split: if_splits)

text \<open>On a socket that takes writes, the response is sent whole and nothing else changes.\<close>

definition srv_open :: "sock \<Rightarrow> bool" where
  "srv_open k \<longleftrightarrow> \<not> sclosed k \<and> txs k = [] \<and> wdeadline k = None"

lemma srv_write_open: "srv_open k \<Longrightarrow> srv_write p k = (Ok (), k\<lparr>outbound := outbound k @ encode p\<rparr>)"
  by (simp add: srv_open_def srv_write_def Packet_WriteTo_def sock_write_def expired_def)

lemma srv_open_outbound [simp]: "srv_open (k\<lparr>outbound := b\<rparr>) = srv_open k"
  by (simp add: srv_open_def)

lemma writeResponse_loop_open:
  "srv_open k \<Longrightarrow> writeResponse_loop reqID body k =
     (Ok (), k\<lparr>outbound := outbound k @ frames (map (reply reqID) (chop body))\<rparr>)"
proof (induction reqID body k rule: writeResponse_loop.induct)
  case (1 reqID body k)
  have n: "take (min (length body) MaxPayloadSize) body = take MaxPayloadSize body"
    "drop (min (length body) MaxPayloadSize) body = drop MaxPayloadSize body"
    by (auto simp: min_def)
  show ?case
    using "1.IH" [OF _ refl] "1.prems"
    by (subst writeResponse_loop.simps, subst chop.simps)
      (simp add: srv_write_open n reply_def [abs_def])
qed

lemma writeResponse_open:
  "srv_open k \<Longrightarrow> writeResponse reqID body k =
     (Ok (), k\<lparr>outbound := outbound k @ frames (response_packets reqID body)\<rparr>)"
  by (simp add: writeResponse_def response_packets_def response_bodies_def srv_write_open
      writeResponse_loop_open reply_def [abs_def])

subsection \<open>Sockets whose data arrives in time\<close>

text \<open>No event of the script runs into the read deadline.\<close>

definition calm :: "time option \<Rightarrow> sock \<Rightarrow> bool" where
  "calm d k \<longleftrightarrow> rdeadline k = d \<and> \<not> sclosed k \<and> \<not> expired d (clock k)
     \<and> (\<forall>e \<in> set (inbound k). \<not> expired d (fst e))"

lemma calm_read:
  assumes "calm d k" "sock_read n k = (Ok x, k')"
  shows "calm d k'"
proof -
  obtain t b rest where ev: "dropWhile nothing (inbound k) = (t, RxData b) # rest"
    "k' = k\<lparr>clock := max (clock k) t,
            inbound := (if length b \<le> n then rest else (t, RxData (drop n b)) # rest)\<rparr>"
    using assms by (auto simp: sock_read_def wait_out_def
        split: if_splits list.splits rx.splits option.splits)
  then have "(t, RxData b) \<in> set (inbound k)" "set rest \<subseteq> set (inbound k)"
    using set_dropWhileD [of _ nothing "inbound k"] by (auto simp del: dropWhile_eq_Cons_conv)
  with assms(1) ev(2) show ?thesis by (auto simp: calm_def)
qed

lemma rx_pending_calm:
  "\<forall>e \<in> set es. \<not> expired d (fst e) \<Longrightarrow> rx_pending d es = rx_pending None es"
proof (induction d es rule: rx_pending.induct)
  case (2 d t b r)
  moreover have "\<not> expired None t" by (simp add: expired_def)
  ultimately show ?case by auto
qed auto

lemma calm_pending: "calm d k \<Longrightarrow> sock_pending k = rx_pending None (inbound k)"
  by (auto simp: calm_def sock_pending_def rx_pending_calm)

text \<open>Everything still to come arrives before the deadline the server sets next.\<close>

definition timely :: "'h Server \<Rightarrow> sock \<Rightarrow> bool" where
  "timely s k \<longleftrightarrow>
     (if ReadTimeout s > 0 then \<forall>e \<in> set (inbound k). fst e < clock k + ReadTimeout s
      else rdeadline k = None)"

definition next_deadline :: "'h Server \<Rightarrow> sock \<Rightarrow> time option" where
  "next_deadline s k = (if ReadTimeout s > 0 then Some (clock k + ReadTimeout s) else None)"

lemma armRead_calm: "timely s k \<Longrightarrow> \<not> sclosed k \<Longrightarrow> calm (next_deadline s k) (armRead s k)"
  by (fastforce simp: timely_def calm_def next_deadline_def armRead_def sock_SetReadDeadline_def expired_def)

lemma armRead_simps [simp]:
  "inbound (armRead s k) = inbound k" "outbound (armRead s k) = outbound k"
  "clock (armRead s k) = clock k" "sclosed (armRead s k) = sclosed k"
  "srv_open (armRead s k) = srv_open k"
  by (simp_all add: armRead_def sock_SetReadDeadline_def srv_open_def)

lemma calm_timely: "calm (next_deadline s k) k' \<Longrightarrow> clock k \<le> clock k' \<Longrightarrow> timely s k'"
  by (fastforce simp: timely_def calm_def next_deadline_def expired_def)

lemma srv_read_keeps:
  assumes "srv_read k = (x, k')"
  shows "outbound k' = outbound k" "txs k' = txs k" "wdeadline k' = wdeadline k"
    "sclosed k' = sclosed k" "rdeadline k' = rdeadline k" "clock k \<le> clock k'"
proof -
  define P where "P = (\<lambda>k' :: sock. outbound k' = outbound k \<and> txs k' = txs k \<and> wdeadline k' = wdeadline k
    \<and> sclosed k' = sclosed k \<and> rdeadline k' = rdeadline k \<and> clock k \<le> clock k')"
  have "P (snd (Packet_ReadFrom sock_read k))"
  proof (rule ReadFrom_keeps)
    show "P k" by (simp add: P_def)
    show "P (snd (sock_read n r))" if "P r" for n r
      using that sock_read_clock(1) [of r n] by (auto simp: P_def)
  qed
  with assms show "outbound k' = outbound k" "txs k' = txs k" "wdeadline k' = wdeadline k"
    "sclosed k' = sclosed k" "rdeadline k' = rdeadline k" "clock k \<le> clock k'"
    by (auto simp: P_def srv_read_def split: prod.splits)
qed

lemma srv_read_open: "srv_read k = (x, k') \<Longrightarrow> srv_open k' = srv_open k"
  using srv_read_keeps [of k x k'] by (simp add: srv_open_def)

text \<open>A packet in time is read, and what follows it is still in time.\<close>

lemma srv_read_packet:
  assumes "srv_open k" "timely s k" "rx_pending None (inbound k) = encode p @ st" "fits p"
  obtains k' where "srv_read (armRead s k) = (Ok p, k')" "srv_open k'" "timely s k'"
    "rx_pending None (inbound k') = st" "outbound k' = outbound k"
proof -
  have calm: "calm (next_deadline s k) (armRead s k)"
    using assms(1,2) by (simp add: armRead_calm srv_open_def)
  then have "sock_pending (armRead s k) = encode p @ st"
    using assms(3) by (simp add: calm_pending)
  from sockr.ReadFrom_encode [OF assms(4) this] obtain k' where
    k': "Packet_ReadFrom sock_read (armRead s k) = ((length (encode p), Ok p), k')" "sock_pending k' = st"
    by blast
  then have r: "srv_read (armRead s k) = (Ok p, k')" by (simp add: srv_read_def)
  have calm': "calm (next_deadline s k) k'"
    using calm_read calm k'(1) by (rule ReadFrom_Ok_keeps [of "calm (next_deadline s k)"])
  show thesis
  proof (rule that [OF r])
    show "srv_open k'" using srv_read_open [OF r] assms(1) by simp
    show "timely s k'" using calm' srv_read_keeps(6) [OF r] by (simp add: calm_timely)
    show "rx_pending None (inbound k') = st" using calm_pending [OF calm'] k'(2) by simp
    show "outbound k' = outbound k" using srv_read_keeps(1) [OF r] by simp
  qed
qed

lemma srv_read_end:
  assumes "srv_open k" "timely s k" "rx_pending None (inbound k) = []"
  obtains x k' where "srv_read (armRead s k) = (x, k')" "\<not> is_Ok x" "outbound k' = outbound k"
proof -
  have "sock_pending (armRead s k) = []"
    using assms armRead_calm [of s k] calm_pending [of "next_deadline s k" "armRead s k"]
    by (simp add: srv_open_def)
  from sockr.ReadFrom_empty [OF this] obtain k' where
    "Packet_ReadFrom sock_read (armRead s k) = ((0, dry_end [] (sock_final (armRead s k))), k')" by blast
  then have r: "srv_read (armRead s k) = (dry_end [] (sock_final (armRead s k)), k')"
    by (simp add: srv_read_def)
  have "\<not> is_Ok (dry_end [] (sock_final (armRead s k)) :: Packet gores)"
    by (simp add: is_Ok_iff)
  with r show thesis using srv_read_keeps(1) [OF r] by (auto intro: that)
qed

lemma timely_outbound [simp]: "timely s (k\<lparr>outbound := b\<rparr>) = timely s k"
  by (simp add: timely_def)

lemma timely_clock: "timely s k \<Longrightarrow> clock k \<le> t \<Longrightarrow> timely s (k\<lparr>clock := t\<rparr>)"
  by (fastforce simp: timely_def)

lemma srv_open_clock [simp]: "srv_open (k\<lparr>clock := t\<rparr>) = srv_open k"
  by (simp add: srv_open_def)

subsection \<open>The session a server gives\<close>

text \<open>What a handler answers: the bytes it wrote, or nothing if it did not return.\<close>

fun act_bytes :: "hact \<Rightarrow> bytes" where
  "act_bytes (HWrite p) = p"
| "act_bytes (HWriteString s) = s"

definition answer :: "'h Server \<Rightarrow> Request \<Rightarrow> 'h \<Rightarrow> bytes option \<times> 'h" where
  "answer s r h =
     (case Handler s of
        None \<Rightarrow> (None, h)
      | Some f \<Rightarrow>
          (if hr_end (f r h) = HReturn then Some (concat (map act_bytes (hr_acts (f r h)))) else None,
           hr_state (f r h)))"

text \<open>The packets an authenticated client gets for the packets it sends, and the handler's
  state after them.\<close>

fun serve_spec :: "'h Server \<Rightarrow> ctx \<Rightarrow> bytes \<Rightarrow> Packet list \<Rightarrow> 'h \<Rightarrow> Packet list \<times> 'h" where
  "serve_spec s cx addr [] h = ([], h)"
| "serve_spec s cx addr (p # ps) h =
     (if Type p = TypeExecCommand then
        (case answer s \<lparr>Command = Body p, RemoteAddr = addr, req_ctx = Some cx\<rparr> h of
           (None, h') \<Rightarrow> ([], h')
         | (Some body, h') \<Rightarrow>
             (case serve_spec s cx addr ps h' of
                (out, h'') \<Rightarrow> (response_packets (ID p) body @ out, h'')))
      else if Type p = TypeResponseValue then
        (case serve_spec s cx addr ps h of (out, h') \<Rightarrow> (reply (ID p) [] # out, h'))
      else serve_spec s cx addr ps h)"

lemma fold_handler_act: "rw_buf (fold handler_act acts w) = rw_buf w @ concat (map act_bytes acts)"
proof (induction acts arbitrary: w)
  case (Cons a acts)
  then show ?case
    by (cases a) (simp_all add: responseWriter_Write_def responseWriter_WriteString_def)
qed simp

lemma dispatch_answer:
  assumes "srv_open k" "timely s k"
  obtains x k' where "dispatch s r reqID (k, h) = (x, k', snd (answer s r h))" "srv_open k'" "timely s k'"
    "inbound k' = inbound k"
    "case fst (answer s r h) of
       None \<Rightarrow> x \<noteq> Ok () \<and> outbound k' = outbound k
     | Some body \<Rightarrow> x = Ok () \<and> outbound k' = outbound k @ frames (response_packets reqID body)"
proof (cases "Handler s")
  case None
  with assms show thesis
    by (intro that [of "Err errHandlerPanic" k]) (simp_all add: dispatch_def answer_def)
next
  case (Some f)
  let ?k = "k\<lparr>clock := clock k + int (hr_took (f r h))\<rparr>"
  have k: "srv_open ?k" "timely s ?k" "inbound ?k = inbound k" "outbound ?k = outbound k"
    using assms timely_clock [of s k] by simp_all
  show thesis
  proof (cases "hr_end (f r h)")
    case HReturn
    with Some k that show thesis
      by (simp add: dispatch_def answer_def Let_def writeResponse_open fold_handler_act)
  next
    case HPanic
    with Some k that [of "Err errHandlerPanic" ?k] show thesis
      by (simp add: dispatch_def answer_def Let_def)
  next
    case HBlock
    with Some k that [of Hang ?k] show thesis
      by (simp add: dispatch_def answer_def Let_def)
  qed
qed

lemma serve_loop_refines:
  assumes "srv_open k" "timely s k" "rx_pending None (inbound k) = frames ps" "\<forall>p \<in> set ps. fits p"
    "serve_loop s cx addr (k, h) = (x, k', h')"
  shows "outbound k' = outbound k @ frames (fst (serve_spec s cx addr ps h))
    \<and> h' = snd (serve_spec s cx addr ps h)"
  using assms
proof (induction ps arbitrary: k h)
  case Nil
  then obtain y k1 where "srv_read (armRead s k) = (y, k1)" "\<not> is_Ok y" "outbound k1 = outbound k"
    by (auto elim: srv_read_end)
  with Nil.prems(5) show ?case
    by (cases y) (auto simp: serve_loop.simps [of s])
next
  case (Cons p ps)
  from Cons.prems have "rx_pending None (inbound k) = encode p @ frames ps" "fits p" by simp_all
  with Cons.prems(1,2) obtain k1 where k1: "srv_read (armRead s k) = (Ok p, k1)" "srv_open k1"
    "timely s k1" "rx_pending None (inbound k1) = frames ps" "outbound k1 = outbound k"
    by (auto elim: srv_read_packet)
  note IH = Cons.IH
  let ?r = "\<lparr>Command = Body p, RemoteAddr = addr, req_ctx = Some cx\<rparr>"
  consider (exec) "Type p = TypeExecCommand" | (echo) "Type p = TypeResponseValue"
    | (other) "Type p \<noteq> TypeExecCommand" "Type p \<noteq> TypeResponseValue" by blast
  then show ?case
  proof cases
    case exec
    from dispatch_answer [OF k1(2,3), of ?r "ID p" h] obtain y k2 where
      d: "dispatch s ?r (ID p) (k1, h) = (y, k2, snd (answer s ?r h))" "srv_open k2" "timely s k2"
        "inbound k2 = inbound k1" and
      o: "case fst (answer s ?r h) of
           None \<Rightarrow> y \<noteq> Ok () \<and> outbound k2 = outbound k1
         | Some body \<Rightarrow> y = Ok () \<and> outbound k2 = outbound k1 @ frames (response_packets (ID p) body)"
      by metis
    show ?thesis
      using IH [of k2 "snd (answer s ?r h)"] Cons.prems(4,5) exec k1 d o
      by (cases y) (auto simp: serve_loop.simps [of s] split: option.splits prod.splits)
  next
    case echo
    have "TypeResponseValue \<noteq> TypeExecCommand" by (simp add: packet_types)
    with echo show ?thesis
      using IH [of "k1\<lparr>outbound := outbound k1 @ encode (reply (ID p) [])\<rparr>" h] Cons.prems(4,5) k1
        srv_write_open [OF k1(2), of "reply (ID p) []"]
      by (auto simp: serve_loop.simps [of s] reply_def split: prod.splits)
  next
    case other
    with IH [of k1 h] Cons.prems(4,5) k1 show ?thesis
      by (auto simp: serve_loop.simps [of s])
  qed
qed

subsection \<open>One turn of the loop\<close>

text \<open>The loop's body apart from the loop: \<open>None\<close> goes on, \<open>Some\<close> leaves.\<close>

definition serve_step ::
  "'h Server \<Rightarrow> ctx \<Rightarrow> bytes \<Rightarrow> sock \<times> 'h \<Rightarrow> unit gores option \<times> sock \<times> 'h" where
  "serve_step s cx addr st =
     (case srv_read (armRead s (fst st)) of
        (Err e, k1) \<Rightarrow> (Some (Ok ()), k1, snd st)
      | (Hang, k1) \<Rightarrow> (Some Hang, k1, snd st)
      | (Ok req, k1) \<Rightarrow>
          (if Type req = TypeExecCommand then
             (case dispatch s \<lparr>Command = Body req, RemoteAddr = addr, req_ctx = Some cx\<rparr> (ID req) (k1, snd st) of
                (Ok _, st2) \<Rightarrow> (None, st2)
              | (Err e, st2) \<Rightarrow> (Some (Ok ()), st2)
              | (Hang, st2) \<Rightarrow> (Some Hang, st2))
           else if Type req = TypeResponseValue then
             (case srv_write (reply (ID req) []) k1 of
                (Hang, k2) \<Rightarrow> (Some Hang, k2, snd st)
              | (_, k2) \<Rightarrow> (None, k2, snd st))
           else (None, k1, snd st)))"

lemma serve_loop_step:
  "serve_loop s cx addr st =
     (case serve_step s cx addr st of (None, st') \<Rightarrow> serve_loop s cx addr st' | (Some r, st') \<Rightarrow> (r, st'))"
proof (cases st)
  case (Pair k h)
  show ?thesis
    unfolding Pair
    by (subst serve_loop.simps, unfold serve_step_def reply_def) (simp split: prod.split res.split)
qed

lemma serve_step_left:
  assumes "serve_step s cx addr st = (None, st')"
  shows "sock_left (fst st') < sock_left (fst st)"
proof -
  obtain p k1 where r: "srv_read (armRead s (fst st)) = (Ok p, k1)"
    using assms by (auto simp: serve_step_def split: prod.splits res.splits)
  have "sock_left (fst st') = sock_left k1"
    using assms r by (auto simp: serve_step_def split: prod.splits res.splits if_splits
        dest!: dispatch_left srv_write_left)
  with srv_read_left [OF r [symmetric]] show ?thesis by simp
qed

lemma serve_loop_rule:
  assumes "\<And>st. (\<And>st'. serve_step s cx addr st = (None, st') \<Longrightarrow> P st') \<Longrightarrow> P st"
  shows "P st"
proof (induction "sock_left (fst st)" arbitrary: st rule: less_induct)
  case less
  then show ?case using assms serve_step_left by blast
qed

text \<open>An invariant of the turns holds at the end.\<close>

lemma serve_loop_invariant:
  assumes "\<And>st. I st \<Longrightarrow> I (snd (serve_step s cx addr st))" "I st"
  shows "I (snd (serve_loop s cx addr st))"
  using assms(2)
proof (induction st rule: serve_loop_rule [of s cx addr])
  case (1 st)
  then show ?case
    using assms(1) [of st]
    by (subst serve_loop_step) (auto split: prod.splits option.splits)
qed

text \<open>So does what every turn that leaves ensures of the result.\<close>

lemma serve_loop_result:
  assumes "\<And>st r st'. I st \<Longrightarrow> serve_step s cx addr st = (Some r, st') \<Longrightarrow> Q r"
    "\<And>st. I st \<Longrightarrow> I (snd (serve_step s cx addr st))" "I st"
  shows "Q (fst (serve_loop s cx addr st))"
  using assms(3)
proof (induction st rule: serve_loop_rule [of s cx addr])
  case (1 st)
  then show ?case
    using assms(1) [of st] assms(2) [of st]
    by (subst serve_loop_step) (auto split: prod.splits option.splits)
qed

subsection \<open>Concrete servers\<close>

text \<open>A server that counts the commands it runs and echoes them, panicking on \<open>boom\<close>.\<close>

definition echo_handler :: "nat handler" where
  "echo_handler r h =
     \<lparr>hr_acts = [HWrite ''> '', HWriteString (Command r)],
      hr_end = (if Command r = ''boom'' then HPanic else HReturn), hr_took = 1, hr_state = h + 1\<rparr>"

definition echo_server :: "duration \<Rightarrow> nat Server" where
  "echo_server rt = \<lparr>Addr = '':27015'', Handler = Some echo_handler, Password = ''pw'',
     Authenticator = None, ReadTimeout = rt\<rparr>"

definition login :: "bytes \<Rightarrow> Packet" where
  "login pw = \<lparr>ID = 1, Type = TypeAuth, Body = pw\<rparr>"

definition exec :: "int32 \<Rightarrow> bytes \<Rightarrow> Packet" where
  "exec i cmd = \<lparr>ID = i, Type = TypeExecCommand, Body = cmd\<rparr>"

subsection \<open>Properties of a server connection\<close>

text \<open>The constant-time comparison is equality; an \<^verbatim>\<open>Authenticator\<close> takes its place.\<close>

lemma checkPassword_iff:
  "checkPassword s pw = (case Authenticator s of Some f \<Rightarrow> f pw | None \<Rightarrow> pw = Password s)"
  by (simp add: checkPassword_def ConstantTimeCompare_eq split: option.split)

lemma validate_password: "validate s = Ok () \<Longrightarrow> Authenticator s = None \<Longrightarrow> Password s \<noteq> []"
  by (auto simp: validate_def split: if_splits)

text \<open>Whatever the socket does, \<^verbatim>\<open>writeResponse\<close> sends a prefix of a fixed stream of
  \<^verbatim>\<open>RESPONSE_VALUE\<close> packets with the request's id, and all of it if it reports
  success: at least one packet, none with a body above the cap, the bodies in order making up
  the response.\<close>

theorem writeResponse_frames:
  assumes "writeResponse reqID body k = (x, k')"
  shows "\<exists>bs d. bs \<noteq> [] \<and> concat bs = body \<and> (\<forall>b \<in> set bs. length b \<le> MaxPayloadSize)
    \<and> outbound k' = outbound k @ d \<and> prefix d (frames (map (reply reqID) bs))
    \<and> (x = Ok () \<longrightarrow> d = frames (map (reply reqID) bs))"
  using writeResponse_sent [OF assms] response_bodies_sound(1,2) [of body] response_bodies_sound(3)
  unfolding response_packets_def by blast

theorem writeResponse_frames_witness:
  "\<exists>bs d. bs \<noteq> [] \<and> concat bs = ''hello'' \<and> (\<forall>b \<in> set bs. length b \<le> MaxPayloadSize)
    \<and> outbound ((fresh_sock [])\<lparr>outbound := take 7 (encode (reply 2 ''hello''))\<rparr>) = [] @ d
    \<and> prefix d (frames (map (reply 2) bs))"
proof -
  have "writeResponse 2 ''hello'' ((fresh_sock [])\<lparr>txs := [TxFault 7 UseOfClosed]\<rparr>) =
     (Err (NetError UseOfClosed), (fresh_sock [])\<lparr>outbound := take 7 (encode (reply 2 ''hello''))\<rparr>)"
    by code_simp
  from writeResponse_frames [OF this] show ?thesis by (fastforce simp: fresh_sock_def)
qed

lemma serveConn_fst: "fst (serveConn s cx addr st) = Ok () \<or> fst (serveConn s cx addr st) = Hang"
proof -
  have "fst (serve_loop s cx addr st) = Ok () \<or> fst (serve_loop s cx addr st) = Hang" for st
    by (rule serve_loop_result [where I = "\<lambda>_. True"])
      (auto simp: serve_step_def split: prod.splits res.splits if_splits)
  then show ?thesis
    by (auto simp: serveConn_def split: prod.splits res.splits bool.splits) (metis fst_conv res.distinct)+
qed

text \<open>\<^verbatim>\<open>serveConn\<close>, whatever the network and the handlers do, either blocks or
  returns, and then the connection is closed.\<close>

theorem serveConn_closes:
  assumes "serveConn s cx addr (k, h) = (x, k', h')" "x \<noteq> Hang"
  shows "x = Ok () \<and> sclosed k'"
proof -
  have "sclosed (snd (sock_Close k))" for k by (simp add: sock_Close_def)
  then have "sclosed k'"
    using assms by (auto simp: serveConn_def split: prod.splits res.splits)
  then show ?thesis using assms serveConn_fst [of s cx addr "(k, h)"] by simp
qed

theorem serveConn_closes_witness:
  "sclosed (fst (snd (serveConn (echo_server 5) context_Background ''peer''
     (fresh_sock [(3, RxData (encode (login ''pw'')))], 0 :: nat))))"
proof -
  let ?r = "serveConn (echo_server 5) context_Background ''peer'' (fresh_sock [(3, RxData (encode (login ''pw'')))], 0 :: nat)"
  have "fst ?r \<noteq> Hang" by code_simp
  from serveConn_closes [OF _ this, of "echo_server 5"] show ?thesis
    by (metis prod.collapse)
qed

text \<open>The first packet logs in.\<close>

definition login_accepted :: "'h Server \<Rightarrow> sock \<Rightarrow> bool" where
  "login_accepted s k =
     (case srv_read (armRead s k) of
        (Ok p, _) \<Rightarrow> Type p = TypeAuth \<and> checkPassword s (Body p)
      | _ \<Rightarrow> False)"

text \<open>What the server sends for a login.\<close>

definition login_replies :: "'h Server \<Rightarrow> Packet \<Rightarrow> Packet list" where
  "login_replies s p =
     [reply (ID p) [], \<lparr>ID = (if checkPassword s (Body p) then ID p else -1), Type = TypeAuthResponse, Body = []\<rparr>]"

lemma srv_authenticate_cases:
  assumes "srv_authenticate s k = (x, k')"
  shows "(x = Ok True \<longrightarrow> (\<exists>p k1. srv_read k = (Ok p, k1) \<and> Type p = TypeAuth \<and> checkPassword s (Body p)))
    \<and> (\<exists>d. outbound k' = outbound k @ d
         \<and> (d = [] \<or> (\<exists>p k1. srv_read k = (Ok p, k1) \<and> Type p = TypeAuth \<and> prefix d (frames (login_replies s p)))))"
proof -
  obtain y k1 where r: "srv_read k = (y, k1)" by fastforce
  note out = srv_read_keeps(1) [OF r]
  show ?thesis
  proof (cases "\<exists>p. y = Ok p \<and> Type p = TypeAuth")
    case False
    with assms r out show ?thesis
      by (cases y) (auto simp: srv_authenticate_def)
  next
    case True
    then obtain p where p: "y = Ok p" "Type p = TypeAuth" by blast
    let ?v = "\<lparr>ID = (if checkPassword s (Body p) then ID p else -1), Type = TypeAuthResponse, Body = []\<rparr>"
    obtain z k2 where w: "srv_write (reply (ID p) []) k1 = (z, k2)" by fastforce
    obtain z2 k3 where w2: "srv_write ?v k2 = (z2, k3)" by fastforce
    from srv_write_sent [OF w] srv_write_sent [OF w2] show ?thesis
      using assms r p w w2 out
      by (cases z; cases z2)
        (auto simp: srv_authenticate_def reply_def login_replies_def Let_def)
  qed
qed

text \<open>C5: without an accepted login, whatever else arrives and however the network behaves,
  no handler runs, at most the two login replies are sent, and the connection is not kept.\<close>

theorem serveConn_gate:
  assumes "\<not> login_accepted s k" "serveConn s cx addr (k, h) = (x, k', h')"
  shows "h' = h \<and> (\<exists>d. outbound k' = outbound k @ d \<and>
      (d = [] \<or> (\<exists>p k1. srv_read (armRead s k) = (Ok p, k1) \<and> prefix d (frames (login_replies s p)))))"
proof -
  obtain y k1 where a: "srv_authenticate s (armRead s k) = (y, k1)" by fastforce
  from srv_authenticate_cases [OF a] assms(1) have "y \<noteq> Ok True"
    by (auto simp: login_accepted_def)
  with a assms(2) have "h' = h" "outbound k' = outbound k1"
    by (auto simp: serveConn_def sock_Close_def split: res.splits bool.splits if_splits)
  with srv_authenticate_cases [OF a] show ?thesis by auto
qed

theorem serveConn_gate_witness:
  "snd (snd (serveConn (echo_server 0) context_Background ''peer''
     (fresh_sock [(3, RxData (frames [login ''no'', exec 2 ''stop'']))], 7 :: nat))) = 7"
proof -
  let ?k = "fresh_sock [(3, RxData (frames [login ''no'', exec 2 ''stop'']))]"
  have "\<not> login_accepted (echo_server 0) ?k" by code_simp
  from serveConn_gate [OF this] show ?thesis by (metis prod.collapse)
qed

subsection \<open>Whole sessions\<close>

definition session_spec :: "'h Server \<Rightarrow> ctx \<Rightarrow> bytes \<Rightarrow> Packet list \<Rightarrow> 'h \<Rightarrow> Packet list \<times> 'h" where
  "session_spec s cx addr ps h =
     (case ps of
        [] \<Rightarrow> ([], h)
      | p # qs \<Rightarrow>
          if Type p \<noteq> TypeAuth then ([], h)
          else if \<not> checkPassword s (Body p) then (login_replies s p, h)
          else (case serve_spec s cx addr qs h of (out, h') \<Rightarrow> (login_replies s p @ out, h')))"

lemma srv_authenticate_packet:
  assumes "srv_read k = (Ok p, k1)" "srv_open k1" "Type p = TypeAuth"
  shows "srv_authenticate s k =
    (Ok (checkPassword s (Body p)), k1\<lparr>outbound := outbound k1 @ frames (login_replies s p)\<rparr>)"
  using assms by (simp add: srv_authenticate_def Let_def srv_write_open login_replies_def reply_def)

lemma outbound_Close [simp]: "outbound (snd (sock_Close k)) = outbound k"
  by (simp add: sock_Close_def)

lemma serveConn_session:
  assumes "srv_open k" "timely s k" "rx_pending None (inbound k) = frames ps" "\<forall>p \<in> set ps. fits p"
    "serveConn s cx addr (k, h) = (x, k', h')"
  shows "outbound k' = outbound k @ frames (fst (session_spec s cx addr ps h))
    \<and> h' = snd (session_spec s cx addr ps h)"
proof (cases ps)
  case Nil
  with assms(1-3) obtain y k1 where "srv_read (armRead s k) = (y, k1)" "\<not> is_Ok y" "outbound k1 = outbound k"
    by (auto elim: srv_read_end)
  with Nil assms(5) show ?thesis
    by (cases y) (auto simp: serveConn_def srv_authenticate_def session_spec_def)
next
  case (Cons p qs)
  with assms obtain k1 where k1: "srv_read (armRead s k) = (Ok p, k1)" "srv_open k1"
    "timely s k1" "rx_pending None (inbound k1) = frames qs" "outbound k1 = outbound k"
    by (auto elim: srv_read_packet)
  let ?k2 = "k1\<lparr>outbound := outbound k1 @ frames (login_replies s p)\<rparr>"
  show ?thesis
  proof (cases "Type p = TypeAuth")
    case False
    with k1 Cons assms(5) show ?thesis
      by (auto simp: serveConn_def srv_authenticate_def session_spec_def)
  next
    case True
    note auth = srv_authenticate_packet [where s = s, OF k1(1,2) True]
    show ?thesis
    proof (cases "checkPassword s (Body p)")
      case False
      with k1 Cons assms(5) auth True show ?thesis
        by (auto simp: serveConn_def session_spec_def)
    next
      case ok: True
      obtain y k3 h3 where l: "serve_loop s cx addr (?k2, h) = (y, k3, h3)" by (metis prod.collapse)
      have "outbound k' = outbound k3" "h' = h3"
        using assms(5) auth ok l by (auto simp: serveConn_def split: res.splits)
      moreover have "outbound k3 = outbound ?k2 @ frames (fst (serve_spec s cx addr qs h))
          \<and> h3 = snd (serve_spec s cx addr qs h)"
        by (rule serve_loop_refines [OF _ _ _ _ l]) (use k1 Cons assms(4) in simp_all)
      ultimately show ?thesis
        using k1 Cons True ok by (simp add: session_spec_def split: prod.split)
    qed
  qed
qed

text \<open>C2: on a connection that takes writes and whose client is in time, the packets the
  server sends and the handler's state afterwards are those the session specification gives
  for the client's packets, in order and for every segmentation: login replies, one framed
  response per command, an empty echo per terminator, nothing for unknown types, and nothing
  after a handler that panicked.\<close>

theorem serveConn_refines:
  assumes "srv_open k" "timely s k" "rx_pending None (inbound k) = frames ps" "\<forall>p \<in> set ps. fits p"
    "serveConn s cx addr (k, h) = (x, k', h')"
  shows "outbound k' = outbound k @ frames (fst (session_spec s cx addr ps h))
    \<and> h' = snd (session_spec s cx addr ps h)"
  using assms by (rule serveConn_session)

theorem serveConn_refines_witness:
  "outbound (fst (snd (serveConn (echo_server 50) context_Background ''peer''
     (fresh_sock [(3, RxData (take 20 (frames [login ''pw'', exec 2 ''hi'', reply 3 []]))),
        (9, RxData (drop 20 (frames [login ''pw'', exec 2 ''hi'', reply 3 []])))], 0 :: nat)))) =
   frames [reply 1 [], \<lparr>ID = 1, Type = 2, Body = []\<rparr>, reply 2 ''> hi'', reply 3 []]"
proof -
  let ?ps = "[login ''pw'', exec 2 ''hi'', reply 3 []]"
  let ?k = "fresh_sock [(3, RxData (take 20 (frames ?ps))), (9, RxData (drop 20 (frames ?ps)))]"
  have h: "srv_open ?k" "timely (echo_server 50) ?k" "rx_pending None (inbound ?k) = frames ?ps"
    "\<forall>p \<in> set ?ps. fits p"
    by code_simp+
  have "fst (session_spec (echo_server 50) context_Background ''peer'' ?ps (0 :: nat)) =
    [reply 1 [], \<lparr>ID = 1, Type = 2, Body = []\<rparr>, reply 2 ''> hi'', reply 3 []]"
    by code_simp
  moreover have "outbound ?k = []" by code_simp
  ultimately show ?thesis
    using serveConn_refines [OF h] by (metis prod.collapse append_Nil)
qed

text \<open>C40: on a server that validates and has no \<^verbatim>\<open>Authenticator\<close>, a client whose first
  packet is a login is told its own id exactly if the login carries the configured password,
  compared in constant time; any other password, and the empty one in every case, is answered
  with the id -1, after which nothing more is sent and no handler runs.\<close>

theorem password_exact:
  assumes "validate s = Ok ()" "Authenticator s = None" "srv_open k" "timely s k"
    "rx_pending None (inbound k) = frames (p # ps)" "\<forall>q \<in> set (p # ps). fits q" "Type p = TypeAuth"
    "serveConn s cx addr (k, h) = (x, k', h')"
    "good \<longleftrightarrow> Body p = Password s \<and> Body p \<noteq> []"
  shows "\<exists>more. outbound k' = outbound k
      @ frames [reply (ID p) [], \<lparr>ID = (if good then ID p else -1), Type = TypeAuthResponse, Body = []\<rparr>] @ more
    \<and> (\<not> good \<longrightarrow> more = [] \<and> h' = h)"
proof -
  have pw: "checkPassword s (Body p) = good"
    using validate_password [OF assms(1,2)] assms(2,9) by (auto simp: checkPassword_iff)
  show ?thesis
    using serveConn_session [OF assms(3-6,8)] assms(7) pw
    by (cases "serve_spec s cx addr ps h") (auto simp: session_spec_def login_replies_def)
qed

theorem password_exact_witness:
  "outbound (fst (snd (serveConn (echo_server 0) context_Background ''peer''
     (fresh_sock [(3, RxData (frames [login [], exec 2 ''stop'']))], 7 :: nat)))) =
   frames [reply 1 [], \<lparr>ID = -1, Type = TypeAuthResponse, Body = []\<rparr>]"
proof -
  let ?k = "fresh_sock [(3, RxData (frames [login [], exec 2 ''stop'']))]" and ?s = "echo_server 0"
  have h: "validate ?s = Ok ()" "Authenticator ?s = None" "srv_open ?k" "timely ?s ?k"
    "rx_pending None (inbound ?k) = frames [login [], exec 2 ''stop'']"
    "\<forall>q \<in> set [login [], exec 2 ''stop'']. fits q" "Type (login []) = TypeAuth"
    "False \<longleftrightarrow> Body (login []) = Password ?s \<and> Body (login []) \<noteq> []"
    "ID (login []) = 1" "outbound ?k = []"
    by code_simp+
  obtain x k' h' where r: "serveConn ?s context_Background ''peer'' (?k, 7 :: nat) = (x, k', h')"
    by (rule prod_cases3)
  from password_exact [OF h(1-7) r h(8)] h(9,10) r show ?thesis by auto
qed

subsection \<open>Handlers that panic\<close>

text \<open>How the handler of a request ends; calling a nil handler panics.\<close>

definition handler_end :: "'h Server \<Rightarrow> Request \<Rightarrow> 'h \<Rightarrow> hend" where
  "handler_end s r h = (case Handler s of None \<Rightarrow> HPanic | Some f \<Rightarrow> hr_end (f r h))"

lemma answer_end: "fst (answer s r h) \<noteq> None \<longleftrightarrow> handler_end s r h = HReturn"
  by (simp add: answer_def handler_end_def split: option.split)

lemma dispatch_panics:
  "handler_end s r h = HPanic \<Longrightarrow> fst (dispatch s r reqID (k, h)) = Err errHandlerPanic"
  by (auto simp: dispatch_def handler_end_def Let_def split: option.splits)

text \<open>A command whose handler panics ends its connection: \<^verbatim>\<open>serveConn\<close> returns, and has
  closed it.\<close>

lemma serveConn_panic:
  assumes "srv_open k" "timely s k" "rx_pending None (inbound k) = frames (lp # q # ps)"
    "\<forall>p \<in> set (lp # q # ps). fits p" "Type lp = TypeAuth" "checkPassword s (Body lp)" "Type q = TypeExecCommand"
    "handler_end s \<lparr>Command = Body q, RemoteAddr = addr, req_ctx = Some cx\<rparr> h = HPanic"
    "serveConn s cx addr (k, h) = (x, k', h')"
  shows "x = Ok () \<and> sclosed k'"
proof (rule serveConn_closes [OF assms(9)])
  let ?r = "\<lparr>Command = Body q, RemoteAddr = addr, req_ctx = Some cx\<rparr>"
  obtain k1 where k1: "srv_read (armRead s k) = (Ok lp, k1)" "srv_open k1" "timely s k1"
    "rx_pending None (inbound k1) = encode q @ frames ps"
    by (rule srv_read_packet [OF assms(1,2), of lp "encode q @ frames ps"]) (use assms(3,4) in simp_all)
  let ?k2 = "k1\<lparr>outbound := outbound k1 @ frames (login_replies s lp)\<rparr>"
  obtain k3 where k3: "srv_read (armRead s ?k2) = (Ok q, k3)"
    by (rule srv_read_packet [of ?k2 s q "frames ps"]) (use k1 assms(4) in simp_all)
  obtain k4 h4 where "dispatch s ?r (ID q) (k3, h) = (Err errHandlerPanic, k4, h4)"
    using dispatch_panics [OF assms(8)] by (metis prod.collapse)
  then have "serve_loop s cx addr (?k2, h) = (Ok (), k4, h4)"
    using k3 assms(7) by (simp add: serve_loop.simps [of s])
  then show "x \<noteq> Hang"
    using assms(6,9) srv_authenticate_packet [OF k1(1,2) assms(5), of s] by (auto simp: serveConn_def)
qed

subsection \<open>Connections end\<close>

text \<open>No write stalls.\<close>

fun stalls :: "tx \<Rightarrow> bool" where
  "stalls (TxStall n) = True"
| "stalls _ = False"

definition flowing :: "sock \<Rightarrow> bool" where
  "flowing k \<longleftrightarrow> \<not> list_ex stalls (txs k)"

text \<open>Handlers return or panic, within a given time.\<close>

definition answers :: "nat \<Rightarrow> 'h Server \<Rightarrow> bool" where
  "answers took s \<longleftrightarrow> (\<forall>f r h. Handler s = Some f \<longrightarrow> hr_end (f r h) \<noteq> HBlock \<and> hr_took (f r h) \<le> took)"

lemma srv_write_flowing:
  assumes "flowing k" "srv_write p k = (x, k')"
  shows "x \<noteq> Hang" "flowing k'" "clock k' = clock k"
  using assms by (auto simp: flowing_def srv_write_def Packet_WriteTo_def sock_write_def
      split: if_splits list.splits tx.splits)

lemma writeResponse_loop_flowing:
  "flowing k \<Longrightarrow> writeResponse_loop reqID body k = (x, k') \<Longrightarrow> x \<noteq> Hang \<and> flowing k' \<and> clock k' = clock k"
proof (induction reqID body k arbitrary: x rule: writeResponse_loop.induct)
  case (1 reqID body k)
  obtain y k1 where w: "srv_write \<lparr>ID = reqID, Type = TypeResponseValue,
      Body = take (min (length body) MaxPayloadSize) body\<rparr> k = (y, k1)" by fastforce
  from srv_write_flowing [OF "1.prems"(1) this] "1.prems" "1.IH" [OF _ refl] w show ?case
    by (cases y) (auto simp: writeResponse_loop.simps [of reqID body k] Let_def split: if_splits)
qed

lemma dispatch_flowing:
  assumes "flowing k" "answers took s" "dispatch s r reqID (k, h) = (x, k', h')"
  shows "x \<noteq> Hang" "flowing k'" "clock k' \<le> clock k + int took"
proof -
  have tick: "flowing (k\<lparr>clock := t\<rparr>)" for t using assms(1) by (simp add: flowing_def)
  have resp: "x \<noteq> Hang \<and> flowing k' \<and> clock k' = t" if "writeResponse reqID b (k\<lparr>clock := t\<rparr>) = (x, k')" for b t
    using that srv_write_flowing [OF tick] writeResponse_loop_flowing [OF tick]
    by (fastforce simp: writeResponse_def split: if_splits)
  show "x \<noteq> Hang" "flowing k'" "clock k' \<le> clock k + int took"
    using assms tick resp
    by (auto simp: dispatch_def answers_def Let_def split: option.splits hend.splits prod.splits)
qed

text \<open>A read takes at most the read timeout.\<close>

lemma srv_read_clock:
  assumes "srv_read (armRead s k) = (x, k')" "ReadTimeout s > 0"
  shows "clock k' \<le> clock k + ReadTimeout s"
proof -
  define P where "P = (\<lambda>k' :: sock. clock k' \<le> clock k + ReadTimeout s
    \<and> (sclosed k' \<or> rdeadline k' = Some (clock k + ReadTimeout s)))"
  have "P (snd (Packet_ReadFrom sock_read (armRead s k)))"
  proof (rule ReadFrom_keeps)
    show "P (armRead s k)" using assms(2) by (auto simp: P_def armRead_def sock_SetReadDeadline_def)
    show "P (snd (sock_read n r))" if "P r" for n r
    proof (cases "sclosed r")
      case True
      with that show ?thesis by (simp add: P_def sock_read_def)
    next
      case False
      with that sock_read_clock(2) [of r "clock k + ReadTimeout s" n] show ?thesis by (simp add: P_def)
    qed
  qed
  with assms(1) show ?thesis by (auto simp: P_def srv_read_def split: prod.splits)
qed

lemma srv_read_flowing:
  assumes "flowing k" "srv_read (armRead s k) = (x, k')"
  shows "flowing k'" "ReadTimeout s > 0 \<Longrightarrow> x \<noteq> Hang"
proof -
  show "flowing k'"
    using srv_read_keeps(2) [OF assms(2)] assms(1)
    by (simp add: flowing_def armRead_def sock_SetReadDeadline_def)
  assume "ReadTimeout s > 0"
  then have "sock_final (armRead s k) \<noteq> Hang"
    using sock_final_deadline [of "armRead s k"]
    by (cases "sclosed k") (auto simp: armRead_def sock_SetReadDeadline_def sock_final_def)
  moreover obtain n where "Packet_ReadFrom sock_read (armRead s k) = ((n, x), k')"
    using assms(2) by (auto simp: srv_read_def split: prod.splits)
  ultimately show "x \<noteq> Hang"
    using sockr.ReadFrom_parse parse_frame_hang sockr.final_stops by blast
qed

text \<open>The packets a script can still hold, each of at least 14 bytes, and the time that
  serving them can take: for each a read and a handler, and one more read.\<close>

definition packets_left :: "sock \<Rightarrow> nat" where
  "packets_left k = sock_left k div (4 + MinPacketSize)"

definition serve_time :: "'h Server \<Rightarrow> nat \<Rightarrow> nat \<Rightarrow> duration" where
  "serve_time s took n = int n * (ReadTimeout s + int took) + ReadTimeout s"

lemma packets_left_read:
  assumes "srv_read (armRead s k) = (Ok p, k1)" "sock_left k' = sock_left k1"
  shows "Suc (packets_left k') \<le> packets_left k"
proof -
  have "4 + MinPacketSize + sock_left k' \<le> sock_left k"
    using srv_read_least [OF assms(1)] assms(2) by simp
  then have "(4 + MinPacketSize + sock_left k') div (4 + MinPacketSize) \<le> packets_left k"
    unfolding packets_left_def by (rule div_le_mono)
  then show ?thesis by (simp add: packets_left_def MinPacketSize_def HeaderSize_def PaddingSize_def)
qed

lemma serve_step_flowing:
  assumes "flowing k" "answers took s" "ReadTimeout s > 0" "serve_step s cx addr (k, h) = (x, k', h')"
  shows "flowing k'" "x \<noteq> Some Hang"
    "clock k' \<le> clock k + ReadTimeout s + int took"
    "clock k' \<le> clock k + ReadTimeout s \<or> Suc (packets_left k') \<le> packets_left k"
    "x = None \<Longrightarrow> Suc (packets_left k') \<le> packets_left k"
proof -
  obtain y k1 where r: "srv_read (armRead s k) = (y, k1)" by fastforce
  note k1 = srv_read_flowing [OF assms(1) r] and c1 = srv_read_clock [OF r assms(3)]
  have "flowing k' \<and> x \<noteq> Some Hang \<and> clock k' \<le> clock k1 + int took \<and> sock_left k' = sock_left k1" if "y = Ok p" for p
    using assms(4) r that k1(1) dispatch_flowing [OF k1(1) assms(2)] srv_write_flowing [OF k1(1)]
      dispatch_left srv_write_left
    by (auto simp: serve_step_def split: res.splits prod.splits if_splits) fastforce+
  moreover have "flowing k' \<and> x = Some (Ok ()) \<and> clock k' = clock k1" if "y = Err e" for e
    using assms(4) r that k1(1) by (simp add: serve_step_def)
  ultimately show "flowing k'" "x \<noteq> Some Hang"
    "clock k' \<le> clock k + ReadTimeout s + int took"
    "clock k' \<le> clock k + ReadTimeout s \<or> Suc (packets_left k') \<le> packets_left k"
    "x = None \<Longrightarrow> Suc (packets_left k') \<le> packets_left k"
    using c1 k1(2) [OF assms(3)] packets_left_read [of s k _ k1 k'] r by (cases y; fastforce)+
qed

lemma serve_time_mono: "n \<le> m \<Longrightarrow> ReadTimeout s > 0 \<Longrightarrow> serve_time s took n \<le> serve_time s took m"
  by (simp add: serve_time_def mult_right_mono)

lemma serve_time_least: "ReadTimeout s > 0 \<Longrightarrow> ReadTimeout s \<le> serve_time s took n"
  by (simp add: serve_time_def)

lemma serve_time_Suc:
  "serve_time s took (Suc n) = ReadTimeout s + int took + serve_time s took n"
  by (simp add: serve_time_def algebra_simps)

lemma serve_loop_flowing:
  assumes "answers took s" "ReadTimeout s > 0"
  shows "flowing (fst st) \<Longrightarrow> fst (serve_loop s cx addr st) \<noteq> Hang
    \<and> clock (fst (snd (serve_loop s cx addr st))) \<le> clock (fst st) + serve_time s took (packets_left (fst st))"
proof (induction st rule: serve_loop_rule [of s cx addr])
  case (1 st)
  obtain k h where st: "st = (k, h)" by fastforce
  obtain x k' h' where x: "serve_step s cx addr (k, h) = (x, k', h')" by (rule prod_cases3)
  have fl: "flowing k" using "1.prems" st by simp
  note step = serve_step_flowing [OF fl assms x]
  have t: "ReadTimeout s + int took + serve_time s took (packets_left k') \<le> serve_time s took (packets_left k)"
    if "Suc (packets_left k') \<le> packets_left k"
    using serve_time_mono [OF that assms(2), of took] by (simp add: serve_time_Suc)
  note pos = serve_time_least [OF assms(2), of took]
  show ?case
  proof (cases x)
    case None
    then have "fst (serve_loop s cx addr (k', h')) \<noteq> Hang
        \<and> clock (fst (snd (serve_loop s cx addr (k', h')))) \<le> clock k' + serve_time s took (packets_left k')"
      using "1.IH" [of "(k', h')"] st x step(1) by simp
    with None st x step(3,5) t show ?thesis by (subst (1 2) serve_loop_step) auto
  next
    case (Some r)
    have "clock k' \<le> clock k + serve_time s took (packets_left k)"
      using step(3,4) t pos [of "packets_left k"] pos [of "packets_left k'"] assms(2) by fastforce
    with Some st x step(2) show ?thesis by (subst (1 2) serve_loop_step) simp
  qed
qed

lemma srv_authenticate_flowing:
  assumes "flowing k" "ReadTimeout s > 0" "srv_authenticate s (armRead s k) = (x, k')"
  shows "x \<noteq> Hang" "flowing k'" "clock k' \<le> clock k + ReadTimeout s"
    "x = Ok b \<Longrightarrow> Suc (packets_left k') \<le> packets_left k"
proof -
  obtain y k1 where r: "srv_read (armRead s k) = (y, k1)" by fastforce
  note k1 = srv_read_flowing(1) [OF assms(1) r] srv_read_flowing(2) [OF assms(1) r assms(2)]
  have ok: "x \<noteq> Hang \<and> flowing k' \<and> clock k' = clock k1 \<and> sock_left k' = sock_left k1" if "y = Ok p" for p
  proof -
    obtain z k2 where w: "srv_write \<lparr>ID = ID p, Type = TypeResponseValue, Body = []\<rparr> k1 = (z, k2)" by fastforce
    note k2 = srv_write_flowing [OF k1(1) w] srv_write_left [OF w]
    obtain z2 k3 where w2: "srv_write \<lparr>ID = (if checkPassword s (Body p) then ID p else -1),
        Type = TypeAuthResponse, Body = []\<rparr> k2 = (z2, k3)" by fastforce
    note k3 = srv_write_flowing [OF k2(2) w2] srv_write_left [OF w2]
    show ?thesis
      using assms(3) r that k1 k2 k3 w w2
      by (cases z; cases z2) (auto simp: srv_authenticate_def Let_def split: if_splits)
  qed
  have err: "(\<exists>e. x = Err e) \<and> flowing k' \<and> clock k' = clock k1" if "y = Err e" for e
    using assms(3) r that k1(1) by (auto simp: srv_authenticate_def)
  show "x \<noteq> Hang" "flowing k'" "clock k' \<le> clock k + ReadTimeout s"
    "x = Ok b \<Longrightarrow> Suc (packets_left k') \<le> packets_left k"
    using ok err k1(2) srv_read_clock [OF r assms(2)] packets_left_read [of s k _ k1 k'] r
    by (cases y; fastforce)+
qed

text \<open>C33: with a read timeout set, handlers that return or panic within a given time, and writes
  that do not block, serving a client that sends finitely many bytes, at whatever times and
  however it ends or falls silent, returns and closes the connection, and takes at most the
  read timeout and the handlers' time for every packet those bytes can hold, and one timeout
  more. A client that never stops sending is served as long as it sends.\<close>

theorem serveConn_returns:
  assumes "ReadTimeout s > 0" "answers took s" "flowing k" "serveConn s cx addr (k, h) = (x, k', h')"
  shows "x = Ok () \<and> sclosed k' \<and>
    clock k' \<le> clock k + int (sock_left k div 14) * (ReadTimeout s + int took) + ReadTimeout s"
proof -
  obtain y k1 where a: "srv_authenticate s (armRead s k) = (y, k1)" by fastforce
  note auth = srv_authenticate_flowing [OF assms(3,1) a]
  obtain z k2 h2 where l: "serve_loop s cx addr (k1, h) = (z, k2, h2)" by (rule prod_cases3)
  have loop: "z \<noteq> Hang" "clock k2 \<le> clock k1 + serve_time s took (packets_left k1)"
    using serve_loop_flowing [OF assms(2,1), of "(k1, h)" cx addr] auth(2) l by auto
  have clk: "clock (snd (sock_Close j)) = clock j" for j by (simp add: sock_Close_def)
  have "x \<noteq> Hang"
    using assms(4) a l auth(1) loop(1) by (auto simp: serveConn_def split: res.splits bool.splits)
  moreover have "clock k' \<le> clock k + serve_time s took (packets_left k)"
  proof (cases "y = Ok True")
    case True
    have "clock k' = clock k2"
      using assms(4) a l loop(1) True clk by (auto simp: serveConn_def split: res.splits)
    with loop(2) auth(3) serve_time_mono [OF auth(4) [OF True] assms(1), of took] show ?thesis
      by (simp add: serve_time_Suc)
  next
    case False
    then have "clock k' = clock k1"
      using assms(4) a clk by (auto simp: serveConn_def split: res.splits bool.splits)
    with auth(3) serve_time_least [OF assms(1), of took "packets_left k"] show ?thesis by simp
  qed
  ultimately show ?thesis
    using serveConn_closes [OF assms(4)] by (simp add: serve_time_def packets_left_def MinPacketSize_def HeaderSize_def PaddingSize_def)
qed

theorem serveConn_returns_witness:
  "sclosed (fst (snd (serveConn (echo_server 5) context_Background ''peer''
     (fresh_sock [(3, RxData (frames [login ''pw'', exec 2 ''hi'', exec 3 ''boom'']))], 0 :: nat))))
   \<and> clock (fst (snd (serveConn (echo_server 5) context_Background ''peer''
     (fresh_sock [(3, RxData (frames [login ''pw'', exec 2 ''hi'', exec 3 ''boom'']))], 0 :: nat)))) \<le> 23"
proof -
  let ?k = "fresh_sock [(3, RxData (frames [login ''pw'', exec 2 ''hi'', exec 3 ''boom'']))]"
  have "ReadTimeout (echo_server 5) = 5" "flowing ?k" "clock ?k = 0" "sock_left ?k div 14 = 3" by code_simp+
  moreover have "answers 1 (echo_server 5)" by (simp add: answers_def echo_server_def echo_handler_def)
  moreover obtain x k' h' where r: "serveConn (echo_server 5) context_Background ''peer'' (?k, 0 :: nat) = (x, k', h')"
    by (rule prod_cases3)
  ultimately show ?thesis using serveConn_returns [of "echo_server 5" 1 ?k, OF _ _ _ r] r by simp
qed

end
