(* ===== verification/Rcon_Fake.thy ===== *)
theory Rcon_Fake
  imports Rcon_Serve
begin

text \<open>
  The scripted server the repository tests against: \<^verbatim>\<open>src/internal/fakercon/server.go\<close>, a
  handler for the server of \<^verbatim>\<open>rconserver\<close>. Its fields, which its mutex guards, are the
  handler's state; a critical section is a step of that state. Its \<^verbatim>\<open>Close\<close> is the
  server's.
\<close>

record fake =
  fk_replies :: "bytes \<rightharpoonup> bytes"
  fk_longCmds :: "bytes \<rightharpoonup> int"
  fk_dropOnce :: bool

text \<open>\<^verbatim>\<open>Handle\<close>, \<^verbatim>\<open>HandleLong\<close> and \<^verbatim>\<open>DropNext\<close>.\<close>

definition fake_Handle :: "bytes \<Rightarrow> bytes \<Rightarrow> fake \<Rightarrow> fake" where
  "fake_Handle cmd rep f = f\<lparr>fk_replies := (fk_replies f)(cmd \<mapsto> rep)\<rparr>"

definition fake_HandleLong :: "bytes \<Rightarrow> int \<Rightarrow> fake \<Rightarrow> fake" where
  "fake_HandleLong cmd totalLen f = f\<lparr>fk_longCmds := (fk_longCmds f)(cmd \<mapsto> totalLen)\<rparr>"

definition fake_DropNext :: "fake \<Rightarrow> fake" where
  "fake_DropNext f = f\<lparr>fk_dropOnce := True\<rparr>"

text \<open>The handler. \<^verbatim>\<open>strings.Repeat\<close> panics on a negative count.\<close>

definition fake_ServeRCON :: "fake handler" where
  "fake_ServeRCON r f =
     (if fk_dropOnce f then \<lparr>hr_acts = [], hr_end = HPanic, hr_took = 0, hr_state = f\<lparr>fk_dropOnce := False\<rparr>\<rparr>
      else (case fk_longCmds f (Command r) of
          Some longLen \<Rightarrow>
            if longLen < 0 then \<lparr>hr_acts = [], hr_end = HPanic, hr_took = 0, hr_state = f\<rparr>
            else \<lparr>hr_acts = [HWriteString (replicate (nat longLen) CHR ''A'')], hr_end = HReturn, hr_took = 0, hr_state = f\<rparr>
        | None \<Rightarrow>
            (case fk_replies f (Command r) of
               Some rep \<Rightarrow> \<lparr>hr_acts = [HWriteString rep], hr_end = HReturn, hr_took = 0, hr_state = f\<rparr>
             | None \<Rightarrow> \<lparr>hr_acts = [], hr_end = HReturn, hr_took = 0, hr_state = f\<rparr>)))"

text \<open>\<^verbatim>\<open>Start\<close>: no replies, and a server with that password and handler.\<close>

definition fake_new :: fake where
  "fake_new = \<lparr>fk_replies = Map.empty, fk_longCmds = Map.empty, fk_dropOnce = False\<rparr>"

definition fake_server :: "bytes \<Rightarrow> fake Server" where
  "fake_server password =
     \<lparr>Addr = [], Handler = Some fake_ServeRCON, Password = password, Authenticator = None, ReadTimeout = 0\<rparr>"

definition fake_Start :: "bytes \<Rightarrow> fake Server \<times> fake" where
  "fake_Start password = (fake_server password, fake_new)"

subsection \<open>What it answers\<close>

text \<open>The answer configured for a command: the long one first, and nothing for a command unknown.\<close>

definition configured :: "fake \<Rightarrow> bytes \<Rightarrow> bytes" where
  "configured f cmd =
     (case fk_longCmds f cmd of
        Some n \<Rightarrow> replicate (nat n) CHR ''A''
      | None \<Rightarrow> (case fk_replies f cmd of Some rep \<Rightarrow> rep | None \<Rightarrow> []))"

definition sound_lengths :: "fake \<Rightarrow> bool" where
  "sound_lengths f \<longleftrightarrow> (\<forall>cmd n. fk_longCmds f cmd = Some n \<longrightarrow> 0 \<le> n)"

lemma configured_drop [simp]: "configured (f\<lparr>fk_dropOnce := b\<rparr>) cmd = configured f cmd"
  by (simp add: configured_def split: option.split)

lemma fake_answer:
  assumes "sound_lengths f"
  shows "answer (fake_server pw) r f =
    (if fk_dropOnce f then None else Some (configured f (Command r)), f\<lparr>fk_dropOnce := False\<rparr>)"
proof (cases "fk_dropOnce f")
  case True
  then show ?thesis by (simp add: answer_def fake_server_def fake_ServeRCON_def)
next
  case False
  then have "f\<lparr>fk_dropOnce := False\<rparr> = f" by (cases f) simp
  moreover have "\<not> n < 0" if "fk_longCmds f (Command r) = Some n" for n
    using assms that by (auto simp: sound_lengths_def not_less)
  ultimately show ?thesis
    using False by (auto simp: answer_def fake_server_def fake_ServeRCON_def configured_def split: option.splits)
qed

lemma fake_checkPassword: "checkPassword (fake_server pw) password \<longleftrightarrow> password = pw"
  by (simp add: checkPassword_def fake_server_def ConstantTimeCompare_eq)

text \<open>A connection that logs in and sends one command with its terminator.\<close>

lemma fake_session:
  assumes "sound_lengths f" "Type lp = TypeAuth" "Body lp = pw"
  shows "session_spec (fake_server pw) cx addr [lp, exec i cmd, reply j []] f =
    (login_replies (fake_server pw) lp @
       (if fk_dropOnce f then [] else response_packets i (configured f cmd) @ [reply j []]),
     f\<lparr>fk_dropOnce := False\<rparr>)"
  using assms fake_answer [OF assms(1), of pw]
  by (simp add: session_spec_def fake_checkPassword exec_def reply_def packet_types)

text \<open>C29: with \<^verbatim>\<open>DropNext\<close> the next command gets no reply, only its connection's end; and the same
  command on a new connection is answered, framed, with the bytes configured for it, whatever
  their length. Served by the real server, the double behaves as its comments say.\<close>

theorem fake_drop_once:
  assumes "sound_lengths f" "Type lp = TypeAuth" "Body lp = pw" "length pw \<le> MaxPayloadSize" "length cmd \<le> MaxPayloadSize"
    "srv_open k" "timely (fake_server pw) k" "rx_pending None (inbound k) = frames [lp, exec i cmd, reply j []]"
    "serveConn (fake_server pw) cx addr (k, fake_DropNext f) = (x, k', f')"
    "srv_open l" "timely (fake_server pw) l" "rx_pending None (inbound l) = frames [lp, exec i cmd, reply j []]"
    "serveConn (fake_server pw) cx addr (l, f') = (y, l', f'')"
  shows "outbound k' = outbound k @ frames (login_replies (fake_server pw) lp)
    \<and> outbound l' = outbound l @ frames (login_replies (fake_server pw) lp @ response_packets i (configured f cmd) @ [reply j []])
    \<and> f'' = f\<lparr>fk_dropOnce := False\<rparr>"
proof -
  have fit: "\<forall>p \<in> set [lp, exec i cmd, reply j []]. fits p"
    using assms(3-5) by (simp add: fits_def exec_def reply_def)
  have f: "sound_lengths (fake_DropNext f)" "fk_dropOnce (fake_DropNext f)" "(fake_DropNext f)\<lparr>fk_dropOnce := False\<rparr> = f\<lparr>fk_dropOnce := False\<rparr>"
    using assms(1) by (simp_all add: fake_DropNext_def sound_lengths_def)
  have 1: "outbound k' = outbound k @ frames (login_replies (fake_server pw) lp)" "f' = f\<lparr>fk_dropOnce := False\<rparr>"
    using serveConn_session [OF assms(6-8) fit assms(9)] fake_session [OF f(1) assms(2,3)] f(2,3) by simp_all
  have "sound_lengths f'" "\<not> fk_dropOnce f'" "configured f' cmd = configured f cmd" "f'\<lparr>fk_dropOnce := False\<rparr> = f'"
    using assms(1) by (simp_all add: 1(2) sound_lengths_def)
  with serveConn_session [OF assms(10-12) fit assms(13)] fake_session [of f' lp pw] assms(2,3) 1 show ?thesis by simp
qed

definition scripted :: fake where
  "scripted = fake_HandleLong ''dump'' 5 (fake_Handle ''ping'' ''pong'' fake_new)"

theorem fake_drop_once_witness:
  "outbound (fst (snd (serveConn (fake_server ''pw'') context_Background ''peer''
     (fresh_sock [(3, RxData (frames [login ''pw'', exec 2 ''dump'', reply 3 []]))],
      snd (snd (serveConn (fake_server ''pw'') context_Background ''peer''
        (fresh_sock [(3, RxData (frames [login ''pw'', exec 2 ''dump'', reply 3 []]))], fake_DropNext scripted))))))) =
   frames (login_replies (fake_server ''pw'') (login ''pw'') @ response_packets 2 ''AAAAA'' @ [reply 3 []])"
proof -
  let ?s = "fake_server ''pw''" and ?k = "fresh_sock [(3, RxData (frames [login ''pw'', exec 2 ''dump'', reply 3 []]))]"
  have f: "sound_lengths scripted"
    by (simp add: scripted_def sound_lengths_def fake_HandleLong_def fake_Handle_def fake_new_def)
  have h: "Type (login ''pw'') = TypeAuth" "Body (login ''pw'') = ''pw''" "length ''pw'' \<le> MaxPayloadSize" "length ''dump'' \<le> MaxPayloadSize"
    and k: "srv_open ?k" "timely ?s ?k" "rx_pending None (inbound ?k) = frames [login ''pw'', exec 2 ''dump'', reply 3 []]"
    by code_simp+
  obtain x k' f' where r: "serveConn ?s context_Background ''peer'' (?k, fake_DropNext scripted) = (x, k', f')" by (rule prod_cases3)
  obtain y l' f'' where r2: "serveConn ?s context_Background ''peer'' (?k, f') = (y, l', f'')" by (rule prod_cases3)
  have c: "configured scripted ''dump'' = ''AAAAA''" "outbound ?k = []" by code_simp+
  from fake_drop_once [OF f h k r k r2] show ?thesis by (simp only: r r2 c fst_conv snd_conv append_Nil)
qed

end
