(* ===== verification/Event_System.thy ===== *)
theory Event_System
  imports Rcon_Prelude
begin

text \<open>
  Systems of goroutines that interleave: a deterministic step per event, defined only if the
  event is enabled, and the states some sequence of events leads to. The locale is the
  interface; each concurrent component of the program interprets it with its own step
  function, reachability and run function, and takes its invariants from it.
\<close>

locale event_system =
  fixes init :: 's
    and step :: "'e \<Rightarrow> 's \<Rightarrow> 's option"
    and reach :: "'s \<Rightarrow> bool"
    and run :: "'e list \<Rightarrow> 's \<Rightarrow> 's option"
  assumes reach_init: "reach init"
    and reach_step: "reach s \<Longrightarrow> step e s = Some s' \<Longrightarrow> reach s'"
    and reach_least: "reach s \<Longrightarrow> P init \<Longrightarrow>
      (\<And>s e s'. reach s \<Longrightarrow> P s \<Longrightarrow> step e s = Some s' \<Longrightarrow> P s') \<Longrightarrow> P s"
    and run_Nil: "run [] s = Some s"
    and run_Cons: "run (e # es) s = (case step e s of None \<Rightarrow> None | Some s' \<Rightarrow> run es s')"
begin

lemma run_reach: "reach s \<Longrightarrow> run es s = Some s' \<Longrightarrow> reach s'"
  by (induction es arbitrary: s) (auto simp: run_Nil run_Cons split: option.splits intro: reach_step)

lemma run_init_reach: "run es init \<noteq> None \<Longrightarrow> reach (the (run es init))"
  using run_reach [OF reach_init] by auto

lemma run_append: "run (es @ fs) s = (case run es s of None \<Rightarrow> None | Some s' \<Rightarrow> run fs s')"
  by (induction es arbitrary: s) (auto simp: run_Nil run_Cons split: option.splits)

text \<open>An invariant: true at first and kept by every step.\<close>

lemma invariant:
  assumes "I init" "\<And>s e s'. I s \<Longrightarrow> step e s = Some s' \<Longrightarrow> I s'" "reach s"
  shows "I s"
  using assms(3) assms(1) by (rule reach_least) (rule assms(2))

text \<open>The reachable states are the ends of the runs.\<close>

lemma reach_iff_run: "reach s \<longleftrightarrow> (\<exists>es. run es init = Some s)"
proof
  assume "reach s"
  then show "\<exists>es. run es init = Some s"
  proof (rule reach_least)
    fix s e s'
    assume "\<exists>es. run es init = Some s" "step e s = Some s'"
    then obtain es where "run es init = Some s" by blast
    with \<open>step e s = Some s'\<close> have "run (es @ [e]) init = Some s'"
      by (simp add: run_append run_Cons run_Nil)
    then show "\<exists>es. run es init = Some s'" ..
  qed (auto intro: exI [of _ "[]"] simp: run_Nil)
qed (auto intro: run_reach [OF reach_init])

text \<open>Runs by their last step, for properties of a state and of the events that led to it.\<close>

lemma run_snocE:
  assumes "run (es @ [e]) s = Some s'"
  obtains u where "run es s = Some u" "step e u = Some s'"
  using assms by (auto simp: run_append run_Cons run_Nil split: option.splits)

lemma run_history [consumes 1, case_names init move]:
  assumes "run es init = Some s" "P [] init"
    and "\<And>es s e s'. run es init = Some s \<Longrightarrow> P es s \<Longrightarrow> step e s = Some s' \<Longrightarrow> P (es @ [e]) s'"
  shows "P es s"
  using assms(1)
proof (induction es arbitrary: s rule: rev_induct)
  case (snoc e es)
  from snoc.prems obtain u where "run es init = Some u" "step e u = Some s" by (rule run_snocE)
  with snoc.IH assms(3) show ?case by blast
qed (use assms(2) in \<open>simp add: run_Nil\<close>)

text \<open>What no step takes away, once true, stays true along a run.\<close>

lemma run_keeps:
  assumes "\<And>s e s'. I s \<Longrightarrow> step e s = Some s' \<Longrightarrow> I s'"
  shows "I s \<Longrightarrow> run es s = Some s' \<Longrightarrow> I s'"
proof (induction es arbitrary: s)
  case (Cons e es)
  then show ?case using assms by (auto simp: run_Cons split: option.splits)
qed (simp add: run_Nil)

end

end
