(* ===== verification/Rcon_Lifecycle.thy ===== *)
theory Rcon_Lifecycle
  imports Rcon_Server Event_System
begin

text \<open>
  The lifecycle of a server, \<^verbatim>\<open>Serve\<close>, \<^verbatim>\<open>Close\<close>, \<^verbatim>\<open>Shutdown\<close> and the
  tracking of connections and listeners in \<^verbatim>\<open>src/rconserver/server.go\<close>, as a system
  of goroutines that interleave. Each goroutine has a program counter; a critical section
  under the server's mutex is one step, and so is each access outside it. An event names the
  goroutine that moves and what the environment decides, such as an accepted connection.
\<close>

subsection \<open>State\<close>

definition ErrServerClosed :: goerr where
  "ErrServerClosed = ErrorString ''rconserver: server closed''"

text \<open>Where a \<^verbatim>\<open>Serve\<close> call stands: before \<^verbatim>\<open>trackListener\<close>, in
  \<^verbatim>\<open>Accept\<close>, holding a connection it accepted, in its deferred calls with the error it
  returns, or returned.\<close>

datatype serve_pc =
    SvTrack
  | SvAccept
  | SvConn nat
  | SvUntrack goerr
  | SvCloseLn goerr
  | SvDone goerr

text \<open>A connection's goroutine: between handlers, in a handler, or about to untrack its
  closed connection.\<close>

datatype worker_pc = WkServe | WkHandler | WkUntrack

text \<open>A call of \<^verbatim>\<open>Close\<close> or \<^verbatim>\<open>Shutdown\<close>: waiting, \<^verbatim>\<open>Shutdown\<close> records
  whether the helper goroutine has seen the handlers' wait group at zero; a finished call has
  its error, if any.\<close>

datatype stop_pc =
    ClStore
  | ClSweep
  | ShStore
  | ShListeners
  | ShCancel
  | ShWait bool
  | ShSweep "goerr option"
  | StDone "goerr option"

record lifecycle =
  inShutdown :: bool
  conns :: "nat set"
  listeners :: "nat set"
  cancelled :: "bool option"
  handlerWG :: nat
  open_conns :: "nat set"
  open_lns :: "nat set"
  accepted :: nat
  serves :: "nat \<rightharpoonup> serve_pc"
  workers :: "nat \<rightharpoonup> worker_pc"
  stops :: "nat \<rightharpoonup> stop_pc"

definition new_server :: lifecycle where
  "new_server = \<lparr>inShutdown = False, conns = {}, listeners = {}, cancelled = None, handlerWG = 0,
     open_conns = {}, open_lns = {}, accepted = 0, serves = Map.empty, workers = Map.empty,
     stops = Map.empty\<rparr>"

subsection \<open>Critical sections\<close>

definition trackConn :: "nat \<Rightarrow> bool \<Rightarrow> lifecycle \<Rightarrow> bool \<times> lifecycle" where
  "trackConn c add s =
     (if add then
        (if inShutdown s then (False, s) else (True, s\<lparr>conns := insert c (conns s)\<rparr>))
      else (True, s\<lparr>conns := conns s - {c}\<rparr>))"

definition trackListener :: "nat \<Rightarrow> bool \<Rightarrow> lifecycle \<Rightarrow> bool \<times> lifecycle" where
  "trackListener l add s =
     (if add then
        (if inShutdown s then (False, s) else (True, s\<lparr>listeners := insert l (listeners s)\<rparr>))
      else (True, s\<lparr>listeners := listeners s - {l}\<rparr>))"

definition close_conn :: "nat \<Rightarrow> lifecycle \<Rightarrow> lifecycle" where
  "close_conn c s = s\<lparr>open_conns := open_conns s - {c}\<rparr>"

definition close_ln :: "nat \<Rightarrow> lifecycle \<Rightarrow> lifecycle" where
  "close_ln l s = s\<lparr>open_lns := open_lns s - {l}\<rparr>"

text \<open>The first section of \<^verbatim>\<open>Serve\<close>: make the maps and the context, once.\<close>

definition serve_init :: "lifecycle \<Rightarrow> lifecycle" where
  "serve_init s = (if cancelled s = None then s\<lparr>cancelled := Some False\<rparr> else s)"

text \<open>\<^verbatim>\<open>cancel\<close>, if there is one.\<close>

definition do_cancel :: "lifecycle \<Rightarrow> lifecycle" where
  "do_cancel s = (if cancelled s = None then s else s\<lparr>cancelled := Some True\<rparr>)"

definition close_listeners :: "lifecycle \<Rightarrow> lifecycle" where
  "close_listeners s = s\<lparr>open_lns := open_lns s - listeners s\<rparr>"

definition close_conns :: "lifecycle \<Rightarrow> lifecycle" where
  "close_conns s = s\<lparr>open_conns := open_conns s - conns s\<rparr>"

text \<open>The error of \<^verbatim>\<open>Close\<close>: some tracked listener was closed before.\<close>

definition close_err :: "lifecycle \<Rightarrow> goerr option" where
  "close_err s = (if listeners s \<subseteq> open_lns s then None else Some (NetError UseOfClosed))"

subsection \<open>Steps\<close>

datatype event =
    Listen nat
  | CallServe nat
  | CallListenAndServe nat "goerr option"
  | ServeTurn nat
  | AcceptConn nat
  | AcceptFail nat goerr
  | HandlerBegin nat
  | HandlerEnd nat
  | ConnEnd nat
  | WorkerUntrack nat
  | CallClose nat
  | CallShutdown nat
  | StopTurn nat
  | WaitZero nat
  | WaitDone nat
  | WaitTimeout nat goerr

definition serve_to :: "nat \<Rightarrow> serve_pc \<Rightarrow> lifecycle \<Rightarrow> lifecycle" where
  "serve_to l pc s = s\<lparr>serves := (serves s)(l \<mapsto> pc)\<rparr>"

definition stop_to :: "nat \<Rightarrow> stop_pc \<Rightarrow> lifecycle \<Rightarrow> lifecycle" where
  "stop_to t pc s = s\<lparr>stops := (stops s)(t \<mapsto> pc)\<rparr>"

definition worker_to :: "nat \<Rightarrow> worker_pc option \<Rightarrow> lifecycle \<Rightarrow> lifecycle" where
  "worker_to c pc s = s\<lparr>workers := (workers s)(c := pc)\<rparr>"

text \<open>The call of \<^verbatim>\<open>Serve\<close> up to \<^verbatim>\<open>trackListener\<close>. A server that does not validate
  returns at once and leaves the listener to the caller.\<close>

definition serve_call :: "'h Server \<Rightarrow> nat \<Rightarrow> lifecycle \<Rightarrow> lifecycle" where
  "serve_call srv l s =
     (case validate srv of
        Err e \<Rightarrow> serve_to l (SvDone e) s
      | _ \<Rightarrow> serve_to l SvTrack (serve_init s))"

text \<open>\<^verbatim>\<open>ListenAndServe\<close>: validate, listen, which may fail, and serve. The package's
  function of that name does so for a server with a password and no timeout.\<close>

definition listen_and_serve :: "'h Server \<Rightarrow> nat \<Rightarrow> goerr option \<Rightarrow> lifecycle \<Rightarrow> lifecycle" where
  "listen_and_serve srv l listenErr s =
     (case validate srv of
        Err e \<Rightarrow> serve_to l (SvDone e) s
      | _ \<Rightarrow>
          (case listenErr of
             Some e \<Rightarrow> serve_to l (SvDone e) s
           | None \<Rightarrow> serve_call srv l (s\<lparr>open_lns := insert l (open_lns s)\<rparr>)))"

definition ListenAndServe_server :: "bytes \<Rightarrow> bytes \<Rightarrow> 'h handler \<Rightarrow> 'h Server" where
  "ListenAndServe_server addr password h =
     \<lparr>Addr = addr, Handler = Some h, Password = password, Authenticator = None, ReadTimeout = 0\<rparr>"

text \<open>The steps of a \<^verbatim>\<open>Serve\<close> call that the environment has no part in.\<close>

definition serve_turn :: "nat \<Rightarrow> lifecycle \<Rightarrow> lifecycle option" where
  "serve_turn l s =
     (case serves s l of
        Some SvTrack \<Rightarrow>
          (case trackListener l True s of
             (True, s) \<Rightarrow> Some (serve_to l SvAccept s)
           | (False, s) \<Rightarrow> Some (serve_to l (SvCloseLn ErrServerClosed) (close_ln l s)))
      | Some (SvConn c) \<Rightarrow>
          (case trackConn c True s of
             (True, s) \<Rightarrow> Some (serve_to l SvAccept (worker_to c (Some WkServe) s))
           | (False, s) \<Rightarrow> Some (serve_to l (SvUntrack ErrServerClosed) (close_conn c s)))
      | Some (SvUntrack e) \<Rightarrow> Some (serve_to l (SvCloseLn e) (snd (trackListener l False s)))
      | Some (SvCloseLn e) \<Rightarrow> Some (serve_to l (SvDone e) (close_ln l s))
      | _ \<Rightarrow> None)"

text \<open>The return of \<^verbatim>\<open>Accept\<close>.\<close>

definition accept_conn :: "nat \<Rightarrow> lifecycle \<Rightarrow> lifecycle option" where
  "accept_conn l s =
     (if serves s l = Some SvAccept \<and> l \<in> open_lns s then
        Some (serve_to l (SvConn (accepted s))
          (s\<lparr>open_conns := insert (accepted s) (open_conns s), accepted := accepted s + 1\<rparr>))
      else None)"

definition accept_fail :: "nat \<Rightarrow> goerr \<Rightarrow> lifecycle \<Rightarrow> lifecycle option" where
  "accept_fail l err s =
     (if serves s l = Some SvAccept then
        Some (serve_to l (SvUntrack (if inShutdown s then ErrServerClosed else err)) s)
      else None)"

text \<open>\<^verbatim>\<open>Close\<close> and \<^verbatim>\<open>Shutdown\<close>.\<close>

definition stop_turn :: "nat \<Rightarrow> lifecycle \<Rightarrow> lifecycle option" where
  "stop_turn t s =
     (case stops s t of
        Some ClStore \<Rightarrow> Some (stop_to t ClSweep (s\<lparr>inShutdown := True\<rparr>))
      | Some ClSweep \<Rightarrow>
          Some (stop_to t (StDone (close_err s)) (close_conns (close_listeners (do_cancel s))))
      | Some ShStore \<Rightarrow> Some (stop_to t ShListeners (s\<lparr>inShutdown := True\<rparr>))
      | Some ShListeners \<Rightarrow> Some (stop_to t ShCancel (close_listeners s))
      | Some ShCancel \<Rightarrow> Some (stop_to t (ShWait False) (do_cancel s))
      | Some (ShSweep err) \<Rightarrow> Some (stop_to t (StDone err) (close_conns s))
      | _ \<Rightarrow> None)"

fun step :: "'h Server \<Rightarrow> event \<Rightarrow> lifecycle \<Rightarrow> lifecycle option" where
  "step srv (Listen l) s =
     (if serves s l = None \<and> l \<notin> open_lns s then Some (s\<lparr>open_lns := insert l (open_lns s)\<rparr>) else None)"
| "step srv (CallServe l) s =
     (if serves s l = None \<and> l \<in> open_lns s then Some (serve_call srv l s) else None)"
| "step srv (CallListenAndServe l err) s =
     (if serves s l = None \<and> l \<notin> open_lns s then Some (listen_and_serve srv l err s) else None)"
| "step srv (ServeTurn l) s = serve_turn l s"
| "step srv (AcceptConn l) s = accept_conn l s"
| "step srv (AcceptFail l err) s = accept_fail l err s"
| "step srv (HandlerBegin c) s =
     (if workers s c = Some WkServe then
        Some (worker_to c (Some WkHandler) (s\<lparr>handlerWG := handlerWG s + 1\<rparr>)) else None)"
| "step srv (HandlerEnd c) s =
     (if workers s c = Some WkHandler then
        Some (worker_to c (Some WkServe) (s\<lparr>handlerWG := handlerWG s - 1\<rparr>)) else None)"
| "step srv (ConnEnd c) s =
     (if workers s c = Some WkServe then Some (worker_to c (Some WkUntrack) (close_conn c s)) else None)"
| "step srv (WorkerUntrack c) s =
     (if workers s c = Some WkUntrack then Some (worker_to c None (snd (trackConn c False s))) else None)"
| "step srv (CallClose t) s = (if stops s t = None then Some (stop_to t ClStore s) else None)"
| "step srv (CallShutdown t) s = (if stops s t = None then Some (stop_to t ShStore s) else None)"
| "step srv (StopTurn t) s = stop_turn t s"
| "step srv (WaitZero t) s =
     (if stops s t = Some (ShWait False) \<and> handlerWG s = 0 then Some (stop_to t (ShWait True) s) else None)"
| "step srv (WaitDone t) s =
     (if stops s t = Some (ShWait True) then Some (stop_to t (ShSweep None) s) else None)"
| "step srv (WaitTimeout t err) s =
     (case stops s t of Some (ShWait _) \<Rightarrow> Some (stop_to t (ShSweep (Some err)) s) | _ \<Rightarrow> None)"

inductive reachable :: "'h Server \<Rightarrow> lifecycle \<Rightarrow> bool" for srv where
  init: "reachable srv new_server"
| move: "reachable srv s \<Longrightarrow> step srv e s = Some s' \<Longrightarrow> reachable srv s'"

text \<open>Running a given interleaving.\<close>

fun run_events :: "'h Server \<Rightarrow> event list \<Rightarrow> lifecycle \<Rightarrow> lifecycle option" where
  "run_events srv [] s = Some s"
| "run_events srv (e # es) s = (case step srv e s of None \<Rightarrow> None | Some s' \<Rightarrow> run_events srv es s')"

interpretation lf: event_system new_server "step srv" "reachable srv" "run_events srv"
proof
  show "P s" if "reachable srv s" "P new_server"
    "\<And>s e s'. reachable srv s \<Longrightarrow> P s \<Longrightarrow> step srv e s = Some s' \<Longrightarrow> P s'" for s P
    using that(1) by induction (use that(2,3) in auto)
qed (auto intro: reachable.intros)

subsection \<open>Invariants\<close>

lemmas step_defs = serve_call_def listen_and_serve_def serve_turn_def accept_conn_def accept_fail_def stop_turn_def
  trackConn_def trackListener_def close_conn_def close_ln_def serve_init_def do_cancel_def
  close_listeners_def close_conns_def serve_to_def stop_to_def worker_to_def

text \<open>A stop that has stored its flag.\<close>

fun flagged :: "stop_pc \<Rightarrow> bool" where
  "flagged ClStore = False"
| "flagged ShStore = False"
| "flagged _ = True"

definition flag_inv :: "lifecycle \<Rightarrow> bool" where
  "flag_inv s \<longleftrightarrow> (\<forall>t pc. stops s t = Some pc \<and> flagged pc \<longrightarrow> inShutdown s)"

text \<open>The connections that \<^verbatim>\<open>Serve\<close> calls have accepted and not yet tracked.\<close>

definition held :: "(nat \<rightharpoonup> serve_pc) \<Rightarrow> nat set" where
  "held m = {c. \<exists>l. m l = Some (SvConn c)}"

definition held_once :: "(nat \<rightharpoonup> serve_pc) \<Rightarrow> bool" where
  "held_once m \<longleftrightarrow> (\<forall>l l' c. m l = Some (SvConn c) \<longrightarrow> m l' = Some (SvConn c) \<longrightarrow> l = l')"

text \<open>Every open connection is tracked or held; the numbers in use lie below the next one;
  a held connection is not tracked, and held by one call; the tracked connections are those
  with a goroutine, and a goroutine about to untrack its connection has closed it.\<close>

definition conn_inv :: "lifecycle \<Rightarrow> bool" where
  "conn_inv s \<longleftrightarrow> open_conns s \<subseteq> conns s \<union> held (serves s)
     \<and> conns s \<union> held (serves s) \<subseteq> {..<accepted s}
     \<and> conns s \<inter> held (serves s) = {} \<and> held_once (serves s)
     \<and> (\<forall>c. workers s c = None \<longleftrightarrow> c \<notin> conns s)
     \<and> (\<forall>c. workers s c = Some WkUntrack \<longrightarrow> c \<notin> open_conns s)"

text \<open>After a sweep, no tracked connection is open.\<close>

definition swept_inv :: "lifecycle \<Rightarrow> bool" where
  "swept_inv s \<longleftrightarrow> ((\<exists>t err. stops s t = Some (StDone err)) \<longrightarrow> conns s \<inter> open_conns s = {})"

lemmas step_splits = if_splits option.splits serve_pc.splits stop_pc.splits res.splits

lemma flag_inv_step: "flag_inv s \<Longrightarrow> step srv e s = Some s' \<Longrightarrow> flag_inv s'"
  by (cases e) (auto simp: flag_inv_def step_defs split: step_splits, force+)

fun holds :: "serve_pc option \<Rightarrow> nat set" where
  "holds (Some (SvConn c)) = {c}"
| "holds _ = {}"

lemma holds_iff: "c \<in> holds pc \<longleftrightarrow> pc = Some (SvConn c)"
  by (cases pc rule: holds.cases) auto

lemma held_update:
  "held_once m \<Longrightarrow> held (m(l \<mapsto> pc)) = held m - holds (m l) \<union> holds (Some pc)"
  by (auto simp: held_def held_once_def holds_iff split: if_splits)

lemma held_once_update:
  assumes "held_once m" "holds (Some pc) \<inter> (held m - holds (m l)) = {}"
  shows "held_once (m(l \<mapsto> pc))"
proof -
  have "m l' \<noteq> Some (SvConn c)" if "pc = SvConn c" "l' \<noteq> l" for l' c
  proof
    assume l': "m l' = Some (SvConn c)"
    then have "c \<in> held m" by (auto simp: held_def)
    with assms(2) that(1) have "c \<in> holds (m l)" by auto
    with l' that(2) assms(1) show False by (simp add: holds_iff held_once_def)
  qed
  then show ?thesis
    using assms(1) unfolding held_once_def by (metis fun_upd_other fun_upd_same option.inject)
qed

text \<open>What a turn of a \<^verbatim>\<open>Serve\<close> call does to the connections: nothing, or it hands the
  connection it holds to a goroutine, or closes it.\<close>

lemma conn_inv_facts:
  assumes "conn_inv s"
  shows "workers s c = Some pc \<Longrightarrow> c \<in> conns s"
    "serves s l = Some (SvConn c) \<Longrightarrow> c \<in> held (serves s) \<and> c < accepted s"
    "accepted s \<notin> conns s" "accepted s \<notin> held (serves s)" "workers s (accepted s) \<noteq> Some pc"
    "conns s \<union> held (serves s) \<subseteq> {..<Suc (accepted s)}"
  using assms by (auto simp: conn_inv_def held_def subset_iff less_Suc_eq) (metis option.distinct(1) less_irrefl)+

lemma conn_inv_serve_turn:
  assumes "conn_inv s" "serve_turn l s = Some s'"
  shows "conn_inv s'"
  using assms conn_inv_facts(2) [OF assms(1), of l]
  by (auto simp: serve_turn_def trackConn_def trackListener_def serve_to_def worker_to_def
      close_conn_def close_ln_def conn_inv_def held_update held_once_update split: step_splits)

lemma conn_inv_accept_conn:
  assumes "conn_inv s" "accept_conn l s = Some s'"
  shows "conn_inv s'"
  using assms conn_inv_facts(3,4,6) [OF assms(1)] conn_inv_facts(5) [OF assms(1), of WkUntrack]
  by (auto simp: accept_conn_def serve_to_def conn_inv_def held_update held_once_update split: if_splits)

lemma conn_inv_step:
  assumes "conn_inv s" "step srv e s = Some s'"
  shows "conn_inv s'"
proof (cases e)
  case (ServeTurn l)
  with assms show ?thesis by (simp add: conn_inv_serve_turn)
next
  case (AcceptConn l)
  with assms show ?thesis by (simp add: conn_inv_accept_conn)
next
  case (CallServe l)
  with assms show ?thesis
    by (auto simp: serve_call_def serve_init_def serve_to_def conn_inv_def held_update held_once_update
        split: if_splits res.splits)
next
  case (CallListenAndServe l x)
  with assms show ?thesis
    by (auto simp: listen_and_serve_def serve_call_def serve_init_def serve_to_def conn_inv_def held_update
        held_once_update split: if_splits res.splits option.splits)
next
  case (AcceptFail l x)
  with assms show ?thesis
    by (auto simp: accept_fail_def serve_to_def conn_inv_def held_update held_once_update split: if_splits)
next
  case (StopTurn t)
  with assms show ?thesis
    by (auto simp: stop_turn_def stop_to_def close_conns_def close_listeners_def do_cancel_def conn_inv_def
        split: step_splits)
qed (use assms conn_inv_facts(1) [OF assms(1)] in
    \<open>auto simp: conn_inv_def step_defs split: step_splits\<close>)

lemma swept_inv_step:
  assumes "flag_inv s" "conn_inv s" "swept_inv s" "step srv e s = Some s'"
  shows "swept_inv s'"
proof -
  have n: "accepted s \<notin> conns s" using assms(2) by (auto simp: conn_inv_def)
  show ?thesis
    using assms(1,3,4) n
    by (cases e) (fastforce simp: flag_inv_def swept_inv_def step_defs split: step_splits)+
qed

text \<open>The tracked listeners are those a \<^verbatim>\<open>Serve\<close> call is accepting on or still has to
  untrack.\<close>

fun tracks :: "serve_pc option \<Rightarrow> bool" where
  "tracks (Some SvAccept) = True"
| "tracks (Some (SvConn c)) = True"
| "tracks (Some (SvUntrack e)) = True"
| "tracks _ = False"

definition ln_inv :: "lifecycle \<Rightarrow> bool" where
  "ln_inv s \<longleftrightarrow> (\<forall>l. tracks (serves s l) \<longrightarrow> l \<in> listeners s) \<and> (\<forall>l \<in> listeners s. serves s l \<noteq> None)"

text \<open>A stop that has closed the listeners.\<close>

fun past_listeners :: "stop_pc \<Rightarrow> bool" where
  "past_listeners ShCancel = True"
| "past_listeners (ShWait b) = True"
| "past_listeners (ShSweep e) = True"
| "past_listeners (StDone e) = True"
| "past_listeners _ = False"

definition swept_ln_inv :: "lifecycle \<Rightarrow> bool" where
  "swept_ln_inv s \<longleftrightarrow>
     ((\<exists>t pc. stops s t = Some pc \<and> past_listeners pc) \<longrightarrow> listeners s \<inter> open_lns s = {})"

lemma ln_inv_step:
  assumes "ln_inv s" "step srv e s = Some s'"
  shows "ln_inv s'"
  using assms by (cases e) (auto simp: ln_inv_def step_defs split: step_splits)

lemma flagged_past: "past_listeners pc \<Longrightarrow> flagged pc"
  by (cases pc) auto

lemma swept_ln_inv_step:
  assumes "flag_inv s" "ln_inv s" "swept_ln_inv s" "step srv e s = Some s'"
  shows "swept_ln_inv s'"
proof -
  have fl: "inShutdown s" if "stops s t = Some pc" "past_listeners pc" for t pc
    using assms(1) that flagged_past by (auto simp: flag_inv_def)
  show ?thesis
    using assms(2-4) fl
    by (cases e) (fastforce simp: ln_inv_def swept_ln_inv_def step_defs split: step_splits)+
qed

text \<open>The wait group counts the goroutines in a handler.\<close>

definition in_handler :: "lifecycle \<Rightarrow> nat set" where
  "in_handler s = {c. workers s c = Some WkHandler}"

definition wg_inv :: "lifecycle \<Rightarrow> bool" where
  "wg_inv s \<longleftrightarrow> finite (in_handler s) \<and> handlerWG s = card (in_handler s)"

lemma in_handler_update:
  "{c'. (m(c := pc)) c' = Some WkHandler} =
     (if pc = Some WkHandler then insert c {c'. m c' = Some WkHandler} else {c'. m c' = Some WkHandler} - {c})"
  by auto

lemma wg_inv_step:
  assumes "conn_inv s" "wg_inv s" "step srv e s = Some s'"
  shows "wg_inv s'"
proof -
  have new: "c \<notin> in_handler s" if "serves s l = Some (SvConn c)" for l c
  proof -
    have "c \<in> held (serves s)" using that by (auto simp: held_def)
    then have "workers s c = None" using assms(1) by (auto simp: conn_inv_def)
    then show ?thesis by (simp add: in_handler_def)
  qed
  show ?thesis
    using assms(2,3) new
    by (cases e) (auto simp: wg_inv_def in_handler_def step_defs in_handler_update card_Diff_singleton_if
        simp del: fun_upd_apply split: step_splits)
qed

text \<open>A \<^verbatim>\<open>Serve\<close> call that has returned has closed its listener, unless the server did
  not validate.\<close>

definition done_inv :: "'h Server \<Rightarrow> lifecycle \<Rightarrow> bool" where
  "done_inv srv s \<longleftrightarrow>
     (\<forall>l e. serves s l = Some (SvDone e) \<longrightarrow> l \<in> open_lns s \<longrightarrow> validate srv = Err e)"

lemma done_inv_step:
  assumes "done_inv srv s" "step srv e s = Some s'"
  shows "done_inv srv s'"
  using assms by (cases e) (auto simp: done_inv_def step_defs split: step_splits)

definition life_inv :: "'h Server \<Rightarrow> lifecycle \<Rightarrow> bool" where
  "life_inv srv s \<longleftrightarrow>
     flag_inv s \<and> conn_inv s \<and> swept_inv s \<and> ln_inv s \<and> swept_ln_inv s \<and> wg_inv s \<and> done_inv srv s"

lemma life_inv_step: "life_inv srv s \<Longrightarrow> step srv e s = Some s' \<Longrightarrow> life_inv srv s'"
  unfolding life_inv_def
  using flag_inv_step conn_inv_step swept_inv_step ln_inv_step swept_ln_inv_step wg_inv_step
    done_inv_step by metis

lemma reachable_inv: "reachable srv s \<Longrightarrow> life_inv srv s"
proof (rule lf.invariant [of "life_inv srv"])
  show "life_inv srv new_server"
    by (simp add: life_inv_def flag_inv_def conn_inv_def swept_inv_def ln_inv_def swept_ln_inv_def wg_inv_def
        done_inv_def new_server_def held_def held_once_def in_handler_def)
qed (rule life_inv_step)

text \<open>What holds as soon as some stop has closed the listeners.\<close>

lemma past_listeners_stop: "past_listeners (StDone r)" "past_listeners (ShWait b)"
  by simp_all

lemma past_listeners_facts:
  assumes "reachable srv s" "stops s t = Some pc" "past_listeners pc"
  shows "inShutdown s" "listeners s \<inter> open_lns s = {}" "tracks (serves s l) \<Longrightarrow> l \<notin> open_lns s"
proof -
  note inv = reachable_inv [OF assms(1), unfolded life_inv_def]
  show "inShutdown s" using inv assms(2,3) flagged_past unfolding flag_inv_def by blast
  show ln: "listeners s \<inter> open_lns s = {}" using inv assms(2,3) unfolding swept_ln_inv_def by blast
  show "tracks (serves s l) \<Longrightarrow> l \<notin> open_lns s" using inv ln unfolding ln_inv_def by blast
qed

subsection \<open>Properties of the lifecycle\<close>

text \<open>A server that validates, and an interleaving in which a connection is accepted just as
  the server is closed: the \<^verbatim>\<open>Close\<close> is over before the connection is tracked.\<close>

definition plain_server :: "unit Server" where
  "plain_server = \<lparr>Addr = [], Handler = Some (\<lambda>r h. \<lparr>hr_acts = [], hr_end = HReturn, hr_took = 0, hr_state = h\<rparr>),
     Password = ''pw'', Authenticator = None, ReadTimeout = 0\<rparr>"

definition accept_race :: "event list" where
  "accept_race = [Listen 0, CallServe 0, ServeTurn 0, AcceptConn 0, ServeTurn 0, AcceptConn 0,
     CallClose 0, StopTurn 0, StopTurn 0]"

definition raced :: lifecycle where
  "raced = the (run_events plain_server accept_race new_server)"

lemma raced_reachable: "reachable plain_server raced"
proof -
  have "run_events plain_server accept_race new_server \<noteq> None" by code_simp
  then show ?thesis unfolding raced_def by (rule lf.run_init_reach)
qed

lemma raced_stopped: "stops raced 0 = Some (StDone None)"
  by code_simp

text \<open>C6: in every interleaving of goroutines, once a \<^verbatim>\<open>Close\<close> or \<^verbatim>\<open>Shutdown\<close> has
  returned, every tracked connection is closed, and every other open connection is one that a
  \<^verbatim>\<open>Serve\<close> call has just accepted and whose next step closes it. An open listener is
  one that no \<^verbatim>\<open>Serve\<close> call was ever given, one that a server which does not validate
  left to its caller, or one whose \<^verbatim>\<open>Serve\<close> call closes it with its next step.\<close>

theorem server_stop_no_leak:
  assumes "reachable srv s" "stops s t = Some (StDone r)"
  shows "conns s \<inter> open_conns s = {}
    \<and> (\<forall>c \<in> open_conns s. \<exists>l s'. serves s l = Some (SvConn c) \<and> step srv (ServeTurn l) s = Some s' \<and> c \<notin> open_conns s')
    \<and> (\<forall>l \<in> open_lns s. serves s l = None
         \<or> (\<exists>e. serves s l = Some (SvDone e) \<and> validate srv = Err e)
         \<or> ((\<exists>e. serves s l \<in> {Some SvTrack, Some (SvCloseLn e)})
             \<and> (\<exists>s'. step srv (ServeTurn l) s = Some s' \<and> l \<notin> open_lns s')))"
proof -
  note inv = reachable_inv [OF assms(1), unfolded life_inv_def]
  note past = past_listeners_facts [OF assms past_listeners_stop(1)]
  have sw: "conns s \<inter> open_conns s = {}"
    using inv assms(2) unfolding swept_inv_def by blast
  have turn: "step srv (ServeTurn l) s = Some (serve_to l (SvUntrack ErrServerClosed) (close_conn c s))"
    if "serves s l = Some (SvConn c)" for l c
    using that past(1) by (simp add: serve_turn_def trackConn_def)
  have gone: "c \<notin> open_conns (serve_to l pc (close_conn c s))" for c l pc
    by (simp add: serve_to_def close_conn_def)
  have "\<exists>l. serves s l = Some (SvConn c)" if "c \<in> open_conns s" for c
    using that inv sw by (auto simp: conn_inv_def held_def)
  then have "\<exists>l s'. serves s l = Some (SvConn c) \<and> step srv (ServeTurn l) s = Some s' \<and> c \<notin> open_conns s'"
    if "c \<in> open_conns s" for c
    using that turn gone by metis
  moreover have "serves s l = None \<or> (\<exists>e. serves s l = Some (SvDone e) \<and> validate srv = Err e)
      \<or> ((\<exists>e. serves s l \<in> {Some SvTrack, Some (SvCloseLn e)})
          \<and> (\<exists>s'. step srv (ServeTurn l) s = Some s' \<and> l \<notin> open_lns s'))" if "l \<in> open_lns s" for l
    using that past(1) past(3) [of l] inv
    by (cases "serves s l" rule: tracks.cases)
      (auto simp: done_inv_def serve_turn_def trackListener_def serve_to_def close_ln_def)
  ultimately show ?thesis using sw by blast
qed

text \<open>A listener that is handed over while the server stops.\<close>

definition late_serve :: "event list" where
  "late_serve = [Listen 0, Listen 1, CallServe 0, CallClose 0, StopTurn 0, StopTurn 0]"

theorem server_stop_no_leak_witness:
  "conns raced \<inter> open_conns raced = {} \<and> open_conns raced = {1} \<and> conns raced = {0}
    \<and> (\<exists>s s'. run_events plain_server late_serve new_server = Some s \<and> open_lns s = {0, 1}
         \<and> step plain_server (ServeTurn 0) s = Some s' \<and> 0 \<notin> open_lns s')"
proof -
  let ?s = "the (run_events plain_server late_serve new_server)"
  have run: "run_events plain_server late_serve new_server \<noteq> None" by code_simp
  then have r: "reachable plain_server ?s" by (rule lf.run_init_reach)
  have st: "stops ?s 0 = Some (StDone None)" "serves ?s 0 = Some SvTrack" "open_lns ?s = {0, 1}" by code_simp+
  have "conns raced \<inter> open_conns raced = {}"
    using server_stop_no_leak [OF raced_reachable raced_stopped] by blast
  moreover have "open_conns raced = {1}" "conns raced = {0}" by code_simp+
  moreover have "\<exists>s'. step plain_server (ServeTurn 0) ?s = Some s' \<and> 0 \<notin> open_lns s'"
    using server_stop_no_leak [OF r st(1)] st(2,3) by force
  ultimately show ?thesis using run st(3) by auto
qed

text \<open>What a call of \<^verbatim>\<open>Shutdown\<close> has behind it, by the events of a run: it never takes the
  path of \<^verbatim>\<open>Close\<close>, its wait has ended without an error only after the helper saw the
  wait group at zero, and with an error only after the context ended.\<close>

definition zero_seen :: "'h Server \<Rightarrow> nat \<Rightarrow> event list \<Rightarrow> bool" where
  "zero_seen srv t es \<longleftrightarrow>
     (\<exists>es1 es2 s1. es = es1 @ WaitZero t # es2 \<and> run_events srv es1 new_server = Some s1
        \<and> stops s1 t = Some (ShWait False) \<and> handlerWG s1 = 0)"

lemma zero_seen_snoc: "zero_seen srv t es \<Longrightarrow> zero_seen srv t (es @ [e])"
  unfolding zero_seen_def by (metis append.assoc append_Cons)

lemma zero_seen_now:
  "run_events srv es new_server = Some s \<Longrightarrow> stops s t = Some (ShWait False) \<Longrightarrow> handlerWG s = 0 \<Longrightarrow>
    zero_seen srv t (es @ [WaitZero t])"
  unfolding zero_seen_def by blast

fun shutdown_past :: "'h Server \<Rightarrow> nat \<Rightarrow> event list \<Rightarrow> stop_pc option \<Rightarrow> bool" where
  "shutdown_past srv t es (Some (ShWait b)) = (b \<longrightarrow> zero_seen srv t es)"
| "shutdown_past srv t es (Some (ShSweep None)) = zero_seen srv t es"
| "shutdown_past srv t es (Some (StDone None)) = zero_seen srv t es"
| "shutdown_past srv t es (Some (ShSweep (Some err))) = (WaitTimeout t err \<in> set es)"
| "shutdown_past srv t es (Some (StDone (Some err))) = (WaitTimeout t err \<in> set es)"
| "shutdown_past srv t es pc = (pc \<in> {Some ShStore, Some ShListeners, Some ShCancel})"

lemma shutdown_past_swept:
  "shutdown_past srv t es (Some (ShSweep r)) = shutdown_past srv t es (Some (StDone r))"
  by (cases r) simp_all

lemma shutdown_past_snoc: "shutdown_past srv t es pc \<Longrightarrow> shutdown_past srv t (es @ [e]) pc"
  by (cases "(srv, t, es, pc)" rule: shutdown_past.cases) (auto intro: zero_seen_snoc)

lemma shutdown_past_step:
  assumes "run_events srv es new_server = Some s" "shutdown_past srv t es (stops s t)" "step srv e s = Some s'"
  shows "shutdown_past srv t (es @ [e]) (stops s' t)"
proof (cases "stops s' t = stops s t")
  case True
  with assms(2) shutdown_past_snoc show ?thesis by metis
next
  case False
  with assms(2,3) zero_seen_now [OF assms(1)] shutdown_past_swept [of srv t es]
    shutdown_past_snoc [of srv t es] show ?thesis
    by (cases e; cases "stops s t"; cases "the (stops s t)")
      (auto simp: step_defs split: step_splits intro: zero_seen_snoc)
qed

lemma shutdown_history:
  assumes "run_events srv es new_server = Some s"
  shows "CallShutdown t \<in> set es \<longrightarrow> shutdown_past srv t es (stops s t)"
  using assms
proof (induction rule: lf.run_history)
  case (move es s e s')
  show ?case
  proof (cases "CallShutdown t \<in> set es")
    case True
    with move shutdown_past_step show ?thesis by blast
  qed (use move.hyps in \<open>auto simp: stop_to_def split: if_splits\<close>)
qed simp

text \<open>C24: in every run in which \<^verbatim>\<open>Shutdown\<close> was called and has returned without an error,
  or is about to close the connections without one, there was an instant, after it had set the
  flag, closed the listeners and begun to wait, at which no goroutine was in a handler and no
  \<^verbatim>\<open>Serve\<close> call had an open listener to accept on; if it returned an error, its context
  had ended with that error.\<close>

theorem shutdown_waits_for_handlers:
  assumes "run_events srv es new_server = Some s" "CallShutdown t \<in> set es"
  shows "(stops s t \<in> {Some (ShSweep None), Some (StDone None)} \<longrightarrow>
      (\<exists>es1 es2 s1. es = es1 @ es2 \<and> run_events srv es1 new_server = Some s1
         \<and> stops s1 t = Some (ShWait False) \<and> (\<forall>c. workers s1 c \<noteq> Some WkHandler)
         \<and> inShutdown s1 \<and> (\<forall>l. tracks (serves s1 l) \<longrightarrow> l \<notin> open_lns s1)))
    \<and> (\<forall>err. stops s t = Some (StDone (Some err)) \<longrightarrow> WaitTimeout t err \<in> set es)"
proof (intro conjI impI allI)
  note past = shutdown_history [OF assms(1), of t]
  show "WaitTimeout t err \<in> set es" if "stops s t = Some (StDone (Some err))" for err
    using past assms(2) that by simp
  assume "stops s t \<in> {Some (ShSweep None), Some (StDone None)}"
  with past assms(2) have "zero_seen srv t es" by auto
  then obtain es1 es2 s1 where z: "es = es1 @ WaitZero t # es2" "run_events srv es1 new_server = Some s1"
    "stops s1 t = Some (ShWait False)" "handlerWG s1 = 0"
    unfolding zero_seen_def by blast
  have r: "reachable srv s1" using lf.run_reach [OF reachable.init z(2)] .
  have "in_handler s1 = {}" using reachable_inv [OF r] z(4) by (auto simp: life_inv_def wg_inv_def)
  then have "\<forall>c. workers s1 c \<noteq> Some WkHandler" by (auto simp: in_handler_def)
  with z past_listeners_facts [OF r z(3) past_listeners_stop(2)]
  show "\<exists>es1 es2 s1. es = es1 @ es2 \<and> run_events srv es1 new_server = Some s1
      \<and> stops s1 t = Some (ShWait False) \<and> (\<forall>c. workers s1 c \<noteq> Some WkHandler)
      \<and> inShutdown s1 \<and> (\<forall>l. tracks (serves s1 l) \<longrightarrow> l \<notin> open_lns s1)"
    by blast
qed

definition graceful :: "event list" where
  "graceful = [Listen 0, CallServe 0, ServeTurn 0, AcceptConn 0, ServeTurn 0, HandlerBegin 0,
     CallShutdown 0, StopTurn 0, StopTurn 0, StopTurn 0, HandlerEnd 0, WaitZero 0, WaitDone 0, StopTurn 0]"

theorem shutdown_waits_for_handlers_witness:
  "\<exists>es1 es2 s1. graceful = es1 @ es2 \<and> run_events plain_server es1 new_server = Some s1
     \<and> stops s1 0 = Some (ShWait False) \<and> (\<forall>c. workers s1 c \<noteq> Some WkHandler)"
proof -
  let ?s = "the (run_events plain_server graceful new_server)"
  have "run_events plain_server graceful new_server \<noteq> None" by code_simp
  then have "run_events plain_server graceful new_server = Some ?s" by simp
  moreover have "CallShutdown 0 \<in> set graceful" by code_simp
  moreover have "stops ?s 0 = Some (StDone None)" by code_simp
  ultimately show ?thesis using shutdown_waits_for_handlers [of plain_server graceful ?s 0] by blast
qed

text \<open>The steps a \<^verbatim>\<open>Serve\<close> call still has to make once it cannot accept, and the error it
  then returns: \<^verbatim>\<open>ErrServerClosed\<close>, unless it is already returning another one.\<close>

definition remaining :: "nat \<Rightarrow> goerr \<Rightarrow> serve_pc \<Rightarrow> event list" where
  "remaining l err pc =
     (case pc of
        SvTrack \<Rightarrow> [ServeTurn l, ServeTurn l]
      | SvAccept \<Rightarrow> [AcceptFail l err, ServeTurn l, ServeTurn l]
      | SvConn c \<Rightarrow> [ServeTurn l, ServeTurn l, ServeTurn l]
      | SvUntrack e \<Rightarrow> [ServeTurn l, ServeTurn l]
      | SvCloseLn e \<Rightarrow> [ServeTurn l]
      | SvDone e \<Rightarrow> [])"

definition serve_error :: "serve_pc \<Rightarrow> goerr" where
  "serve_error pc =
     (case pc of
        SvUntrack e \<Rightarrow> e
      | SvCloseLn e \<Rightarrow> e
      | SvDone e \<Rightarrow> e
      | _ \<Rightarrow> ErrServerClosed)"

text \<open>C23: after a stop has returned, a \<^verbatim>\<open>Serve\<close> call that has not returned, wherever it
  stands, accepts nothing more, and its remaining steps, with an \<^verbatim>\<open>Accept\<close> that fails on
  the closed listener, make it return with its listener closed: with \<^verbatim>\<open>ErrServerClosed\<close>,
  or, if an \<^verbatim>\<open>Accept\<close> failed before the stop and the call was already returning that
  error, with that error.\<close>

theorem stopped_serve_returns:
  assumes "reachable srv s" "stops s t = Some (StDone r)" "serves s l = Some pc" "\<forall>e. pc \<noteq> SvDone e"
  shows "step srv (AcceptConn l) s = None \<and>
    (\<exists>s'. run_events srv (remaining l err pc) s = Some s'
       \<and> serves s' l = Some (SvDone (serve_error pc)) \<and> l \<notin> open_lns s')"
proof -
  note past = past_listeners_facts [OF assms(1,2) past_listeners_stop(1)]
  have "step srv (AcceptConn l) s = None"
    using assms(3) past(3) [of l] by (auto simp: accept_conn_def)
  with assms(3,4) past(1) show ?thesis
    by (cases pc) (auto simp: remaining_def serve_error_def serve_turn_def accept_fail_def trackListener_def
        trackConn_def serve_to_def close_ln_def close_conn_def)
qed

definition failed_accept :: "event list" where
  "failed_accept = [Listen 0, CallServe 0, ServeTurn 0, AcceptFail 0 IoEOF, CallClose 0, StopTurn 0, StopTurn 0]"

theorem stopped_serve_returns_witness:
  "(\<exists>s'. run_events plain_server (remaining 0 IoEOF (SvConn 1)) raced = Some s'
     \<and> serves s' 0 = Some (SvDone ErrServerClosed) \<and> 0 \<notin> open_lns s')
   \<and> (\<exists>s s'. run_events plain_server failed_accept new_server = Some s
     \<and> run_events plain_server [ServeTurn 0, ServeTurn 0] s = Some s' \<and> serves s' 0 = Some (SvDone IoEOF))"
proof -
  let ?s = "the (run_events plain_server failed_accept new_server)"
  have run: "run_events plain_server failed_accept new_server \<noteq> None" by code_simp
  then have r: "reachable plain_server ?s" by (rule lf.run_init_reach)
  have st: "stops ?s 0 = Some (StDone None)" "serves ?s 0 = Some (SvUntrack IoEOF)" by code_simp+
  have "serves raced 0 = Some (SvConn 1)" by code_simp
  from stopped_serve_returns [OF raced_reachable raced_stopped this, of IoEOF]
  have "\<exists>s'. run_events plain_server (remaining 0 IoEOF (SvConn 1)) raced = Some s'
     \<and> serves s' 0 = Some (SvDone ErrServerClosed) \<and> 0 \<notin> open_lns s'"
    by (simp add: serve_error_def)
  moreover from stopped_serve_returns [OF r st, of IoEOF]
  have "\<exists>s'. run_events plain_server [ServeTurn 0, ServeTurn 0] ?s = Some s' \<and> serves s' 0 = Some (SvDone IoEOF)"
    by (auto simp: serve_error_def remaining_def simp del: run_events.simps)
  ultimately show ?thesis using run by (metis option.collapse)
qed

end
