(* ===== verification/Rcon_Options.thy ===== *)
theory Rcon_Options
  imports Rcon_Prelude
begin

text \<open>
  The options of a connection, \<^verbatim>\<open>src/rcon/options.go\<close>. An option is a function on
  the settings; \<^verbatim>\<open>newSettings\<close> applies them in order to the defaults.
\<close>

definition Second :: duration where
  "Second = 1000000000"

definition Millisecond :: duration where
  "Millisecond = 1000000"

definition DefaultDialTimeout :: duration where
  "DefaultDialTimeout = 5 * Second"

definition DefaultDeadline :: duration where
  "DefaultDeadline = 5 * Second"

definition DefaultMaxCommandLen :: int where
  "DefaultMaxCommandLen = 1000"

definition DefaultIdleWindow :: duration where
  "DefaultIdleWindow = 100 * Millisecond"

datatype readMode = readMulti | readSingle | readIdle

record settings =
  dialTimeout :: duration
  deadline :: duration
  maxCommandLen :: int
  mode :: readMode
  idleWindow :: duration

type_synonym rcon_Option = "settings \<Rightarrow> settings"

definition WithDialTimeout :: "duration \<Rightarrow> rcon_Option" where
  "WithDialTimeout d s = s\<lparr>dialTimeout := d\<rparr>"

definition WithDeadline :: "duration \<Rightarrow> rcon_Option" where
  "WithDeadline d s = s\<lparr>deadline := d\<rparr>"

definition WithMaxCommandLen :: "int \<Rightarrow> rcon_Option" where
  "WithMaxCommandLen n s = s\<lparr>maxCommandLen := n\<rparr>"

definition WithSinglePacket :: rcon_Option where
  "WithSinglePacket s = s\<lparr>mode := readSingle\<rparr>"

definition WithReadUntilIdle :: "duration \<Rightarrow> rcon_Option" where
  "WithReadUntilIdle window s =
     (let s' = s\<lparr>mode := readIdle\<rparr> in if window > 0 then s'\<lparr>idleWindow := window\<rparr> else s')"

definition newSettings :: "rcon_Option list \<Rightarrow> settings" where
  "newSettings opts =
     fold (\<lambda>opt s. opt s) opts
       \<lparr>dialTimeout = DefaultDialTimeout, deadline = DefaultDeadline,
        maxCommandLen = DefaultMaxCommandLen, mode = readMulti, idleWindow = DefaultIdleWindow\<rparr>"

lemmas option_defs = WithDialTimeout_def WithDeadline_def WithMaxCommandLen_def
  WithSinglePacket_def WithReadUntilIdle_def newSettings_def
lemmas default_defs = DefaultDialTimeout_def DefaultDeadline_def DefaultMaxCommandLen_def
  DefaultIdleWindow_def Second_def Millisecond_def

text \<open>Whatever options are given, the idle window stays positive.\<close>

lemma rcon_option_idleWindow:
  assumes "0 < idleWindow s"
  shows "0 < idleWindow (WithDialTimeout d s)" "0 < idleWindow (WithDeadline d s)"
    "0 < idleWindow (WithMaxCommandLen n s)" "0 < idleWindow (WithSinglePacket s)"
    "0 < idleWindow (WithReadUntilIdle w s)"
  using assms by (simp_all add: option_defs Let_def)

end
