(* ===== verification/Rcon_Conn.thy ===== *)
theory Rcon_Conn
  imports Rcon_Packet Rcon_Options
begin

text \<open>
  One authenticated connection: \<^verbatim>\<open>src/rcon/auth.go\<close> and \<^verbatim>\<open>src/rcon/conn.go\<close>.
  \<^verbatim>\<open>Conn\<close> is a record; the socket is the one under its buffered reader, as in the
  code the two share it. Calls are serialized by the mutex, so each operation is a
  function from the connection to its result and the connection after it. A
  \<^verbatim>\<open>Close\<close> from another goroutine during a call reaches that call only through the
  socket, as a fault in its script.
\<close>

record Conn =
  c_br :: bufr
  c_set :: settings
  c_closed :: bool
  c_id :: int32

abbreviation c_conn :: "Conn \<Rightarrow> sock" where
  "c_conn c \<equiv> under (c_br c)"

definition with_sock :: "sock \<Rightarrow> Conn \<Rightarrow> Conn" where
  "with_sock s c = c\<lparr>c_br := (c_br c)\<lparr>under := s\<rparr>\<rparr>"

text \<open>\<^verbatim>\<open>Packet.ReadFrom(c.br)\<close> and \<^verbatim>\<open>Packet.WriteTo(c.conn)\<close>: the callers drop the counts.\<close>

definition conn_ReadFrom :: "Conn \<Rightarrow> Packet gores \<times> Conn" where
  "conn_ReadFrom c =
     (case Packet_ReadFrom bufio_read (c_br c) of ((n, x), b) \<Rightarrow> (x, c\<lparr>c_br := b\<rparr>))"

definition conn_WriteTo :: "Packet \<Rightarrow> Conn \<Rightarrow> unit gores \<times> Conn" where
  "conn_WriteTo p c =
     (case Packet_WriteTo sock_write p (c_conn c) of ((n, x), s) \<Rightarrow> (x, with_sock s c))"

text \<open>The next request id: 1 up to the largest \<^verbatim>\<open>int32\<close>, then 1 again.\<close>

definition nextID :: "Conn \<Rightarrow> int32 \<times> Conn" where
  "nextID c =
     (let i = c_id c + 1; i' = (if sint i \<le> 0 then 1 else i) in (i', c\<lparr>c_id := i'\<rparr>))"

subsection \<open>Authentication\<close>

definition authenticate :: "bytes \<Rightarrow> Conn \<Rightarrow> unit gores \<times> Conn" where
  "authenticate password c =
     (let (reqID, c) = nextID c in
      andThen (conn_WriteTo \<lparr>ID = reqID, Type = TypeAuth, Body = password\<rparr> c) (\<lambda>_ c.
      andThen (conn_ReadFrom c) (\<lambda>resp c.
      andThen (if Type resp = TypeResponseValue then conn_ReadFrom c else (Ok resp, c)) (\<lambda>resp c.
        if Type resp \<noteq> TypeAuthResponse then (Err ErrInvalidAuthResponse, c)
        else if ID resp = -1 then (Err ErrAuthFailed, c)
        else (Ok (), c)))))"

subsection \<open>Opening a connection\<close>

definition applyContextDeadline :: "ctx \<Rightarrow> duration \<Rightarrow> sock \<Rightarrow> unit gores \<times> sock" where
  "applyContextDeadline cx opDeadline s =
     (let dl = (if opDeadline > 0 then Some (clock s + opDeadline) else None);
          dl' = (case ctx_Deadline cx of
                   Some d \<Rightarrow> (case dl of None \<Rightarrow> Some d | Some x \<Rightarrow> if d < x then Some d else dl)
                 | None \<Rightarrow> dl)
      in sock_SetDeadline dl' s)"

text \<open>\<^verbatim>\<open>open\<close>: the error or success, and the connection it built around the socket,
  whose state the caller of a failed \<^verbatim>\<open>open\<close> still owns.\<close>

definition rcon_open :: "ctx \<Rightarrow> sock \<Rightarrow> bytes \<Rightarrow> settings \<Rightarrow> unit gores \<times> Conn" where
  "rcon_open cx netConn password s =
     (let c = \<lparr>c_br = \<lparr>buffered = [], under = netConn\<rparr>, c_set = s, c_closed = False, c_id = 0\<rparr> in
      case applyContextDeadline cx (deadline s) netConn of
        (Ok _, k) \<Rightarrow> authenticate password (with_sock k c)
      | (Err e, k) \<Rightarrow> (Err e, with_sock k c)
      | (Hang, k) \<Rightarrow> (Hang, with_sock k c))"

definition rcon_Open :: "ctx \<Rightarrow> sock \<Rightarrow> bytes \<Rightarrow> rcon_Option list \<Rightarrow> unit gores \<times> Conn" where
  "rcon_Open cx netConn password opts = rcon_open cx netConn password (newSettings opts)"

text \<open>
  \<^verbatim>\<open>Dial\<close>. The TCP dialer is a parameter: from the instant, the dial timeout, the
  context and the address to a connected socket or an error, and the instant it returns at.
  Beside the result of \<^verbatim>\<open>Dial\<close> stand the socket a failed handshake leaves behind and
  the instant of the return.
\<close>

type_synonym tcp_dialer = "time \<Rightarrow> duration \<Rightarrow> ctx \<Rightarrow> bytes \<Rightarrow> sock gores \<times> time"

definition rcon_Dial ::
  "tcp_dialer \<Rightarrow> time \<Rightarrow> ctx \<Rightarrow> bytes \<Rightarrow> bytes \<Rightarrow> rcon_Option list \<Rightarrow> Conn gores \<times> sock option \<times> time" where
  "rcon_Dial tcp t cx address password opts =
     (let s = newSettings opts in
      case tcp t (dialTimeout s) cx address of
        (Err e, t') \<Rightarrow> (Err e, None, t')
      | (Hang, t') \<Rightarrow> (Hang, None, t')
      | (Ok netConn, t') \<Rightarrow>
          (case rcon_open cx (netConn\<lparr>clock := t'\<rparr>) password s of
             (Ok _, c) \<Rightarrow> (Ok c, None, clock (c_conn c))
           | (Err e, c) \<Rightarrow> (Err e, Some (snd (sock_Close (c_conn c))), clock (c_conn c))
           | (Hang, c) \<Rightarrow> (Hang, Some (c_conn c), clock (c_conn c))))"

definition Conn_Close :: "Conn \<Rightarrow> unit gores \<times> Conn" where
  "Conn_Close c =
     (case sock_Close (c_conn c) of (x, s) \<Rightarrow> (x, with_sock s (c\<lparr>c_closed := True\<rparr>)))"

subsection \<open>Reading a response\<close>

text \<open>Every successful packet read takes bytes off the connection, which bounds the loops below.\<close>

definition conn_left :: "Conn \<Rightarrow> nat" where
  "conn_left c = bufr_left (c_br c)"

lemma conn_left_ReadFrom:
  assumes "conn_ReadFrom c = (x, c')"
  shows "conn_left c' \<le> conn_left c" "x = Ok p \<Longrightarrow> conn_left c' < conn_left c"
  using assms by (auto simp: conn_ReadFrom_def conn_left_def split: prod.splits dest: brd.left_ReadFrom)

lemma conn_left_Ok: "(Ok p, c') = conn_ReadFrom c \<Longrightarrow> conn_left c' < conn_left c"
  using conn_left_ReadFrom(2) [of c "Ok p" c' p] by simp

definition readSinglePacket :: "int32 \<Rightarrow> Conn \<Rightarrow> bytes gores \<times> Conn" where
  "readSinglePacket reqID c =
     andThen (conn_ReadFrom c) (\<lambda>resp c.
       if ID resp \<noteq> reqID \<and> ID resp \<noteq> -1 then (Err ErrResponseMismatch, c)
       else (Ok (Body resp), c))"

function drainSourceMirror :: "Conn \<Rightarrow> unit gores \<times> Conn" where
  "drainSourceMirror c =
     (if buffered (c_br c) = [] then (Ok (), c)
      else (case conn_ReadFrom c of
          (Ok junk, c') \<Rightarrow> drainSourceMirror c'
        | (Err e, c') \<Rightarrow> (Ok (), c')
        | (Hang, c') \<Rightarrow> (Hang, c')))"
  by pat_completeness auto
termination
  by (relation "measure conn_left") (auto dest: conn_left_Ok)

declare drainSourceMirror.simps [simp del]

function readMultiPacket :: "int32 \<Rightarrow> int32 \<Rightarrow> bytes \<Rightarrow> Conn \<Rightarrow> bytes gores \<times> Conn" where
  "readMultiPacket reqID sentinelID b c =
     (case conn_ReadFrom c of
        (Err e, c') \<Rightarrow> (Err e, c')
      | (Hang, c') \<Rightarrow> (Hang, c')
      | (Ok resp, c') \<Rightarrow>
          (if ID resp = sentinelID then andThen (drainSourceMirror c') (\<lambda>_ c. (Ok b, c))
           else if ID resp \<noteq> reqID \<and> ID resp \<noteq> -1 then (Err ErrResponseMismatch, c')
           else readMultiPacket reqID sentinelID (b @ Body resp) c'))"
  by pat_completeness auto
termination
  by (relation "measure (\<lambda>(q, s, b, c). conn_left c)") (auto dest: conn_left_Ok)

declare readMultiPacket.simps [simp del]

definition isIdleTimeout :: "goerr \<Rightarrow> bool" where
  "isIdleTimeout err = (case errors_AsNetError err of Some ne \<Rightarrow> net_Timeout ne | None \<Rightarrow> False)"

text \<open>The idle deadline is set before every read but the first.\<close>

definition setIdleDeadline :: "bool \<Rightarrow> Conn \<Rightarrow> unit gores \<times> Conn" where
  "setIdleDeadline first c =
     (if first then (Ok (), c)
      else (case sock_SetReadDeadline (Some (clock (c_conn c) + idleWindow (c_set c))) (c_conn c) of
          (x, s) \<Rightarrow> (x, with_sock s c)))"

lemma conn_left_setIdleDeadline: "setIdleDeadline first c = (x, c') \<Longrightarrow> conn_left c' = conn_left c"
  by (auto simp: setIdleDeadline_def sock_SetReadDeadline_def with_sock_def conn_left_def
      bufr_left_def sock_left_def split: if_splits)

text \<open>The source's loop has no bound: it sets a new deadline before every packet, so it goes on as
  long as the server sends one in every window. Here it is total because the script is finite.\<close>

function readIdleDrain :: "int32 \<Rightarrow> bytes \<Rightarrow> bool \<Rightarrow> Conn \<Rightarrow> bytes gores \<times> Conn" where
  "readIdleDrain reqID b first c =
     andThen (setIdleDeadline first c) (\<lambda>_ c1.
       case conn_ReadFrom c1 of
         (Err e, c') \<Rightarrow>
           (if first then (Err e, c')
            else if isIdleTimeout e \<or> errors_Is e IoEOF then (Ok b, c')
            else (Err e, c'))
       | (Hang, c') \<Rightarrow> (Hang, c')
       | (Ok resp, c') \<Rightarrow>
           readIdleDrain reqID
             (if ID resp = reqID \<or> ID resp = -1 then b @ Body resp else b) False c')"
  by pat_completeness auto
termination
  by (relation "measure (\<lambda>(q, b, f, c). conn_left c)")
    (auto dest!: conn_left_Ok conn_left_setIdleDeadline)

declare readIdleDrain.simps [simp del]

subsection \<open>Execute\<close>

definition Conn_Execute :: "ctx \<Rightarrow> bytes \<Rightarrow> Conn \<Rightarrow> bytes gores \<times> Conn" where
  "Conn_Execute cx command c =
     (if c_closed c then (Err ErrClosed, c)
      else if command = [] then (Err ErrCommandEmpty, c)
      else if maxCommandLen (c_set c) > 0 \<and> int (length command) > maxCommandLen (c_set c)
        then (Err ErrCommandTooLong, c)
      else
        andThen (case applyContextDeadline cx (deadline (c_set c)) (c_conn c) of
                   (x, s) \<Rightarrow> (x, with_sock s c)) (\<lambda>_ c.
        let (reqID, c) = nextID c in
        andThen (conn_WriteTo \<lparr>ID = reqID, Type = TypeExecCommand, Body = command\<rparr> c) (\<lambda>_ c.
        case mode (c_set c) of
          readSingle \<Rightarrow> readSinglePacket reqID c
        | readIdle \<Rightarrow> readIdleDrain reqID [] True c
        | readMulti \<Rightarrow>
            (let (sentinelID, c) = nextID c in
             andThen (conn_WriteTo \<lparr>ID = sentinelID, Type = TypeResponseValue, Body = []\<rparr> c)
               (\<lambda>_ c. readMultiPacket reqID sentinelID [] c)))))"

lemmas [conn_defs] = conn_ReadFrom_def conn_WriteTo_def with_sock_def nextID_def
  applyContextDeadline_def rcon_open_def Conn_Close_def authenticate_def

end
