(* ===== verification/Rcon_Read.thy ===== *)
theory Rcon_Read
  imports Rcon_Conn "HOL-Library.Sublist"
begin

text \<open>
  How the three read modes of \<^verbatim>\<open>src/rcon/conn.go\<close> turn a stream of packets into a
  response. Each loop is shown to refine a function on packet lists, for every way the
  network cuts the stream into segments and whatever the buffer holds: the multi- and
  single-packet modes on the bytes that come before the deadline of the call, read-until-idle
  on bytes with the instants at which they can be read, since it moves its deadline.
\<close>

subsection \<open>Concrete connections\<close>

text \<open>A connection just authenticated on a fresh socket, for evaluating the operations on concrete inputs.\<close>

definition opened :: "rcon_Option list \<Rightarrow> (time \<times> rx) list \<Rightarrow> Conn" where
  "opened opts es = \<lparr>c_br = \<lparr>buffered = [], under = fresh_sock es\<rparr>, c_set = newSettings opts,
     c_closed = False, c_id = 1\<rparr>"

subsection \<open>Packet streams\<close>

definition conn_pending :: "Conn \<Rightarrow> bytes" where
  "conn_pending c = bufr_pending (c_br c)"

abbreviation conn_final :: "Conn \<Rightarrow> bytes gores" where
  "conn_final c \<equiv> bufr_final (c_br c)"

text \<open>What reading leaves alone, and what it does to the clock.\<close>

definition read_frame :: "Conn \<Rightarrow> Conn \<Rightarrow> bool" where
  "read_frame c c' \<longleftrightarrow>
     c_set c' = c_set c \<and> c_closed c' = c_closed c \<and> c_id c' = c_id c
     \<and> outbound (c_conn c') = outbound (c_conn c) \<and> txs (c_conn c') = txs (c_conn c)
     \<and> rdeadline (c_conn c') = rdeadline (c_conn c) \<and> wdeadline (c_conn c') = wdeadline (c_conn c)
     \<and> sclosed (c_conn c') = sclosed (c_conn c) \<and> clock (c_conn c) \<le> clock (c_conn c')
     \<and> (\<forall>d. rdeadline (c_conn c) = Some d \<longrightarrow> clock (c_conn c') \<le> max (clock (c_conn c)) d)"

lemma read_frame_refl [simp]: "read_frame c c"
  by (simp add: read_frame_def)

lemma read_frame_trans [trans]: "read_frame a b \<Longrightarrow> read_frame b c \<Longrightarrow> read_frame a c"
  by (fastforce simp: read_frame_def)

lemma ReadFrom_sock_frame:
  assumes "\<And>n s. P s \<Longrightarrow> P (snd (sock_read n s))" "P (under b)"
  shows "P (under (snd (Packet_ReadFrom bufio_read b)))"
proof -
  have "P (under (snd (bufio_read n r)))" if "P (under r)" for n r
    by (rule bufio_read_keeps [of P, OF assms(1) that])
  then show ?thesis
    using assms(2) by (rule ReadFrom_keeps [where P = "\<lambda>b. P (under b)"])
qed

lemma conn_ReadFrom_frame:
  assumes "conn_ReadFrom c = (x, c')"
  shows "read_frame c c'"
proof -
  let ?s = "c_conn c"
  have "outbound s' = outbound ?s \<and> txs s' = txs ?s \<and> rdeadline s' = rdeadline ?s
      \<and> wdeadline s' = wdeadline ?s \<and> sclosed s' = sclosed ?s \<and> clock ?s \<le> clock s'
      \<and> (\<forall>d. rdeadline ?s = Some d \<longrightarrow> clock s' \<le> max (clock ?s) d)"
    if "s' = under (snd (Packet_ReadFrom bufio_read (c_br c)))" for s'
    unfolding that
  proof (rule ReadFrom_sock_frame, goal_cases)
    case (1 n s)
    then show ?case
      using sock_read_clock(1) [of s n] sock_read_clock(2) [of s _ n] by fastforce
  qed auto
  with assms show ?thesis
    by (auto simp: conn_ReadFrom_def read_frame_def split: prod.splits)
qed

lemma conn_ReadFrom_parse:
  "conn_ReadFrom c = (x, c') \<Longrightarrow>
     \<exists>n. parse_frame (conn_pending c) (conn_final c) = ((n, x), conn_pending c')
       \<and> conn_final c' = conn_final c"
  by (auto simp: conn_ReadFrom_def conn_pending_def split: prod.splits dest: brd.ReadFrom_parse)

lemma conn_ReadFrom_packet:
  assumes "conn_pending c = encode p @ st" "fits p"
  obtains c' where "conn_ReadFrom c = (Ok p, c')" "conn_pending c' = st"
    "conn_final c' = conn_final c" "read_frame c c'"
proof -
  obtain x c' where r: "conn_ReadFrom c = (x, c')" by fastforce
  from conn_ReadFrom_parse [OF r] assms conn_ReadFrom_frame [OF r] r show thesis
    by (auto intro!: that [of c'] simp: parse_encode)
qed

lemma conn_ReadFrom_end:
  assumes "conn_pending c = []"
  obtains c' where "conn_ReadFrom c = (dry_end [] (conn_final c), c')" "conn_pending c' = []"
    "conn_final c' = conn_final c" "read_frame c c'"
proof -
  obtain x c' where r: "conn_ReadFrom c = (x, c')" by fastforce
  from conn_ReadFrom_parse [OF r] assms conn_ReadFrom_frame [OF r] r show thesis
    by (auto intro!: that [of c'] simp: parse_frame_def)
qed

lemma conn_pending_buffered: "conn_pending c = [] \<Longrightarrow> buffered (c_br c) = []"
  by (simp add: conn_pending_def bufr_pending_def)

subsection \<open>Draining the mirror packet\<close>

lemma drain_frame: "drainSourceMirror c = (x, c') \<Longrightarrow> read_frame c c'"
proof (induction c arbitrary: x c' rule: drainSourceMirror.induct)
  case (1 c)
  show ?case
    using "1.prems" "1.IH" conn_ReadFrom_frame [of c]
    by (auto simp: drainSourceMirror.simps [of c] split: if_splits prod.splits res.splits
        intro: read_frame_trans)
qed

text \<open>If what follows the terminator is whole packets, draining takes some of them and stops.\<close>

lemma drain_frames:
  assumes "conn_pending c = frames ps" "\<forall>p \<in> set ps. fits p"
  shows "\<exists>c' qs. drainSourceMirror c = (Ok (), c') \<and> conn_pending c' = frames qs \<and> suffix qs ps
    \<and> conn_final c' = conn_final c"
  using assms
proof (induction ps arbitrary: c)
  case Nil
  then show ?case
    by (auto simp: drainSourceMirror.simps [of c] conn_pending_buffered intro!: exI [of _ "[]"])
next
  case (Cons p ps)
  show ?case
  proof (cases "buffered (c_br c) = []")
    case True
    with Cons.prems show ?thesis
      by (auto simp: drainSourceMirror.simps [of c] intro!: exI [of _ "p # ps"])
  next
    case False
    from Cons.prems obtain c1 where c1: "conn_ReadFrom c = (Ok p, c1)" "conn_pending c1 = frames ps"
      "conn_final c1 = conn_final c" by (auto elim: conn_ReadFrom_packet)
    with Cons.IH [of c1] Cons.prems False show ?thesis
      by (auto simp: drainSourceMirror.simps [of c] intro: suffix_ConsI)
  qed
qed

subsection \<open>Multi-packet responses\<close>

text \<open>
  The response as a function of the packets: bodies up to the terminator, or the mismatch
  before it; nothing if the stream ends first.
\<close>

fun multi_spec :: "int32 \<Rightarrow> int32 \<Rightarrow> bytes \<Rightarrow> Packet list \<Rightarrow> bytes gores option" where
  "multi_spec reqID sentinelID b [] = None"
| "multi_spec reqID sentinelID b (p # ps) =
     (if ID p = sentinelID then Some (Ok b)
      else if ID p \<noteq> reqID \<and> ID p \<noteq> -1 then Some (Err ErrResponseMismatch)
      else multi_spec reqID sentinelID (b @ Body p) ps)"

lemma readMultiPacket_refines:
  assumes "conn_pending c = frames ps" "\<forall>p \<in> set ps. fits p"
  shows "fst (readMultiPacket reqID sentinelID b c) =
    (case multi_spec reqID sentinelID b ps of Some r \<Rightarrow> r | None \<Rightarrow> dry_end [] (conn_final c))"
  using assms
proof (induction ps arbitrary: b c)
  case Nil
  then obtain c1 where "conn_ReadFrom c = (dry_end [] (conn_final c), c1)"
    by (auto elim: conn_ReadFrom_end)
  then show ?case
    by (auto simp: readMultiPacket.simps [of _ _ _ c] dry_end_def split: res.splits)
next
  case (Cons p ps)
  then obtain c1 where c1: "conn_ReadFrom c = (Ok p, c1)" "conn_pending c1 = frames ps"
    "conn_final c1 = conn_final c" by (auto elim: conn_ReadFrom_packet)
  from drain_frames [OF c1(2)] Cons.prems obtain c2 where "drainSourceMirror c1 = (Ok (), c2)"
    by auto
  with c1 Cons show ?case
    by (auto simp: readMultiPacket.simps [of _ _ _ c] split: option.split)
qed

lemma readMultiPacket_frame:
  "readMultiPacket reqID sentinelID b c = (x, c') \<Longrightarrow> read_frame c c'"
proof (induction reqID sentinelID b c arbitrary: x c' rule: readMultiPacket.induct)
  case (1 reqID sentinelID b c)
  show ?case
    using "1.prems" "1.IH" conn_ReadFrom_frame [of c] drain_frame
    by (auto simp: readMultiPacket.simps [of _ _ _ c] andThen_def
        split: if_splits prod.splits res.splits intro: read_frame_trans)
qed

lemma multi_spec_chunks:
  assumes "\<forall>p \<in> set ps. (ID p = reqID \<or> ID p = -1) \<and> ID p \<noteq> sentinelID" "ID s = sentinelID"
  shows "multi_spec reqID sentinelID b (ps @ s # qs) = Some (Ok (b @ concat (map Body ps)))"
  using assms by (induction ps arbitrary: b) auto

subsection \<open>Reading from the buffer alone\<close>

lemma ReadFull_buffered:
  assumes "0 < n" "n \<le> length (buffered b)"
  shows "io_ReadFull bufio_read n b = (Ok (take n (buffered b)), b\<lparr>buffered := drop n (buffered b)\<rparr>)"
proof -
  have r: "bufio_read n b = (Ok (take n (buffered b)), b\<lparr>buffered := drop n (buffered b)\<rparr>)"
    using assms by (auto simp: bufio_read_def)
  show ?thesis
    using assms r by (auto simp: io_ReadFull_def io_ReadFull_from.simps)
qed

lemma ReadFrom_buffered:
  assumes "buffered b = encode p @ x" "fits p"
  shows "Packet_ReadFrom bufio_read b = ((length (encode p), Ok p), b\<lparr>buffered := x\<rparr>)"
proof -
  let ?b1 = "b\<lparr>buffered := drop 4 (buffered b)\<rparr>"
  have "io_ReadFull bufio_read 4 b = (Ok (take 4 (encode p)), ?b1)"
    using ReadFull_buffered [of 4 b] assms(1) by simp
  moreover have sz: "unat (Uint32 (take 4 (encode p))) = 10 + length (Body p)"
    using fits_size [OF assms(2)] by (simp add: encode_split)
  moreover have "io_ReadFull bufio_read (10 + length (Body p)) ?b1
      = (Ok (drop 4 (encode p)), b\<lparr>buffered := x\<rparr>)"
    using ReadFull_buffered [of "10 + length (Body p)" ?b1] assms(1) by simp
  moreover have "packet_of (drop 4 (encode p)) = p"
    using packet_of_fields [of "replicate 2 (CHR 0x00)" "ID p" "Type p" "Body p"]
    by (simp add: encode_split)
  ultimately show ?thesis
    using assms(2) by (simp add: Packet_ReadFrom_def word_less_nat_alt Let_def packet_sizes fits_def)
qed

text \<open>Draining whole packets that sit in the buffer touches no socket, so it cannot block.\<close>

lemma drain_buffered_frames:
  assumes "buffered (c_br c) = frames ps" "\<forall>p \<in> set ps. fits p"
  shows "drainSourceMirror c = (Ok (), c\<lparr>c_br := (c_br c)\<lparr>buffered := []\<rparr>\<rparr>)"
  using assms
proof (induction ps arbitrary: c)
  case Nil
  then show ?case by (simp add: drainSourceMirror.simps)
next
  case (Cons p ps)
  then have "conn_ReadFrom c = (Ok p, c\<lparr>c_br := (c_br c)\<lparr>buffered := frames ps\<rparr>\<rparr>)"
    using ReadFrom_buffered [of "c_br c" p] by (simp add: conn_ReadFrom_def)
  moreover have "encode p \<noteq> []" by (metis add_is_0 length_encode list.size(3) zero_neq_numeral)
  ultimately show ?case
    using Cons by (simp add: drainSourceMirror.simps [of c])
qed

text \<open>But a buffered part of a packet sends it back to the socket, and there it waits.\<close>

lemma parse_frame_partial:
  assumes "fits p" "k < length (encode p)" "0 < k" "fin \<noteq> Err IoEOF"
  shows "\<exists>n. parse_frame (take k (encode p)) fin = ((n, dry_end [] fin), [])"
proof (cases "k < 4")
  case True
  then show ?thesis
    using assms by (auto simp: parse_frame_def dry_end_def split: res.splits)
next
  case False
  then show ?thesis
    using assms size_encode [of p] by (auto simp: parse_frame_def Let_def packet_sizes fits_def dry_end_def split: res.splits)
qed

text \<open>C38: draining the mirror packet can block: if the buffer holds only the first part of a
  packet and the peer stays silent with no deadline set, \<^verbatim>\<open>drainSourceMirror\<close> does
  not return, although the response is complete.\<close>

theorem drain_partial_hangs:
  assumes "buffered (c_br c) = take k (encode p)" "0 < k" "k < length (encode p)" "fits p"
    "sock_pending (c_conn c) = []" "conn_final c = Hang"
  shows "fst (drainSourceMirror c) = Hang"
proof -
  have "conn_pending c = take k (encode p)"
    using assms by (simp add: conn_pending_def bufr_pending_def)
  moreover obtain x c' where r: "conn_ReadFrom c = (x, c')" by fastforce
  ultimately have "x = Hang"
    using conn_ReadFrom_parse [OF r] parse_frame_partial [of p k Hang] assms
    by (auto simp: dry_end_def)
  moreover have "buffered (c_br c) \<noteq> []"
    using assms by (auto simp: encode_def PutUint32_def)
  ultimately show ?thesis
    using r by (simp add: drainSourceMirror.simps [of c])
qed

theorem drain_partial_hangs_witness:
  "fst (drainSourceMirror ((opened [WithDeadline 0] [])\<lparr>c_br := \<lparr>buffered = take 9 (encode (reply 3 ''abc'')),
     under = fresh_sock []\<rparr>\<rparr>)) = Hang"
proof -
  let ?c = "(opened [WithDeadline 0] [])\<lparr>c_br := \<lparr>buffered = take 9 (encode (reply 3 ''abc'')),
     under = fresh_sock []\<rparr>\<rparr>"
  have "buffered (c_br ?c) = take 9 (encode (reply 3 ''abc''))" "0 < (9 :: nat)"
    "9 < length (encode (reply 3 ''abc''))" "fits (reply 3 ''abc'')"
    "sock_pending (c_conn ?c) = []" "conn_final ?c = Hang"
    by code_simp+
  then show ?thesis by (rule drain_partial_hangs)
qed

subsection \<open>One packet per response\<close>

definition single_spec :: "int32 \<Rightarrow> Packet \<Rightarrow> bytes gores" where
  "single_spec reqID p =
     (if ID p = reqID \<or> ID p = -1 then Ok (Body p) else Err ErrResponseMismatch)"

lemma readSinglePacket_refines:
  assumes "conn_pending c = frames (p # ps)" "fits p"
  obtains c' where "readSinglePacket reqID c = (single_spec reqID p, c')"
    "conn_pending c' = frames ps" "read_frame c c'"
proof -
  from assms obtain c1 where "conn_ReadFrom c = (Ok p, c1)" "conn_pending c1 = frames ps"
    "read_frame c c1" by (auto elim: conn_ReadFrom_packet)
  then show thesis
    by (intro that [of c1]) (auto simp: readSinglePacket_def single_spec_def)
qed

subsection \<open>Reading until idle\<close>

text \<open>A segment that is one whole packet is read by one \<^verbatim>\<open>ReadFrom\<close>, and exactly it.\<close>

lemma ReadFull_step:
  assumes "rd n r = (Ok d, r')" "d \<noteq> []" "0 < n"
  shows "io_ReadFull_from rd n acc r = io_ReadFull_from rd (n - length d) (acc @ d) r'"
  using assms by (simp add: io_ReadFull_from.simps [of rd n])


lemma packet_of_encode [simp]: "packet_of (drop 4 (encode p)) = p"
  using packet_of_fields [of "replicate 2 (CHR 0x00)" "ID p" "Type p" "Body p"]
  by (simp add: encode_split)

lemma sock_read_segment:
  assumes "\<not> sclosed s" "\<not> expired (rdeadline s) (clock s)" "inbound s = (t, RxData d) # rest"
    "d \<noteq> []" "\<not> expired (rdeadline s) t"
  shows "sock_read n s = (Ok (take n d), s\<lparr>clock := max (clock s) t,
      inbound := (if length d \<le> n then rest else (t, RxData (drop n d)) # rest)\<rparr>)"
  using assms by (simp add: sock_read_def)

lemma ReadFrom_segment:
  assumes op: "\<not> sclosed s" "\<not> expired (rdeadline s) (clock s)" "\<not> expired (rdeadline s) t"
    and s: "inbound s = (t, RxData (encode p)) # rest" and p: "fits p"
  shows "Packet_ReadFrom bufio_read \<lparr>buffered = [], under = s\<rparr> =
    ((length (encode p), Ok p), \<lparr>buffered = [], under = s\<lparr>clock := max (clock s) t, inbound := rest\<rparr>\<rparr>)"
proof -
  define e where "e = encode p"
  define s2 where "s2 = s\<lparr>clock := max (clock s) t, inbound := rest\<rparr>"
  define s1 where "s1 = s\<lparr>clock := max (clock s) t,
    inbound := (if length e \<le> 4096 then rest else (t, RxData (drop 4096 e)) # rest)\<rparr>"
  have L: "14 \<le> length e" "length e \<le> 4110" "e \<noteq> []"
    using p by (simp_all add: e_def fits_def MaxPayloadSize_def)
  have r1: "sock_read 4096 s = (Ok (take 4096 e), s1)"
    using sock_read_segment [OF op(1,2) s _ op(3)] by (simp add: e_def s1_def)
  have r2: "sock_read 4096 s1 = (Ok (drop 4096 e), s2)" if "4096 < length e"
    using sock_read_segment [of s1 t "drop 4096 e" rest 4096] op that L by (simp add: s1_def s2_def)
  let ?b1 = "\<lparr>buffered = drop 4 (take 4096 e), under = s1\<rparr>"
  have f1: "io_ReadFull bufio_read 4 \<lparr>buffered = [], under = s\<rparr> = (Ok (take 4 e), ?b1)"
    using L r1 ReadFull_step [of bufio_read 4 "\<lparr>buffered = [], under = s\<rparr>" "take 4 e" ?b1]
    by (simp add: io_ReadFull_def bufio_read_def bufio_size_def io_ReadFull_from.simps min_def)
  have f2: "io_ReadFull bufio_read (length e - 4) ?b1 = (Ok (drop 4 e), \<lparr>buffered = [], under = s2\<rparr>)"
  proof -
    let ?d = "drop 4 (take 4096 e)" and ?b2 = "\<lparr>buffered = [], under = s1\<rparr>"
    have "bufio_read (length e - 4) ?b1 = (Ok ?d, ?b2)" and "?d \<noteq> []"
      using L by (auto simp: bufio_read_def)
    from ReadFull_step [of bufio_read, OF this, of "[]"] L
    have "io_ReadFull bufio_read (length e - 4) ?b1 = io_ReadFull_from bufio_read (length e - 4096) ?d ?b2"
      by (cases "length e \<le> 4096") (simp_all add: io_ReadFull_def)
    also have "\<dots> = (Ok (drop 4 e), \<lparr>buffered = [], under = s2\<rparr>)"
    proof (cases "length e \<le> 4096")
      case True
      then show ?thesis by (simp add: io_ReadFull_from.simps s1_def s2_def)
    next
      case False
      moreover have "\<not> 4096 \<le> length e - 4096" using L by linarith
      ultimately have "bufio_read (length e - 4096) ?b2 = (Ok (drop 4096 e), \<lparr>buffered = [], under = s2\<rparr>)"
        using r2 by (simp add: bufio_read_def bufio_size_def)
      from ReadFull_step [of bufio_read, OF this] False append_take_drop_id [of 4092 "drop 4 e"]
      show ?thesis by (simp add: io_ReadFull_from.simps drop_take)
    qed
    finally show ?thesis .
  qed
  have "unat (Uint32 (take 4 e)) = length e - 4"
    using size_encode [OF p] by (simp add: e_def)
  then show ?thesis
    using f1 f2 L p by (simp add: Packet_ReadFrom_def word_less_nat_alt Let_def packet_sizes e_def s2_def)
qed


lemma conn_ReadFrom_segment:
  assumes "buffered (c_br c) = []" "\<not> sclosed (c_conn c)" "\<not> expired (rdeadline (c_conn c)) (clock (c_conn c))"
    "\<not> expired (rdeadline (c_conn c)) t" "inbound (c_conn c) = (t, RxData (encode p)) # rest" "fits p"
  shows "conn_ReadFrom c =
    (Ok p, with_sock ((c_conn c)\<lparr>clock := max (clock (c_conn c)) t, inbound := rest\<rparr>) c)"
proof -
  obtain s where br: "c_br c = \<lparr>buffered = [], under = s\<rparr>"
    using assms(1) by (cases "c_br c") simp
  with assms ReadFrom_segment [of s t p rest] show ?thesis
    by (simp add: conn_ReadFrom_def with_sock_def)
qed

text \<open>A burst in the simplest case, each packet a segment of its own, for the time an idle read takes: each
  follows the one before within the window \<open>w\<close>, from the instant \<open>t\<close> on.\<close>

type_synonym arrival = "time \<times> Packet"

fun segment :: "arrival \<Rightarrow> time \<times> rx" where
  "segment (u, p) = (u, RxData (encode p))"

fun burst :: "duration \<Rightarrow> time \<Rightarrow> arrival list \<Rightarrow> bool" where
  "burst w t [] = True"
| "burst w t ((u, p) # es) \<longleftrightarrow> u < t + w \<and> fits p \<and> burst w (max t u) es"

definition burst_end :: "time \<Rightarrow> arrival list \<Rightarrow> time" where
  "burst_end t es = fold (\<lambda>e x. max x (fst e)) es t"

text \<open>
  A burst in general: bytes with the instants at which they can be read, buffered or still on
  the way and cut in any manner, that are the given packets, each complete within the window
  from the instant the one before was complete. Afterwards it is quiet if no byte comes within
  the window, and the stream, if it ends then, ends orderly.
\<close>

definition conn_stamps :: "Conn \<Rightarrow> (time \<times> char) list" where
  "conn_stamps c = bufr_stamps (c_br c)"

abbreviation conn_tail :: "Conn \<Rightarrow> (time \<times> rx) list" where
  "conn_tail c \<equiv> rx_tail (inbound (c_conn c))"

fun paced :: "duration \<Rightarrow> time \<Rightarrow> Packet list \<Rightarrow> (time \<times> char) list \<Rightarrow> bool" where
  "paced w t [] A \<longleftrightarrow> A = []"
| "paced w t (p # ps) A \<longleftrightarrow>
     (let P = take (length (encode p)) A in
      fits p \<and> map snd P = encode p \<and> (\<forall>e \<in> set P. fst e < t + w)
      \<and> paced w (last_at t P) ps (drop (length (encode p)) A))"

definition settles :: "duration \<Rightarrow> time \<Rightarrow> (time \<times> char) list \<Rightarrow> (time \<times> rx) list \<Rightarrow> bool" where
  "settles w t B end \<longleftrightarrow>
     (if B = [] then rx_final (Some (t + w)) end \<in> {Err (NetError IOTimeout), Err IoEOF}
      else t + w \<le> fst (hd B))"

definition idle_spec :: "int32 \<Rightarrow> Packet list \<Rightarrow> bytes" where
  "idle_spec reqID ps = concat (map Body (filter (\<lambda>p. ID p = reqID \<or> ID p = -1) ps))"

lemma conn_ReadFrom_timed:
  assumes "conn_stamps c = A @ B" "map snd A = encode p" "fits p" "\<forall>e \<in> set A. sock_alive (c_conn c) (fst e)"
  obtains c' where "conn_ReadFrom c = (Ok p, c')" "conn_stamps c' = B"
    "clock (c_conn c') = last_at (clock (c_conn c)) A" "conn_tail c' = conn_tail c" "read_frame c c'"
proof -
  have "bufr_stamps (c_br c) = A @ B" using assms(1) by (simp add: conn_stamps_def)
  from brt.timed_ReadFrom [OF this assms(2-4)] obtain b where
    b: "Packet_ReadFrom bufio_read (c_br c) = ((length (encode p), Ok p), b)" "bufr_stamps b = B"
      "clock (under b) = last_at (clock (c_conn c)) A" "rx_tail (inbound (under b)) = conn_tail c"
    by blast
  then have r: "conn_ReadFrom c = (Ok p, c\<lparr>c_br := b\<rparr>)" by (simp add: conn_ReadFrom_def)
  show thesis
    using that [OF r] b conn_ReadFrom_frame [OF r] by (simp add: conn_stamps_def)
qed

text \<open>The connection with the idle deadline set.\<close>

definition idling :: "Conn \<Rightarrow> Conn" where
  "idling c = with_sock ((c_conn c)\<lparr>rdeadline := Some (clock (c_conn c) + idleWindow (c_set c))\<rparr>) c"

lemma idling_simps [simp]:
  "conn_stamps (idling c) = conn_stamps c" "conn_tail (idling c) = conn_tail c" "c_set (idling c) = c_set c"
  "clock (c_conn (idling c)) = clock (c_conn c)" "sclosed (c_conn (idling c)) = sclosed (c_conn c)"
  by (simp_all add: idling_def with_sock_def conn_stamps_def bufr_stamps_def sock_stamps_def)

lemma setIdleDeadline_idling: "\<not> sclosed (c_conn c) \<Longrightarrow> setIdleDeadline False c = (Ok (), idling c)"
  by (simp add: setIdleDeadline_def sock_SetReadDeadline_def idling_def)

lemma idling_alive:
  "\<not> sclosed (c_conn c) \<Longrightarrow> 0 < idleWindow (c_set c) \<Longrightarrow>
    sock_alive (c_conn (idling c)) u \<longleftrightarrow> u < clock (c_conn c) + idleWindow (c_set c)"
  by (auto simp: sock_alive_def idling_def with_sock_def expired_def)

lemma conn_ReadFrom_quiet:
  assumes "\<not> sclosed (c_conn c)" "0 < idleWindow (c_set c)"
    "settles (idleWindow (c_set c)) (clock (c_conn c)) (conn_stamps c) (conn_tail c)"
  obtains c' e where "conn_ReadFrom (idling c) = (Err e, c')" "isIdleTimeout e \<or> errors_Is e IoEOF"
proof -
  let ?t = "clock (c_conn c)" and ?d = "clock (c_conn c) + idleWindow (c_set c)" and ?es = "inbound (c_conn c)"
  have "buffered (c_br c) = []"
  proof (rule ccontr)
    assume "buffered (c_br c) \<noteq> []"
    then have "conn_stamps c \<noteq> []" "fst (hd (conn_stamps c)) = ?t"
      by (simp_all add: conn_stamps_def bufr_stamps_def hd_append hd_map)
    with assms(2,3) show False by (simp add: settles_def)
  qed
  then have st: "conn_stamps c = rx_stamps ?t ?es" by (simp add: conn_stamps_def bufr_stamps_def sock_stamps_def)
  then have late: "rx_stamps ?t ?es = [] \<or> ?d \<le> fst (hd (rx_stamps ?t ?es))"
    using assms(3) by (auto simp: settles_def split: if_splits)
  have lt: "?t < ?d" using assms(2) by simp
  have p: "conn_pending (idling c) = []" "conn_final (idling c) = rx_final (Some ?d) ?es"
    using rx_late(1) [OF lt late] \<open>buffered (c_br c) = []\<close> assms(1,2)
    by (simp_all add: conn_pending_def bufr_pending_def sock_pending_def sock_final_def idling_def with_sock_def expired_def)
  have "conn_final (idling c) = Err (NetError IOTimeout) \<or> conn_final (idling c) = Err IoEOF"
    using p(2) rx_late(2) [OF lt late] assms(3) st by (auto simp: settles_def split: if_splits)
  then obtain e where e: "conn_final (idling c) = Err e" "isIdleTimeout e \<or> errors_Is e IoEOF"
    by (auto simp: isIdleTimeout_def)
  from p(1) obtain c' where "conn_ReadFrom (idling c) = (dry_end [] (conn_final (idling c)), c')"
    by (rule conn_ReadFrom_end)
  with e show thesis by (auto simp: dry_end_def intro: that)
qed

lemma idle_rest:
  assumes "\<not> sclosed (c_conn c)" "0 < idleWindow (c_set c)" "conn_stamps c = A @ B"
    "paced (idleWindow (c_set c)) (clock (c_conn c)) ps A"
    "settles (idleWindow (c_set c)) (last_at (clock (c_conn c)) A) B (conn_tail c)"
  shows "fst (readIdleDrain reqID b False c) = Ok (b @ idle_spec reqID ps)"
  using assms
proof (induction ps arbitrary: b c A)
  case Nil
  then obtain c' e where "conn_ReadFrom (idling c) = (Err e, c')" "isIdleTimeout e \<or> errors_Is e IoEOF"
    by (auto elim: conn_ReadFrom_quiet)
  with Nil.prems(1) show ?case
    by (auto simp: readIdleDrain.simps [of _ _ _ c] setIdleDeadline_idling idle_spec_def)
next
  case (Cons p ps)
  define P Q where "P = take (length (encode p)) A" and "Q = drop (length (encode p)) A"
  have A: "A = P @ Q" by (simp add: P_def Q_def)
  have P: "fits p" "map snd P = encode p" "\<forall>e \<in> set P. fst e < clock (c_conn c) + idleWindow (c_set c)"
    "paced (idleWindow (c_set c)) (last_at (clock (c_conn c)) P) ps Q"
    using Cons.prems(4) by (simp_all add: Let_def P_def Q_def)
  have st: "conn_stamps (idling c) = P @ Q @ B" using Cons.prems(3) A by simp
  have al: "\<forall>e \<in> set P. sock_alive (c_conn (idling c)) (fst e)"
    using P(3) idling_alive [OF Cons.prems(1,2)] by simp
  obtain c1 where c1: "conn_ReadFrom (idling c) = (Ok p, c1)" "conn_stamps c1 = Q @ B"
    "clock (c_conn c1) = last_at (clock (c_conn c)) P" "conn_tail c1 = conn_tail c" "read_frame (idling c) c1"
    by (rule conn_ReadFrom_timed [OF st P(2,1) al]) simp
  then have "c_set c1 = c_set c" "\<not> sclosed (c_conn c1)"
    using Cons.prems(1) by (simp_all add: read_frame_def)
  with c1 P(4) Cons.prems(2,5) A have "fst (readIdleDrain reqID b' False c1) = Ok (b' @ idle_spec reqID ps)" for b'
    by (intro Cons.IH [where A = Q]) (simp_all add: last_at_append)
  with c1(1) Cons.prems(1) show ?case
    by (simp add: readIdleDrain.simps [of _ _ _ c] setIdleDeadline_idling idle_spec_def)
qed

lemma readIdleDrain_burst:
  assumes "0 < idleWindow (c_set c)" "conn_stamps c = P @ A @ B" "map snd P = encode p" "fits p"
    "\<forall>e \<in> set P. sock_alive (c_conn c) (fst e)"
    "paced (idleWindow (c_set c)) (last_at (clock (c_conn c)) P) ps A"
    "settles (idleWindow (c_set c)) (last_at (clock (c_conn c)) (P @ A)) B (conn_tail c)"
  shows "fst (readIdleDrain reqID [] True c) = Ok (idle_spec reqID (p # ps))"
proof -
  obtain c1 where c1: "conn_ReadFrom c = (Ok p, c1)" "conn_stamps c1 = A @ B"
    "clock (c_conn c1) = last_at (clock (c_conn c)) P" "conn_tail c1 = conn_tail c" "read_frame c c1"
    by (rule conn_ReadFrom_timed [OF assms(2-5)])
  have "P \<noteq> []" using assms(3) by (auto simp: encode_def PutUint32_def)
  then have "sock_alive (c_conn c) (fst (hd P))" using assms(5) by simp
  then have "c_set c1 = c_set c" "\<not> sclosed (c_conn c1)"
    using c1(5) by (auto simp: read_frame_def sock_alive_def)
  with c1 assms(1,6,7) have "fst (readIdleDrain reqID b False c1) = Ok (b @ idle_spec reqID ps)" for b
    by (intro idle_rest [where A = A]) (simp_all add: last_at_append)
  with c1(1) show ?thesis
    by (simp add: readIdleDrain.simps [of _ _ _ c] setIdleDeadline_def idle_spec_def)
qed

end
