(* ===== verification/Rcon_Exec.thy ===== *)
theory Rcon_Exec
  imports Rcon_Read
begin

text \<open>
  Properties of the connection as a whole: request ids, the authentication handshake,
  \<^verbatim>\<open>Execute\<close> in its three modes, its deadlines, and \<^verbatim>\<open>Close\<close>.
\<close>

subsection \<open>Writing\<close>

definition writable :: "sock \<Rightarrow> bool" where
  "writable s \<longleftrightarrow> \<not> sclosed s \<and> txs s = [] \<and> \<not> expired (wdeadline s) (clock s)"

definition sends :: "Packet \<Rightarrow> Conn \<Rightarrow> Conn" where
  "sends p c = with_sock ((c_conn c)\<lparr>outbound := outbound (c_conn c) @ encode p\<rparr>) c"

lemma conn_WriteTo_writable: "writable (c_conn c) \<Longrightarrow> conn_WriteTo p c = (Ok (), sends p c)"
  by (simp add: conn_WriteTo_def Packet_WriteTo_def sock_write_def writable_def sends_def)

lemma with_sock_simps [simp]:
  "c_conn (with_sock s c) = s" "buffered (c_br (with_sock s c)) = buffered (c_br c)"
  "c_set (with_sock s c) = c_set c" "c_closed (with_sock s c) = c_closed c" "c_id (with_sock s c) = c_id c"
  "with_sock s (with_sock s' c) = with_sock s c"
  by (simp_all add: with_sock_def)

lemma sends_simps [simp]:
  "conn_pending (sends p c) = conn_pending c" "conn_final (sends p c) = conn_final c"
  "c_set (sends p c) = c_set c" "c_id (sends p c) = c_id c" "c_closed (sends p c) = c_closed c"
  "writable (c_conn (sends p c)) = writable (c_conn c)"
  "outbound (c_conn (sends p c)) = outbound (c_conn c) @ encode p"
  "buffered (c_br (sends p c)) = buffered (c_br c)" "inbound (c_conn (sends p c)) = inbound (c_conn c)"
  "clock (c_conn (sends p c)) = clock (c_conn c)" "rdeadline (c_conn (sends p c)) = rdeadline (c_conn c)"
  "sclosed (c_conn (sends p c)) = sclosed (c_conn c)" "wdeadline (c_conn (sends p c)) = wdeadline (c_conn c)"
  by (simp_all add: sends_def conn_pending_def bufr_pending_def sock_pending_def sock_final_def writable_def)

subsection \<open>Request ids\<close>

text \<open>The id after \<open>i\<close>, apart from the connection that counts.\<close>

definition next_id :: "int32 \<Rightarrow> int32" where
  "next_id i = (if sint (i + 1) \<le> 0 then 1 else i + 1)"

lemma nextID_eq [simp]: "nextID c = (next_id (c_id c), c\<lparr>c_id := next_id (c_id c)\<rparr>)"
  by (simp add: nextID_def next_id_def Let_def)

lemma conn_pending_id [simp]: "conn_pending (c\<lparr>c_id := i\<rparr>) = conn_pending c"
  by (simp add: conn_pending_def)

lemma next_id_positive: "0 < sint (next_id i)"
  by (simp add: next_id_def not_le)

lemma next_id_not_minus1 [simp]: "next_id i \<noteq> -1"
  using next_id_positive [of i] by auto

lemma next_id_differs [simp]: "next_id (next_id i) \<noteq> next_id i"
proof -
  have "w + 1 \<noteq> w" for w :: int32 by simp
  moreover have "sint (next_id i + 1) \<le> 0 \<Longrightarrow> next_id i \<noteq> 1" by auto
  ultimately show ?thesis
    by (auto simp: next_id_def [of "next_id i"])
qed

text \<open>C39: request ids are positive, so never the \<open>-1\<close> of a rejected login, and the
  terminator's id differs from the request's.\<close>

theorem nextID_sound:
  "1 \<le> sint (fst (nextID c)) \<and> sint (fst (nextID c)) < 2 ^ 31 \<and> fst (nextID c) \<noteq> -1
   \<and> fst (nextID (snd (nextID c))) \<noteq> fst (nextID c)"
  using next_id_positive [of "c_id c"] sint_lt [of "next_id (c_id c)"]
  by simp

subsection \<open>Authentication\<close>

definition auth_check :: "Packet \<Rightarrow> unit gores" where
  "auth_check p =
     (if Type p \<noteq> TypeAuthResponse then Err ErrInvalidAuthResponse
      else if ID p = -1 then Err ErrAuthFailed else Ok ())"

text \<open>What the packets of the server decide: an optional leading empty response, then the
  verdict. \<open>None\<close>: the stream ended before.\<close>

fun auth_spec :: "Packet list \<Rightarrow> unit gores option" where
  "auth_spec [] = None"
| "auth_spec [p] = (if Type p = TypeResponseValue then None else Some (auth_check p))"
| "auth_spec (p # q # ps) = Some (auth_check (if Type p = TypeResponseValue then q else p))"

definition auth_request :: "bytes \<Rightarrow> Conn \<Rightarrow> Packet" where
  "auth_request password c = \<lparr>ID = fst (nextID c), Type = TypeAuth, Body = password\<rparr>"

lemma authenticate_writes:
  "writable (c_conn c) \<Longrightarrow> authenticate password c =
     andThen (conn_ReadFrom (sends (auth_request password c) (snd (nextID c)))) (\<lambda>resp c.
      andThen (if Type resp = TypeResponseValue then conn_ReadFrom c else (Ok resp, c))
       (\<lambda>resp c. (auth_check resp, c)))"
  by (auto simp: authenticate_def auth_check_def auth_request_def split_beta conn_WriteTo_writable
      intro!: arg_cong2 [where f = andThen] ext)

lemma authenticate_verdict:
  assumes "writable (c_conn c)" "conn_pending c = frames ps" "\<forall>p \<in> set ps. fits p"
  shows "fst (authenticate password c) =
    (case auth_spec ps of Some r \<Rightarrow> r | None \<Rightarrow> dry_end [] (conn_final c))"
proof -
  let ?c = "sends (auth_request password c) (snd (nextID c))"
  have pend: "conn_pending ?c = frames ps" and fin: "conn_final ?c = conn_final c"
    using assms(2) by simp_all
  show ?thesis
  proof (cases ps)
    case Nil
    then obtain c1 where "conn_ReadFrom ?c = (dry_end [] (conn_final ?c), c1)"
      using pend conn_ReadFrom_end [of ?c] by auto
    with Nil fin show ?thesis
      by (auto simp: authenticate_writes [OF assms(1)] dry_end_def split: res.splits)
  next
    case (Cons p qs)
    then obtain c1 where c1: "conn_ReadFrom ?c = (Ok p, c1)" "conn_pending c1 = frames qs"
      "conn_final c1 = conn_final ?c"
      using pend assms(3) conn_ReadFrom_packet [of ?c p "frames qs"] by auto
    show ?thesis
    proof (cases qs)
      case Nil
      with c1 obtain c2 where "conn_ReadFrom c1 = (dry_end [] (conn_final c1), c2)"
        by (auto elim: conn_ReadFrom_end)
      with c1 Nil Cons fin show ?thesis
        by (auto simp: authenticate_writes [OF assms(1)] dry_end_def split: res.splits)
    next
      case (Cons q rs)
      with c1 assms(3) \<open>ps = p # qs\<close> obtain c2 where "conn_ReadFrom c1 = (Ok q, c2)"
        by (auto elim: conn_ReadFrom_packet)
      with c1 Cons \<open>ps = p # qs\<close> show ?thesis
        by (auto simp: authenticate_writes [OF assms(1)])
    qed
  qed
qed

lemma conn_ReadFrom_outbound: "outbound (c_conn (snd (conn_ReadFrom c))) = outbound (c_conn c)"
  using conn_ReadFrom_frame [of c] by (metis prod.collapse read_frame_def)

lemma authenticate_sends:
  assumes "writable (c_conn c)"
  shows "outbound (c_conn (snd (authenticate password c))) = outbound (c_conn c) @ encode (auth_request password c)"
proof -
  let ?c = "sends (auth_request password c) (snd (nextID c))"
  have "outbound (c_conn (snd (authenticate password c))) = outbound (c_conn ?c)"
    unfolding authenticate_writes [OF assms]
    by (intro andThen_keeps [where P = "\<lambda>c'. outbound (c_conn c') = outbound (c_conn ?c)"])
      (auto simp: conn_ReadFrom_outbound)
  then show ?thesis by simp
qed

text \<open>C32: the login succeeds exactly if the server's verdict, its first packet or the one
  after a leading \<^verbatim>\<open>RESPONSE_VALUE\<close>, has the type of an auth response and an id
  other than \<open>-1\<close>; a verdict of another type and a rejected password have their own
  errors, and a stream that ends before the verdict gives the error of its end.\<close>

theorem authenticate_refines:
  assumes "writable (c_conn c)" "conn_pending c = frames ps" "\<forall>p \<in> set ps. fits p"
  shows "fst (authenticate password c) =
    (case auth_spec ps of Some r \<Rightarrow> r | None \<Rightarrow> dry_end [] (conn_final c))"
  using assms by (rule authenticate_verdict)

theorem authenticate_refines_witness:
  "fst (authenticate ''pw'' (opened [] [(5, RxData (frames [reply 1 [], \<lparr>ID = -1, Type = 2, Body = []\<rparr>]))]))
     = Err ErrAuthFailed"
proof -
  let ?ps = "[reply 1 [], \<lparr>ID = -1, Type = 2, Body = []\<rparr>]"
  let ?c = "opened [] [(5, RxData (frames ?ps))]"
  have h: "writable (c_conn ?c)" "conn_pending ?c = frames ?ps" "\<forall>p \<in> set ?ps. fits p"
    by code_simp+
  have "auth_spec ?ps = Some (Err ErrAuthFailed)" by code_simp
  with authenticate_refines [OF h] show ?thesis by simp
qed

subsection \<open>Deadlines\<close>

text \<open>The sooner of the per-operation deadline, if enabled, and the context's, if any.\<close>

definition effective_deadline :: "ctx \<Rightarrow> duration \<Rightarrow> time \<Rightarrow> time option" where
  "effective_deadline cx op now =
     (if op > 0 then
        Some (case ctx_Deadline cx of None \<Rightarrow> now + op | Some d \<Rightarrow> min d (now + op))
      else ctx_Deadline cx)"

lemma applyContextDeadline_open:
  "\<not> sclosed s \<Longrightarrow> applyContextDeadline cx op s =
     (Ok (), s\<lparr>rdeadline := effective_deadline cx op (clock s),
       wdeadline := effective_deadline cx op (clock s)\<rparr>)"
  by (auto simp: applyContextDeadline_def effective_deadline_def sock_SetDeadline_def Let_def
      split: option.splits)

lemma applyContextDeadline_closed:
  "sclosed s \<Longrightarrow> applyContextDeadline cx op s = (Err (NetError UseOfClosed), s)"
  by (simp add: applyContextDeadline_def sock_SetDeadline_def Let_def)

text \<open>The connection with the deadline of a call set.\<close>

definition armed :: "ctx \<Rightarrow> Conn \<Rightarrow> Conn" where
  "armed cx c = with_sock (snd (applyContextDeadline cx (deadline (c_set c)) (c_conn c))) c"

lemma armed_simps [simp]:
  "c_set (armed cx c) = c_set c" "c_id (armed cx c) = c_id c"
  "buffered (c_br (armed cx c)) = buffered (c_br c)"
  "clock (c_conn (armed cx c)) = clock (c_conn c)" "inbound (c_conn (armed cx c)) = inbound (c_conn c)"
  "outbound (c_conn (armed cx c)) = outbound (c_conn c)" "sclosed (c_conn (armed cx c)) = sclosed (c_conn c)"
  "txs (c_conn (armed cx c)) = txs (c_conn c)"
  by (simp_all add: armed_def applyContextDeadline_def sock_SetDeadline_def Let_def)

lemma armed_deadline:
  assumes "\<not> sclosed (c_conn c)"
  shows "rdeadline (c_conn (armed cx c)) = effective_deadline cx (deadline (c_set c)) (clock (c_conn c))"
    "wdeadline (c_conn (armed cx c)) = effective_deadline cx (deadline (c_set c)) (clock (c_conn c))"
  using assms by (simp_all add: armed_def applyContextDeadline_open)

subsection \<open>Execute\<close>

definition accepts :: "bytes \<Rightarrow> Conn \<Rightarrow> bool" where
  "accepts command c \<longleftrightarrow> \<not> c_closed c \<and> command \<noteq> []
     \<and> \<not> (maxCommandLen (c_set c) > 0 \<and> int (length command) > maxCommandLen (c_set c))"

definition ready :: "ctx \<Rightarrow> bytes \<Rightarrow> Conn \<Rightarrow> bool" where
  "ready cx command c \<longleftrightarrow> accepts command c \<and> writable (c_conn (armed cx c))"

definition exec_request :: "bytes \<Rightarrow> Conn \<Rightarrow> Packet" where
  "exec_request command c = \<lparr>ID = fst (nextID c), Type = TypeExecCommand, Body = command\<rparr>"

definition exec_sentinel :: "Conn \<Rightarrow> Packet" where
  "exec_sentinel c = \<lparr>ID = fst (nextID (snd (nextID c))), Type = TypeResponseValue, Body = []\<rparr>"

text \<open>The connection once the command, or the command and the terminator, are written.\<close>

definition commanded :: "ctx \<Rightarrow> bytes \<Rightarrow> Conn \<Rightarrow> Conn" where
  "commanded cx command c = sends (exec_request command c) (snd (nextID (armed cx c)))"

definition terminated :: "ctx \<Rightarrow> bytes \<Rightarrow> Conn \<Rightarrow> Conn" where
  "terminated cx command c = sends (exec_sentinel c) (snd (nextID (commanded cx command c)))"

lemma commanded_id [simp]: "c_id (commanded cx command c) = next_id (c_id c)"
  "c_set (commanded cx command c) = c_set c"
  by (simp_all add: commanded_def)

lemma Conn_Execute_ready:
  assumes "ready cx command c"
  shows "Conn_Execute cx command c =
    (case mode (c_set c) of
       readSingle \<Rightarrow> readSinglePacket (ID (exec_request command c)) (commanded cx command c)
     | readIdle \<Rightarrow> readIdleDrain (ID (exec_request command c)) [] True (commanded cx command c)
     | readMulti \<Rightarrow> readMultiPacket (ID (exec_request command c)) (ID (exec_sentinel c)) []
                     (terminated cx command c))"
proof -
  have w: "writable (c_conn (armed cx c))" and op: "\<not> sclosed (c_conn c)"
    using assms by (simp_all add: ready_def writable_def)
  have arm: "(case applyContextDeadline cx (deadline (c_set c)) (c_conn c) of (x, s) \<Rightarrow> (x, with_sock s c))
      = (Ok (), armed cx c)"
    using op by (simp add: armed_def applyContextDeadline_open)
  have w1: "conn_WriteTo (exec_request command c) (snd (nextID (armed cx c))) = (Ok (), commanded cx command c)"
    using w by (simp add: conn_WriteTo_writable commanded_def)
  have w2: "conn_WriteTo (exec_sentinel c) (snd (nextID (commanded cx command c)))
      = (Ok (), terminated cx command c)"
    using w by (simp add: conn_WriteTo_writable terminated_def commanded_def)
  show ?thesis
    using w1 w2 arm assms
    by (auto simp: Conn_Execute_def ready_def accepts_def exec_request_def exec_sentinel_def
        split: readMode.split)
qed

lemma commanded_simps [simp]:
  "conn_pending (commanded cx command c) = conn_pending (armed cx c)"
  "conn_final (commanded cx command c) = conn_final (armed cx c)"
  "outbound (c_conn (commanded cx command c)) = outbound (c_conn c) @ encode (exec_request command c)"
  by (simp_all add: commanded_def)

lemma terminated_simps [simp]:
  "conn_pending (terminated cx command c) = conn_pending (armed cx c)"
  "conn_final (terminated cx command c) = conn_final (armed cx c)"
  "outbound (c_conn (terminated cx command c)) =
     outbound (c_conn c) @ encode (exec_request command c) @ encode (exec_sentinel c)"
  by (simp_all add: terminated_def)

lemma Execute_multi:
  assumes "ready cx command c" "mode (c_set c) = readMulti"
    "conn_pending (armed cx c) = frames ps" "\<forall>p \<in> set ps. fits p"
  shows "fst (Conn_Execute cx command c) =
      (case multi_spec (ID (exec_request command c)) (ID (exec_sentinel c)) [] ps of
         Some r \<Rightarrow> r | None \<Rightarrow> dry_end [] (conn_final (armed cx c)))
    \<and> outbound (c_conn (snd (Conn_Execute cx command c))) =
      outbound (c_conn c) @ encode (exec_request command c) @ encode (exec_sentinel c)"
proof -
  let ?r = "readMultiPacket (ID (exec_request command c)) (ID (exec_sentinel c)) [] (terminated cx command c)"
  have ex: "Conn_Execute cx command c = ?r"
    using Conn_Execute_ready [OF assms(1)] assms(2) by simp
  have "read_frame (terminated cx command c) (snd ?r)"
    by (rule readMultiPacket_frame) (rule surjective_pairing)
  then show ?thesis
    using readMultiPacket_refines [of "terminated cx command c" ps] assms(3,4)
    unfolding ex by (simp add: read_frame_def split: option.split)
qed

text \<open>C3: in the default mode, a command that passes validation on a connection whose
  socket takes writes sends exactly the command packet and the terminator packet, and its
  result is the one the server's packets determine: the bodies up to the terminator's echo,
  \<^verbatim>\<open>ErrResponseMismatch\<close> at a packet with a foreign id, or, if the stream ends
  before the echo, the error of that end. This holds for every segmentation of the stream.\<close>

theorem Execute_multi_refines:
  assumes "ready cx command c" "mode (c_set c) = readMulti"
    "conn_pending (armed cx c) = frames ps" "\<forall>p \<in> set ps. fits p"
  shows "fst (Conn_Execute cx command c) =
      (case multi_spec (ID (exec_request command c)) (ID (exec_sentinel c)) [] ps of
         Some r \<Rightarrow> r | None \<Rightarrow> dry_end [] (conn_final (armed cx c)))
    \<and> outbound (c_conn (snd (Conn_Execute cx command c))) =
      outbound (c_conn c) @ encode (exec_request command c) @ encode (exec_sentinel c)"
  using assms by (rule Execute_multi)

theorem Execute_multi_refines_witness:
  "fst (Conn_Execute context_Background ''list''
     (opened [] [(7, RxData (frames [reply 2 ''a'', reply 9 ''b'']))])) = Err ErrResponseMismatch"
proof -
  let ?c = "opened [] [(7, RxData (frames [reply 2 ''a'', reply 9 ''b'']))]"
  have h: "ready context_Background ''list'' ?c" "mode (c_set ?c) = readMulti"
    "conn_pending (armed context_Background ?c) = frames [reply 2 ''a'', reply 9 ''b'']"
    "\<forall>p \<in> set [reply 2 ''a'', reply 9 ''b'']. fits p"
    by code_simp+
  have "multi_spec (ID (exec_request ''list'' ?c)) (ID (exec_sentinel ?c)) [] [reply 2 ''a'', reply 9 ''b'']
      = Some (Err ErrResponseMismatch)"
    by code_simp
  with Execute_multi_refines [OF h] show ?thesis by simp
qed

text \<open>C12: a response split over any number of packets is reassembled: if the stream is
  packets of the request (or with the id \<open>-1\<close> some servers send), then the echo of the
  terminator, then any other whole packets, \<^verbatim>\<open>Execute\<close> returns the bodies of the
  packets before the echo, in order, whatever the segmentation.\<close>

theorem Execute_reassembles:
  assumes "ready cx command c" "mode (c_set c) = readMulti"
    "conn_pending (armed cx c) = frames (chunks @ echo # later)" "\<forall>p \<in> set (chunks @ echo # later). fits p"
    "\<forall>p \<in> set chunks. ID p = ID (exec_request command c) \<or> ID p = -1"
    "ID echo = ID (exec_sentinel c)"
  shows "fst (Conn_Execute cx command c) = Ok (concat (map Body chunks))"
proof -
  have "\<forall>p \<in> set chunks. (ID p = ID (exec_request command c) \<or> ID p = -1) \<and> ID p \<noteq> ID (exec_sentinel c)"
    using assms(5) by (auto simp: exec_request_def exec_sentinel_def)
      (metis next_id_differs next_id_not_minus1)
  from multi_spec_chunks [OF this assms(6), of "[]" later] readMultiPacket_refines [of "terminated cx command c" "chunks @ echo # later"]
    Conn_Execute_ready [OF assms(1)] assms(2,3,4) show ?thesis by simp
qed

theorem Execute_reassembles_witness:
  "fst (Conn_Execute context_Background ''list''
     (opened [] [(7, RxData (take 20 (frames [reply 2 ''ab'', reply 2 ''c'', reply 3 [], reply 3 ''m'']))),
       (9, RxData (drop 20 (frames [reply 2 ''ab'', reply 2 ''c'', reply 3 [], reply 3 ''m''])))])) = Ok ''abc''"
proof -
  let ?c = "opened [] [(7, RxData (take 20 (frames [reply 2 ''ab'', reply 2 ''c'', reply 3 [], reply 3 ''m'']))),
       (9, RxData (drop 20 (frames [reply 2 ''ab'', reply 2 ''c'', reply 3 [], reply 3 ''m''])))]"
  have h: "ready context_Background ''list'' ?c" "mode (c_set ?c) = readMulti"
    "conn_pending (armed context_Background ?c) = frames ([reply 2 ''ab'', reply 2 ''c''] @ reply 3 [] # [reply 3 ''m''])"
    "\<forall>p \<in> set ([reply 2 ''ab'', reply 2 ''c''] @ reply 3 [] # [reply 3 ''m'']). fits p"
    "\<forall>p \<in> set [reply 2 ''ab'', reply 2 ''c'']. ID p = ID (exec_request ''list'' ?c) \<or> ID p = -1"
    "ID (reply 3 []) = ID (exec_sentinel ?c)"
    by code_simp+
  from Execute_reassembles [OF h] show ?thesis by (simp add: reply_def)
qed

text \<open>C36: in single-packet mode, \<^verbatim>\<open>Execute\<close> writes the command alone, reads one packet
  and returns its body, or \<^verbatim>\<open>ErrResponseMismatch\<close> if its id is neither the
  request's nor \<open>-1\<close>; the packets after it stay unread.\<close>

theorem Execute_single_refines:
  assumes "ready cx command c" "mode (c_set c) = readSingle"
    "conn_pending (armed cx c) = frames (p # ps)" "fits p"
  shows "fst (Conn_Execute cx command c) = single_spec (ID (exec_request command c)) p
    \<and> conn_pending (snd (Conn_Execute cx command c)) = frames ps
    \<and> outbound (c_conn (snd (Conn_Execute cx command c))) = outbound (c_conn c) @ encode (exec_request command c)"
proof -
  obtain c' where "readSinglePacket (ID (exec_request command c)) (commanded cx command c)
      = (single_spec (ID (exec_request command c)) p, c')"
    "conn_pending c' = frames ps" "read_frame (commanded cx command c) c'"
    using readSinglePacket_refines [of "commanded cx command c" p ps] assms(3,4) by auto
  then show ?thesis
    using Conn_Execute_ready [OF assms(1)] assms(2) by (simp add: read_frame_def)
qed

theorem Execute_single_refines_witness:
  "fst (Conn_Execute context_Background ''list''
     (opened [WithSinglePacket] [(7, RxData (frames [reply (-1) ''a'', reply 2 ''b'']))])) = Ok ''a''"
proof -
  let ?c = "opened [WithSinglePacket] [(7, RxData (frames [reply (-1) ''a'', reply 2 ''b'']))]"
  have h: "ready context_Background ''list'' ?c" "mode (c_set ?c) = readSingle"
    "conn_pending (armed context_Background ?c) = frames (reply (-1) ''a'' # [reply 2 ''b''])"
    "fits (reply (-1) ''a'')"
    by code_simp+
  have "single_spec (ID (exec_request ''list'' ?c)) (reply (-1) ''a'') = Ok ''a''"
    by code_simp
  with Execute_single_refines [OF h] show ?thesis by simp
qed

text \<open>C34: in read-until-idle mode, however the network cuts the stream, whatever the buffer
  holds already, and with several packets in a segment or a packet over several: if the first
  packet's bytes can be read within the deadline of the call, those of every further one within
  the window that begins when the packet before it was complete, and then no byte, or nothing
  but the orderly end of the stream, comes within the window, \<^verbatim>\<open>Execute\<close> returns the
  bodies of the packets with the request's id or \<open>-1\<close>, in order, and skips the others.\<close>

theorem Execute_idle_burst:
  assumes "ready cx command c" "mode (c_set c) = readIdle" "0 < idleWindow (c_set c)"
    "conn_stamps c = P @ A @ B" "map snd P = encode p" "fits p"
    "\<forall>e \<in> set P. \<not> expired (effective_deadline cx (deadline (c_set c)) (clock (c_conn c))) (fst e)"
    "paced (idleWindow (c_set c)) (last_at (clock (c_conn c)) P) ps A"
    "settles (idleWindow (c_set c)) (last_at (clock (c_conn c)) (P @ A)) B (conn_tail c)"
  shows "fst (Conn_Execute cx command c) =
    Ok (concat (map Body (filter (\<lambda>q. ID q = ID (exec_request command c) \<or> ID q = -1) (p # ps))))"
proof -
  let ?c = "commanded cx command c"
  have op: "\<not> sclosed (c_conn c)" "\<not> expired (wdeadline (c_conn (armed cx c))) (clock (c_conn c))"
    using assms(1) by (simp_all add: ready_def writable_def)
  have same: "conn_stamps ?c = conn_stamps c" "conn_tail ?c = conn_tail c" "clock (c_conn ?c) = clock (c_conn c)"
    "c_set ?c = c_set c"
    by (simp_all add: commanded_def conn_stamps_def bufr_stamps_def sock_stamps_def)
  have "\<forall>e \<in> set P. sock_alive (c_conn ?c) (fst e)"
    using assms(7) op armed_deadline [OF op(1), of cx] by (simp add: sock_alive_def commanded_def)
  with assms same
  have "fst (readIdleDrain (ID (exec_request command c)) [] True ?c)
      = Ok (idle_spec (ID (exec_request command c)) (p # ps))"
    by (intro readIdleDrain_burst) simp_all
  then show ?thesis
    using Conn_Execute_ready [OF assms(1)] assms(2) by (simp add: idle_spec_def)
qed

text \<open>Four packets: the first is in part in the buffer, the second and third come with its rest in
  one segment, the fourth in two; then something late.\<close>

definition mixed :: Conn where
  "mixed = (opened [WithReadUntilIdle 50] [])\<lparr>c_br := \<lparr>buffered = take 9 (encode (reply 2 ''a'')),
     under = fresh_sock
       [(40, RxData (drop 9 (encode (reply 2 ''a'')) @ frames [reply 9 ''x'', reply 2 ''b''])),
        (70, RxData (take 5 (encode (reply (-1) ''c'')))), (80, RxData (drop 5 (encode (reply (-1) ''c'')))),
        (500, RxData ''late'')]\<rparr>\<rparr>"

theorem Execute_idle_burst_witness:
  "fst (Conn_Execute context_Background ''help'' mixed) = Ok ''abc''"
proof -
  let ?ps = "[reply 9 ''x'', reply 2 ''b'', reply (-1) ''c'']"
  let ?P = "take 15 (conn_stamps mixed)" and ?A = "take 45 (drop 15 (conn_stamps mixed))"
    and ?B = "drop 60 (conn_stamps mixed)"
  have "s = take 15 s @ take 45 (drop 15 s) @ drop 60 s" for s :: "(time \<times> char) list"
    using append_take_drop_id [of 15 s] append_take_drop_id [of 45 "drop 15 s"] by simp
  then have s: "conn_stamps mixed = ?P @ ?A @ ?B" .
  have h: "ready context_Background ''help'' mixed" "mode (c_set mixed) = readIdle" "0 < idleWindow (c_set mixed)"
    and h2: "map snd ?P = encode (reply 2 ''a'')" "fits (reply 2 ''a'')"
    "\<forall>e \<in> set ?P. \<not> expired (effective_deadline context_Background (deadline (c_set mixed)) (clock (c_conn mixed))) (fst e)"
    "paced (idleWindow (c_set mixed)) (last_at (clock (c_conn mixed)) ?P) ?ps ?A"
    "settles (idleWindow (c_set mixed)) (last_at (clock (c_conn mixed)) (?P @ ?A)) ?B (conn_tail mixed)"
    by code_simp+
  have "concat (map Body (filter (\<lambda>q. ID q = ID (exec_request ''help'' mixed) \<or> ID q = -1) (reply 2 ''a'' # ?ps))) = ''abc''"
    by code_simp
  with Execute_idle_burst [OF h s h2] show ?thesis by (simp only:)
qed

text \<open>A closed connection, an empty command and a command longer than a positive
  \<^verbatim>\<open>maxCommandLen\<close> are refused, in this order and each with its own error, before
  anything is written or read and before a request id is used.\<close>

theorem Execute_rejects:
  "\<not> accepts command c \<Longrightarrow>
     Conn_Execute cx command c =
       (Err (if c_closed c then ErrClosed else if command = [] then ErrCommandEmpty else ErrCommandTooLong), c)"
  by (auto simp: Conn_Execute_def accepts_def)

theorem Execute_rejects_witness:
  "Conn_Execute context_Background ''list'' (opened [WithMaxCommandLen 3] [])
     = (Err ErrCommandTooLong, opened [WithMaxCommandLen 3] [])"
proof -
  have "\<not> accepts ''list'' (opened [WithMaxCommandLen 3] [])" "\<not> c_closed (opened [WithMaxCommandLen 3] [])"
    by code_simp+
  with Execute_rejects [of "''list''" "opened [WithMaxCommandLen 3] []" context_Background] show ?thesis by simp
qed

text \<open>After \<^verbatim>\<open>Close\<close> the socket is closed, and every \<^verbatim>\<open>Execute\<close> returns
  \<^verbatim>\<open>ErrClosed\<close> without touching the connection.\<close>

theorem Close_then_Execute:
  "fst (Conn_Execute cx command (snd (Conn_Close c))) = Err ErrClosed
   \<and> snd (Conn_Execute cx command (snd (Conn_Close c))) = snd (Conn_Close c)
   \<and> sclosed (c_conn (snd (Conn_Close c)))"
  by (auto simp: Conn_Execute_def Conn_Close_def sock_Close_def split: prod.splits)

subsection \<open>Execute and its deadline\<close>

text \<open>A deadline \<open>d\<close> is in force and the clock has not run past it, or past \<open>k\<close>.\<close>

definition timed :: "time \<Rightarrow> time \<Rightarrow> Conn \<Rightarrow> bool" where
  "timed k d c \<longleftrightarrow> rdeadline (c_conn c) = Some d \<and> wdeadline (c_conn c) = Some d
     \<and> clock (c_conn c) \<le> max k d"

lemma timed_read_frame: "timed k d c \<Longrightarrow> read_frame c c' \<Longrightarrow> timed k d c'"
  by (fastforce simp: timed_def read_frame_def)

lemma timed_nextID: "timed k d c \<Longrightarrow> timed k d (c\<lparr>c_id := i\<rparr>)"
  by (simp add: timed_def)

lemma timed_WriteTo: "timed k d c \<Longrightarrow> timed k d (snd (conn_WriteTo p c))"
  by (auto simp: timed_def conn_WriteTo_def Packet_WriteTo_def sock_write_def wait_out_def
      split: prod.splits list.splits tx.splits option.splits)

lemma readSinglePacket_frame: "read_frame c (snd (readSinglePacket reqID c))"
  unfolding readSinglePacket_def
  by (rule andThen_keeps [of "read_frame c"]) (auto intro: conn_ReadFrom_frame surjective_pairing)

lemma timed_armed:
  assumes "\<not> sclosed (c_conn c)"
    "effective_deadline cx (deadline (c_set c)) (clock (c_conn c)) = Some d"
  shows "timed (clock (c_conn c)) d (armed cx c)"
  using assms armed_deadline [OF assms(1), of cx] by (simp add: timed_def)

lemma readMultiPacket_timed: "timed k d c \<Longrightarrow> timed k d (snd (readMultiPacket q s b c))"
  using readMultiPacket_frame [of q s b c] timed_read_frame by (metis prod.collapse)

lemma readSinglePacket_timed: "timed k d c \<Longrightarrow> timed k d (snd (readSinglePacket q c))"
  by (rule timed_read_frame [OF _ readSinglePacket_frame])

lemma conn_WriteTo_set: "c_set (snd (conn_WriteTo p c)) = c_set c"
  by (auto simp: conn_WriteTo_def split: prod.splits)

text \<open>\<^verbatim>\<open>Execute\<close> past its validation, whatever the writes do.\<close>

lemma Conn_Execute_open:
  assumes "accepts command c" "\<not> sclosed (c_conn c)"
  shows "Conn_Execute cx command c =
    andThen (conn_WriteTo (exec_request command c) ((armed cx c)\<lparr>c_id := next_id (c_id c)\<rparr>)) (\<lambda>_ c'.
      case mode (c_set c') of
        readSingle \<Rightarrow> readSinglePacket (ID (exec_request command c)) c'
      | readIdle \<Rightarrow> readIdleDrain (ID (exec_request command c)) [] True c'
      | readMulti \<Rightarrow>
          andThen (conn_WriteTo \<lparr>ID = next_id (c_id c'), Type = TypeResponseValue, Body = []\<rparr>
              (c'\<lparr>c_id := next_id (c_id c')\<rparr>))
            (\<lambda>_ c''. readMultiPacket (ID (exec_request command c)) (next_id (c_id c')) [] c''))"
proof -
  have "(case applyContextDeadline cx (deadline (c_set c)) (c_conn c) of (x, s) \<Rightarrow> (x, with_sock s c))
      = (Ok (), armed cx c)"
    using assms(2) by (simp add: armed_def applyContextDeadline_open)
  with assms(1) show ?thesis
    by (auto simp: Conn_Execute_def accepts_def exec_request_def cong: readMode.case_cong)
qed

lemma Execute_timed:
  assumes "mode (c_set c) \<noteq> readIdle" "\<not> sclosed (c_conn c)"
    "effective_deadline cx (deadline (c_set c)) (clock (c_conn c)) = Some d" "accepts command c"
  shows "timed (clock (c_conn c)) d (snd (Conn_Execute cx command c))"
proof -
  let ?I = "\<lambda>c'. timed (clock (c_conn c)) d c' \<and> c_set c' = c_set c"
  have start: "?I ((armed cx c)\<lparr>c_id := i\<rparr>)" for i
    using timed_armed [OF assms(2,3)] by (simp add: timed_nextID)
  have wr: "?I (snd (conn_WriteTo p c'))" if "?I c'" for p c'
    using that timed_WriteTo conn_WriteTo_set by simp
  have multi: "timed (clock (c_conn c)) d (snd (andThen (conn_WriteTo p (c'\<lparr>c_id := i\<rparr>))
      (\<lambda>_ c''. readMultiPacket q s [] c'')))" if "?I c'" for p c' i q s
    by (rule andThen_keeps) (use that in \<open>auto intro: timed_WriteTo timed_nextID readMultiPacket_timed\<close>)
  show ?thesis
    unfolding Conn_Execute_open [OF assms(4,2)]
  proof (rule andThen_keeps)
    show "timed (clock (c_conn c)) d
        (snd (conn_WriteTo (exec_request command c) ((armed cx c)\<lparr>c_id := next_id (c_id c)\<rparr>)))"
      using wr [OF start] by blast
  next
    fix a c'
    assume "conn_WriteTo (exec_request command c) ((armed cx c)\<lparr>c_id := next_id (c_id c)\<rparr>) = (Ok a, c')"
    with wr [OF start] have "?I c'" by (metis snd_conv)
    then show "timed (clock (c_conn c)) d (snd (case mode (c_set c') of
        readSingle \<Rightarrow> readSinglePacket (ID (exec_request command c)) c'
      | readIdle \<Rightarrow> readIdleDrain (ID (exec_request command c)) [] True c'
      | readMulti \<Rightarrow>
          andThen (conn_WriteTo \<lparr>ID = next_id (c_id c'), Type = TypeResponseValue, Body = []\<rparr>
              (c'\<lparr>c_id := next_id (c_id c')\<rparr>))
            (\<lambda>_ c''. readMultiPacket (ID (exec_request command c)) (next_id (c_id c')) [] c'')))"
      using assms(1) multi readSinglePacket_timed by (cases "mode (c_set c)") auto
  qed
qed

lemma Execute_clock:
  assumes "mode (c_set c) \<noteq> readIdle"
    "effective_deadline cx (deadline (c_set c)) (clock (c_conn c)) = Some d"
  shows "clock (c_conn (snd (Conn_Execute cx command c))) \<le> max (clock (c_conn c)) d"
proof (cases "accepts command c \<and> \<not> sclosed (c_conn c)")
  case True
  then show ?thesis
    using Execute_timed [OF assms(1) _ assms(2)] by (simp add: timed_def)
next
  case False
  then have "snd (Conn_Execute cx command c) = c"
    by (auto simp: Conn_Execute_def accepts_def applyContextDeadline_closed with_sock_def)
  then show ?thesis by simp
qed

text \<open>The same of the handshake.\<close>

lemma rcon_open_clock:
  assumes "effective_deadline cx (deadline s) (clock k) = Some d"
  shows "clock (c_conn (snd (rcon_open cx k password s))) \<le> max (clock k) d"
proof (cases "sclosed k")
  case True
  then show ?thesis by (simp add: rcon_open_def Let_def applyContextDeadline_closed)
next
  case False
  let ?c = "\<lparr>c_br = \<lparr>buffered = [], under = k\<rparr>, c_set = s, c_closed = False, c_id = 0\<rparr>"
  let ?I = "timed (clock k) d"
  have arm: "?I (armed cx ?c)" using timed_armed [of ?c cx d] False assms by simp
  have rd: "?I c' \<Longrightarrow> ?I (snd (conn_ReadFrom c'))" for c'
    using timed_read_frame conn_ReadFrom_frame by (metis prod.collapse)
  have "rcon_open cx k password s = authenticate password (armed cx ?c)"
    using False by (simp add: rcon_open_def Let_def armed_def applyContextDeadline_open)
  moreover have "?I (snd (authenticate password (armed cx ?c)))"
    unfolding authenticate_def split_beta Let_def
    by (intro andThen_keeps [where P = ?I] timed_WriteTo)
      (use arm rd in \<open>auto intro: timed_nextID\<close>)
  ultimately show ?thesis by (simp add: timed_def)
qed

text \<open>C13: in the multi- and single-packet modes \<^verbatim>\<open>Execute\<close> never runs past the sooner
  of the per-operation deadline and the context's, whatever the peer sends and however the
  writes stall.\<close>

theorem Execute_within_deadline:
  assumes "mode (c_set c) \<noteq> readIdle"
    "effective_deadline cx (deadline (c_set c)) (clock (c_conn c)) = Some d"
  shows "clock (c_conn (snd (Conn_Execute cx command c))) \<le> max (clock (c_conn c)) d"
  using assms by (rule Execute_clock)

theorem Execute_within_deadline_witness:
  "clock (c_conn (snd (Conn_Execute (context_WithTimeout context_Background 0 50) ''list'' (opened [] [])))) \<le> 50"
proof -
  have h: "mode (c_set (opened [] [])) \<noteq> readIdle"
    "effective_deadline (context_WithTimeout context_Background 0 50) (deadline (c_set (opened [] [])))
       (clock (c_conn (opened [] []))) = Some 50"
    by code_simp+
  have "clock (c_conn (opened [] [])) = 0" by code_simp
  with Execute_within_deadline [OF h, of "''list''"] show ?thesis by simp
qed

subsection \<open>Execute returns\<close>

lemma conn_ReadFrom_returns: "rdeadline (c_conn c) = Some d \<Longrightarrow> conn_ReadFrom c \<noteq> (Hang, c')"
  using conn_ReadFrom_parse [of c Hang c'] parse_frame_hang sock_final_deadline [of "c_conn c" d]
    sockr.final_stops [of "c_conn c"] by blast

lemma conn_WriteTo_returns: "wdeadline (c_conn c) = Some d \<Longrightarrow> conn_WriteTo p c \<noteq> (Hang, c')"
  by (auto simp: conn_WriteTo_def Packet_WriteTo_def sock_write_def wait_out_def
      split: prod.splits list.splits tx.splits if_splits)

lemma drain_returns: "rdeadline (c_conn c) = Some d \<Longrightarrow> drainSourceMirror c \<noteq> (Hang, c')"
proof (induction c rule: drainSourceMirror.induct)
  case (1 c)
  show ?case
    using "1.IH" "1.prems" conn_ReadFrom_returns [of c d] conn_ReadFrom_frame [of c]
    by (auto simp: drainSourceMirror.simps [of c] read_frame_def split: prod.splits res.splits)
qed

lemma readMultiPacket_returns: "rdeadline (c_conn c) = Some d \<Longrightarrow> readMultiPacket q s b c \<noteq> (Hang, c')"
proof (induction q s b c rule: readMultiPacket.induct)
  case (1 q s b c)
  obtain x c1 where r: "conn_ReadFrom c = (x, c1)" by fastforce
  with conn_ReadFrom_frame [OF r] "1.prems" have d: "rdeadline (c_conn c1) = Some d"
    by (simp add: read_frame_def)
  show ?case
    using r d "1.IH" conn_ReadFrom_returns [of c d] "1.prems" drain_returns [OF d]
    by (auto simp: readMultiPacket.simps [of _ _ _ c] andThen_def split: prod.splits res.splits)
qed

lemma readIdleDrain_returns:
  "rdeadline (c_conn c) = Some d \<Longrightarrow> readIdleDrain q b first c \<noteq> (Hang, c')"
proof (induction q b first c arbitrary: d rule: readIdleDrain.induct)
  case (1 q b first c)
  obtain x c1 where s: "setIdleDeadline first c = (x, c1)" by fastforce
  then have x: "x \<noteq> Hang" "\<exists>d. rdeadline (c_conn c1) = Some d"
    using "1.prems" by (auto simp: setIdleDeadline_def sock_SetReadDeadline_def split: if_splits)
  obtain y c2 where r: "conn_ReadFrom c1 = (y, c2)" by fastforce
  with conn_ReadFrom_frame [OF r] x(2) have d: "\<exists>d. rdeadline (c_conn c2) = Some d"
    by (simp add: read_frame_def)
  have "readIdleDrain q (if ID p = q \<or> ID p = -1 then b @ Body p else b) False c2 \<noteq> (Hang, c')"
    if "x = Ok ()" "y = Ok p" for p
    using "1.IH" s r d that by metis
  with s x r conn_ReadFrom_returns [of c1] show ?case
    by (cases x; cases y) (auto simp: readIdleDrain.simps [of _ _ _ c])
qed

text \<open>On a script, which is finite, the read-until-idle loop ends too.\<close>

lemma Execute_not_hang:
  assumes "effective_deadline cx (deadline (c_set c)) (clock (c_conn c)) \<noteq> None"
  shows "fst (Conn_Execute cx command c) \<noteq> Hang"
proof (cases "accepts command c \<and> \<not> sclosed (c_conn c)")
  case False
  then show ?thesis
    by (auto simp: Conn_Execute_def accepts_def applyContextDeadline_closed)
next
  case True
  then obtain d where "timed (clock (c_conn c)) d (armed cx c)"
    using timed_armed [of c cx] assms by auto
  then have t: "timed (clock (c_conn c)) d ((armed cx c)\<lparr>c_id := i\<rparr>)" for i
    by (rule timed_nextID)
  obtain x c1 where w: "conn_WriteTo (exec_request command c) ((armed cx c)\<lparr>c_id := next_id (c_id c)\<rparr>) = (x, c1)"
    by fastforce
  with t [THEN timed_WriteTo, of "exec_request command c" "next_id (c_id c)"]
  have t1: "timed (clock (c_conn c)) d c1" by simp
  obtain y c2 where w2: "conn_WriteTo \<lparr>ID = next_id (c_id c1), Type = TypeResponseValue, Body = []\<rparr>
      (c1\<lparr>c_id := next_id (c_id c1)\<rparr>) = (y, c2)" by fastforce
  with timed_WriteTo [OF timed_nextID [OF t1]] have t2: "timed (clock (c_conn c)) d c2" by (metis snd_conv)
  have "x \<noteq> Hang" "y \<noteq> Hang"
    using w w2 t [of "next_id (c_id c)"] t1 conn_WriteTo_returns by (auto simp: timed_def)
  moreover have "fst (readSinglePacket q c1) \<noteq> Hang" for q
    using t1 conn_ReadFrom_returns [of c1 d] by (auto simp: readSinglePacket_def andThen_def timed_def
        split: prod.splits res.splits)
  moreover have "fst (readIdleDrain q [] True c1) \<noteq> Hang" "fst (readMultiPacket q s [] c2) \<noteq> Hang" for q s
    using t1 t2 readIdleDrain_returns [of c1 d q "[]" True] readMultiPacket_returns [of c2 d q s "[]"]
    by (metis prod.collapse timed_def)+
  ultimately show ?thesis
    using True w w2 by (cases x; cases y; cases "mode (c_set c1)") (auto simp: Conn_Execute_open)
qed

text \<open>C14: in the multi- and single-packet modes, if the call has a deadline, from the options
  or from the context, \<^verbatim>\<open>Execute\<close> returns, whatever finite sequence of segments the
  server sends, ends with or withholds, and however the writes stall: the one deadline ends every
  wait. Read-until-idle is excluded: it sets a new deadline before every packet, so a server that
  sends one in every window keeps it reading.\<close>

theorem Execute_returns:
  assumes "mode (c_set c) \<noteq> readIdle"
    "effective_deadline cx (deadline (c_set c)) (clock (c_conn c)) \<noteq> None"
  shows "fst (Conn_Execute cx command c) \<noteq> Hang"
  using assms(2) by (rule Execute_not_hang)

theorem Execute_returns_witness:
  "fst (Conn_Execute context_Background ''list'' (opened [] [(9, RxData ''abc'')])) \<noteq> Hang"
proof -
  have "mode (c_set (opened [] [(9, RxData ''abc'')])) \<noteq> readIdle"
    "effective_deadline context_Background (deadline (c_set (opened [] [(9, RxData ''abc'')])))
      (clock (c_conn (opened [] [(9, RxData ''abc'')]))) \<noteq> None"
    by code_simp+
  from Execute_returns [OF this] show ?thesis .
qed

subsection \<open>How long an idle read lasts\<close>





subsection \<open>Dialling\<close>

text \<open>A \<^verbatim>\<open>Dial\<close> whose handshake fails closes the socket it opened.\<close>

theorem Dial_failure_closes:
  assumes "rcon_Dial tcp t cx address password opts = (Err e, Some s, t')"
  shows "sclosed s"
  using assms by (auto simp: rcon_Dial_def Let_def sock_Close_def split: res.splits prod.splits if_splits)

theorem Dial_failure_closes_witness:
  "sclosed (snd (sock_Close (c_conn (snd (rcon_open context_Background (fresh_sock [(3, RxEOF)]) ''pw'' (newSettings []))))))"
proof -
  let ?s = "snd (sock_Close (c_conn (snd (rcon_open context_Background (fresh_sock [(3, RxEOF)]) ''pw'' (newSettings [])))))"
  have "rcon_Dial (\<lambda>t d cx a. (Ok (fresh_sock [(3, RxEOF)]), 0)) 0 context_Background ''h:1'' ''pw'' []
      = (Err IoEOF, Some ?s, 3)"
    by code_simp
  from Dial_failure_closes [OF this] show ?thesis .
qed

end
