(* ===== verification/Rcon_Retry.thy ===== *)
theory Rcon_Retry
  imports Go_Errors
begin

text \<open>
  \<^verbatim>\<open>src/rconclient/retry.go\<close>: the exponential backoff, on 64-bit durations as the code
  has them, and the classification of errors worth a retry. The random source is a
  parameter.
\<close>

subsection \<open>Backoff\<close>

text \<open>\<^verbatim>\<open>rand.Int64N\<close>: a number below its argument, drawn by \<open>rnd\<close>; it panics
  (\<open>None\<close>) if the argument is not positive.\<close>

definition Int64N :: "(int \<Rightarrow> int) \<Rightarrow> int64 \<Rightarrow> duration option" where
  "Int64N rnd n = (if sint n \<le> 0 then None else Some (rnd (sint n)))"

text \<open>What \<^verbatim>\<open>rand.Int64N\<close> documents of its source.\<close>

definition draws :: "(int \<Rightarrow> int) \<Rightarrow> bool" where
  "draws rnd \<longleftrightarrow> (\<forall>n > 0. 0 \<le> rnd n \<and> rnd n < n)"

text \<open>The delay before jitter. A Go shift by 64 or more gives zero, as \<^term>\<open>push_bit\<close> does.\<close>

definition backoff_cap :: "int64 \<Rightarrow> int64 \<Rightarrow> int \<Rightarrow> int64" where
  "backoff_cap base mx attempt =
     (let attempt = (if attempt < 1 then 1 else attempt);
          d = push_bit (nat (attempt - 1)) base
      in if sint d > sint mx \<or> sint d \<le> 0 then mx else d)"

definition ExponentialBackoff :: "(int \<Rightarrow> int) \<Rightarrow> int64 \<Rightarrow> int64 \<Rightarrow> int \<Rightarrow> duration option" where
  "ExponentialBackoff rnd base mx attempt = Int64N rnd (backoff_cap base mx attempt + 1)"

subsection \<open>Retryable errors\<close>

definition isRetryable :: "goerr option \<Rightarrow> bool" where
  "isRetryable err =
     (case err of
        None \<Rightarrow> False
      | Some e \<Rightarrow>
          if errors_Is e ErrAuthFailed \<or> errors_Is e ErrCommandEmpty \<or> errors_Is e ErrCommandTooLong
            then False
          else if errors_Is e IoEOF then True
          else errors_AsNetError e \<noteq> None)"

subsection \<open>Bounds of the delay\<close>

lemma sint_add_one:
  fixes w :: int64
  assumes "sint w < 2 ^ 63 - 1"
  shows "sint (w + 1) = sint w + 1"
proof -
  have "- (2 ^ 63) \<le> sint w + 1" "sint w + 1 < 2 ^ 63"
    using sint_greater_eq [of w] assms by simp_all
  then show ?thesis
    by (simp add: signed_take_bit_int_eq_self sint_word_ariths(1))
qed

lemma backoff_cap_bounds:
  assumes "0 \<le> sint mx"
  shows "0 \<le> sint (backoff_cap base mx n)" "sint (backoff_cap base mx n) \<le> sint mx"
  using assms by (auto simp: backoff_cap_def Let_def)

text \<open>C20: for a maximum that is not negative and below the largest duration, the delay is
  drawn between zero and the maximum for every base and every attempt, however often the
  doubling wraps around, and nothing panics.\<close>

theorem ExponentialBackoff_bounds:
  assumes "draws rnd" "0 \<le> sint mx" "sint mx < 2 ^ 63 - 1"
  shows "\<exists>r. ExponentialBackoff rnd base mx n = Some r \<and> 0 \<le> r \<and> r \<le> sint mx"
proof -
  let ?d = "backoff_cap base mx n"
  note b = backoff_cap_bounds [OF assms(2), of base n]
  have "sint (?d + 1) = sint ?d + 1"
    using b assms(3) by (intro sint_add_one) simp
  with b assms(1) show ?thesis
    by (auto simp: ExponentialBackoff_def Int64N_def draws_def)
      (smt (verit, ccfv_threshold))
qed

theorem ExponentialBackoff_bounds_witness:
  "\<exists>r. ExponentialBackoff (\<lambda>n. n - 1) 4611686018427387905 30000000000 3 = Some r \<and> 0 \<le> r
     \<and> r \<le> sint (30000000000 :: int64)"
proof -
  have "draws (\<lambda>n. n - 1)" by (simp add: draws_def)
  moreover have "0 \<le> sint (30000000000 :: int64)" "sint (30000000000 :: int64) < 2 ^ 63 - 1"
    by code_simp+
  ultimately show ?thesis by (rule ExponentialBackoff_bounds)
qed

lemma sint_push_bit: "sint (push_bit k (w :: int64)) = signed_take_bit 63 (sint w * 2 ^ k)"
proof -
  have "push_bit k w = word_of_int (sint w) * word_of_int (2 ^ k)"
    by (simp add: push_bit_eq_mult)
  also have "\<dots> = word_of_int (sint w * 2 ^ k)"
    by (simp only: of_int_mult)
  finally have "sint (push_bit k w) = sint (word_of_int (sint w * 2 ^ k) :: int64)" by (rule arg_cong)
  also have "\<dots> = signed_take_bit 63 (sint w * 2 ^ k)"
    by (simp add: signed_of_int del: of_int_mult)
  finally show ?thesis .
qed

lemma signed_take_bit_wraps: "\<exists>m. signed_take_bit 63 (x :: int) = x - m * 2 ^ 64"
proof -
  have "signed_take_bit 63 x = (x + 2 ^ 63) mod 2 ^ 64 - 2 ^ 63"
    by (simp add: signed_take_bit_eq_take_bit_shift take_bit_eq_mod)
  then show ?thesis
    by (intro exI [of _ "(x + 2 ^ 63) div 2 ^ 64"]) (simp add: minus_div_mult_eq_mod [symmetric])
qed

text \<open>A doubling that wraps around to a positive value is still above the maximum.\<close>

lemma wrapped_above:
  fixes q mx :: int
  assumes "x = q * 2 ^ j" "2 ^ 63 \<le> x" "0 < q" "q * mx < 2 ^ 63" "0 < signed_take_bit 63 x"
  shows "mx < signed_take_bit 63 x"
proof -
  let ?s = "signed_take_bit 63 x"
  obtain m where m: "?s = x - m * 2 ^ 64" using signed_take_bit_wraps by blast
  have lt: "?s < 2 ^ 63" using signed_take_bit_int_less_exp [of 63 x] by simp
  have "j < 64"
  proof (rule ccontr)
    assume "\<not> j < 64"
    then have "(2 :: int) ^ 64 dvd 2 ^ j" by (intro le_imp_power_dvd) simp
    then have "2 ^ 64 dvd x" unfolding assms(1) by (rule dvd_mult)
    then have "2 ^ 64 dvd ?s" unfolding m by (rule dvd_diff) simp
    then have "2 ^ 64 \<le> ?s" using assms(5) by (rule zdvd_imp_le)
    with lt show False by simp
  qed
  then have "(2 :: int) ^ j dvd m * 2 ^ 64" by (intro dvd_mult le_imp_power_dvd) simp
  moreover have "2 ^ j dvd x" unfolding assms(1) by simp
  ultimately have "2 ^ j dvd ?s" unfolding m by (metis dvd_diff)
  then have "2 ^ j \<le> ?s" using assms(5) by (rule zdvd_imp_le)
  moreover have "mx < 2 ^ j"
  proof -
    have "q * mx < q * 2 ^ j" using assms(1,2,4) by linarith
    then show ?thesis using assms(3) by simp
  qed
  ultimately show ?thesis by linarith
qed

text \<open>C19: the delay before jitter is the base doubled once per attempt and capped at the
  maximum, exactly and for every attempt, although the shift is on 64 bits, as long as the
  odd part of the base times the maximum stays below the range (for a base of one second: a
  maximum of up to an hour and more).\<close>

theorem backoff_cap_exact:
  assumes "sint base = q * 2 ^ v" "0 < q" "0 \<le> sint mx" "q * sint mx < 2 ^ 63" "1 \<le> n"
  shows "sint (backoff_cap base mx n) = min (sint base * 2 ^ nat (n - 1)) (sint mx)"
proof -
  let ?k = "nat (n - 1)"
  let ?x = "sint base * 2 ^ ?k"
  have pos: "0 < sint base" using assms(1,2) by simp
  have d: "sint (push_bit ?k base) = signed_take_bit 63 ?x" by (rule sint_push_bit)
  show ?thesis
  proof (cases "?x < 2 ^ 63")
    case True
    have "0 < ?x" using pos by simp
    then have "signed_take_bit 63 ?x = ?x" using True by (intro signed_take_bit_int_eq_self) simp_all
    with d \<open>0 < ?x\<close> assms(5) show ?thesis by (simp add: backoff_cap_def Let_def)
  next
    case False
    have "?x = q * 2 ^ (v + ?k)" using assms(1) by (simp add: power_add)
    then have "0 < signed_take_bit 63 ?x \<Longrightarrow> sint mx < signed_take_bit 63 ?x"
      using wrapped_above [of ?x q "v + ?k" "sint mx"] False assms(2,4) by simp
    then have "sint (push_bit ?k base) > sint mx \<or> sint (push_bit ?k base) \<le> 0"
      using d by linarith
    moreover have "sint mx < ?x" using False sint_less [of mx] by simp
    ultimately show ?thesis using assms(5) by (simp add: backoff_cap_def Let_def)
  qed
qed

theorem backoff_cap_exact_witness:
  "sint (backoff_cap 1000000000 30000000000 40) = min (sint (1000000000 :: int64) * 2 ^ nat (40 - 1)) (sint (30000000000 :: int64))"
proof -
  have "sint (1000000000 :: int64) = 1953125 * 2 ^ 9" "(0 :: int) < 1953125"
    "0 \<le> sint (30000000000 :: int64)" "1953125 * sint (30000000000 :: int64) < 2 ^ 63" "(1 :: int) \<le> 40"
    by code_simp+
  then show ?thesis by (rule backoff_cap_exact)
qed

lemma isRetryable_simps [simp]:
  "\<not> isRetryable None" "isRetryable (Some IoEOF)" "isRetryable (Some (NetError c))"
  "isRetryable (Some CtxDeadlineExceeded)" "\<not> isRetryable (Some ErrClosed)"
  "\<not> isRetryable (Some ErrAuthFailed)" "\<not> isRetryable (Some ErrCommandEmpty)"
  "\<not> isRetryable (Some ErrCommandTooLong)" "\<not> isRetryable (Some ErrResponseMismatch)"
  by (simp_all add: isRetryable_def)

end
