(* ===== verification/Rcon_Client.thy ===== *)
theory Rcon_Client
  imports Rcon_Exec Rcon_Retry
begin

text \<open>
  The high-level client: \<^verbatim>\<open>src/rconclient/client.go\<close>, \<^verbatim>\<open>options.go\<close> and
  \<^verbatim>\<open>session.go\<close>. What lies outside is a parameter: the outcome of each dial, numbered
  in order, and the choice a \<^verbatim>\<open>select\<close> makes when two cases are ready at once. The
  world records the time, the number of dials and the sockets that were opened and let go.
\<close>

record world =
  w_now :: time
  w_dials :: nat
  w_socks :: "sock list"

text \<open>A call that returns, errors or blocks, or panics.\<close>

datatype 'a run = Ran "'a gores" | Panicked

subsection \<open>Configuration\<close>

text \<open>\<^verbatim>\<open>BackoffFunc\<close>, where \<open>None\<close> is a panic; and \<^verbatim>\<open>DialFunc\<close>, which
  returns at some instant, perhaps with a nil connection.\<close>

type_synonym BackoffFunc = "int \<Rightarrow> duration option"
type_synonym DialFunc = "nat \<Rightarrow> time \<Rightarrow> ctx \<Rightarrow> bytes \<Rightarrow> sock option gores \<times> time"

record Client =
  cl_timeout :: duration
  cl_dialTimeout :: duration
  cl_attempts :: int
  cl_backoff :: "BackoffFunc option"
  cl_dialer :: "DialFunc option"
  cl_singlePacket :: bool
  cl_idleDrain :: bool
  cl_idleWindow :: duration

definition client_DefaultTimeout :: duration where
  "client_DefaultTimeout = 10 * Second"

definition client_DefaultDialTimeout :: duration where
  "client_DefaultDialTimeout = 5 * Second"

type_synonym client_Option = "Client \<Rightarrow> Client"

definition client_WithTimeout :: "duration \<Rightarrow> client_Option" where
  "client_WithTimeout d c = c\<lparr>cl_timeout := d\<rparr>"

definition client_WithDialTimeout :: "duration \<Rightarrow> client_Option" where
  "client_WithDialTimeout d c = c\<lparr>cl_dialTimeout := d\<rparr>"

definition client_WithDialer :: "DialFunc \<Rightarrow> client_Option" where
  "client_WithDialer d c = c\<lparr>cl_dialer := Some d\<rparr>"

definition client_WithSinglePacket :: client_Option where
  "client_WithSinglePacket c = c\<lparr>cl_singlePacket := True\<rparr>"

definition client_WithReadUntilIdle :: "duration \<Rightarrow> client_Option" where
  "client_WithReadUntilIdle window c = c\<lparr>cl_idleDrain := True, cl_idleWindow := window\<rparr>"

definition client_WithRetry :: "int \<Rightarrow> BackoffFunc option \<Rightarrow> client_Option" where
  "client_WithRetry attempts backoff c = c\<lparr>cl_attempts := attempts, cl_backoff := backoff\<rparr>"

definition client_New :: "client_Option list \<Rightarrow> Client" where
  "client_New opts =
     fold (\<lambda>opt c. opt c) opts
       \<lparr>cl_timeout = client_DefaultTimeout, cl_dialTimeout = client_DefaultDialTimeout,
        cl_attempts = 1, cl_backoff = None, cl_dialer = None, cl_singlePacket = False,
        cl_idleDrain = False, cl_idleWindow = 0\<rparr>"

lemmas client_option_defs = client_WithTimeout_def client_WithDialTimeout_def client_WithDialer_def
  client_WithSinglePacket_def client_WithReadUntilIdle_def client_WithRetry_def client_New_def

subsection \<open>Dialling\<close>

definition dial_options :: "Client \<Rightarrow> rcon_Option list" where
  "dial_options c =
     (if cl_idleDrain c then [WithReadUntilIdle (cl_idleWindow c)]
      else if cl_singlePacket c then [WithSinglePacket] else [])"

definition client_dial ::
  "(nat \<Rightarrow> tcp_dialer) \<Rightarrow> Client \<Rightarrow> ctx \<Rightarrow> bytes \<Rightarrow> bytes \<Rightarrow> world \<Rightarrow> Conn gores \<times> world" where
  "client_dial env c cx address password w =
     (let opts = dial_options c; n = w_dials w; w = w\<lparr>w_dials := n + 1\<rparr> in
      case cl_dialer c of
        Some d \<Rightarrow>
          (case d n (w_now w) cx address of
             (Err e, t) \<Rightarrow> (Err e, w\<lparr>w_now := t\<rparr>)
           | (Hang, t) \<Rightarrow> (Hang, w\<lparr>w_now := t\<rparr>)
           | (Ok None, t) \<Rightarrow>
               (Err (ErrorString ''rconclient: dialer returned a nil connection with no error''),
                w\<lparr>w_now := t\<rparr>)
           | (Ok (Some nc), t) \<Rightarrow>
               (case rcon_Open cx (nc\<lparr>clock := t\<rparr>) password opts of
                  (Ok _, conn) \<Rightarrow> (Ok conn, w\<lparr>w_now := clock (c_conn conn)\<rparr>)
                | (Err e, conn) \<Rightarrow>
                    (Err e, w\<lparr>w_now := clock (c_conn conn),
                      w_socks := w_socks w @ [snd (sock_Close (c_conn conn))]\<rparr>)
                | (Hang, conn) \<Rightarrow>
                    (Hang, w\<lparr>w_now := clock (c_conn conn), w_socks := w_socks w @ [c_conn conn]\<rparr>)))
      | None \<Rightarrow>
          (case rcon_Dial (env n) (w_now w) cx address password
                  (WithDialTimeout (cl_dialTimeout c) # opts) of
             (x, dropped, t) \<Rightarrow>
               (x, w\<lparr>w_now := t,
                 w_socks := w_socks w @ (case dropped of None \<Rightarrow> [] | Some s \<Rightarrow> [s])\<rparr>)))"

subsection \<open>One-shot execution\<close>

definition executeOnce ::
  "(nat \<Rightarrow> tcp_dialer) \<Rightarrow> Client \<Rightarrow> ctx \<Rightarrow> bytes \<Rightarrow> bytes \<Rightarrow> bytes \<Rightarrow> world \<Rightarrow> bytes gores \<times> world" where
  "executeOnce env c cx address password command w =
     andThen (client_dial env c cx address password w) (\<lambda>conn w.
       case Conn_Execute cx command conn of
         (Hang, conn') \<Rightarrow>
           (Hang, w\<lparr>w_now := clock (c_conn conn'), w_socks := w_socks w @ [c_conn conn']\<rparr>)
       | (out, conn') \<Rightarrow>
           (let conn'' = snd (Conn_Close conn') in
            (out, w\<lparr>w_now := clock (c_conn conn''), w_socks := w_socks w @ [c_conn conn'']\<rparr>)))"

text \<open>The \<^verbatim>\<open>select\<close> between the backoff timer and the context: the error if the context
  wins, and the instant. \<open>tie\<close> decides if both are ready at once.\<close>

definition select_backoff :: "bool \<Rightarrow> duration \<Rightarrow> ctx \<Rightarrow> time \<Rightarrow> goerr option \<times> time" where
  "select_backoff tie b cx t =
     (let timer = max t (t + b) in
      case ctx_done cx of
        None \<Rightarrow> (None, timer)
      | Some (d, e) \<Rightarrow>
          (let dn = max t d in
           if dn < timer \<or> (dn = timer \<and> tie) then (Some e, dn) else (None, timer)))"

function client_retry ::
  "(nat \<Rightarrow> tcp_dialer) \<Rightarrow> (int \<Rightarrow> bool) \<Rightarrow> Client \<Rightarrow> ctx \<Rightarrow> bytes \<Rightarrow> bytes \<Rightarrow> bytes
     \<Rightarrow> int \<Rightarrow> int \<Rightarrow> goerr option \<Rightarrow> world \<Rightarrow> bytes run \<times> world" where
  "client_retry env tie c cx address password command attempts attempt lastErr w =
     (if attempt \<le> attempts then
        (case executeOnce env c cx address password command w of
           (Ok out, w) \<Rightarrow> (Ran (Ok out), w)
         | (Hang, w) \<Rightarrow> (Ran Hang, w)
         | (Err err, w) \<Rightarrow>
             (if \<not> isRetryable (Some err) \<or> attempt = attempts then (Ran (Err err), w)
              else (case cl_backoff c of
                  None \<Rightarrow>
                    client_retry env tie c cx address password command attempts (attempt + 1) (Some err) w
                | Some backoff \<Rightarrow>
                    (case backoff attempt of
                       None \<Rightarrow> (Panicked, w)
                     | Some b \<Rightarrow>
                         (case select_backoff (tie attempt) b cx (w_now w) of
                            (Some e, t) \<Rightarrow> (Ran (Err e), w\<lparr>w_now := t\<rparr>)
                          | (None, t) \<Rightarrow>
                              client_retry env tie c cx address password command attempts (attempt + 1)
                                (Some err) (w\<lparr>w_now := t\<rparr>))))))
      else (Ran (case lastErr of None \<Rightarrow> Ok [] | Some e \<Rightarrow> Err e), w))"
  by pat_completeness auto
termination
  by (relation "measure (\<lambda>(env, tie, c, cx, a, p, cmd, n, i, l, w). nat (n - i + 1))") auto

declare client_retry.simps [simp del]

text \<open>The context of a call: tightened by the client's timeout, if it has one.\<close>

definition call_ctx :: "Client \<Rightarrow> ctx \<Rightarrow> time \<Rightarrow> ctx" where
  "call_ctx c cx t = (if cl_timeout c > 0 then context_WithTimeout cx t (cl_timeout c) else cx)"

definition client_Execute ::
  "(nat \<Rightarrow> tcp_dialer) \<Rightarrow> (int \<Rightarrow> bool) \<Rightarrow> Client \<Rightarrow> ctx \<Rightarrow> bytes \<Rightarrow> bytes \<Rightarrow> bytes \<Rightarrow> world
     \<Rightarrow> bytes run \<times> world" where
  "client_Execute env tie c cx address password command w =
     (let cx = call_ctx c cx (w_now w);
          attempts = (if cl_attempts c < 1 then 1 else cl_attempts c)
      in client_retry env tie c cx address password command attempts 1 None w)"

subsection \<open>Sessions\<close>

record Session =
  ss_client :: Client
  ss_address :: bytes
  ss_password :: bytes
  ss_conn :: Conn

definition client_Dial ::
  "(nat \<Rightarrow> tcp_dialer) \<Rightarrow> Client \<Rightarrow> ctx \<Rightarrow> bytes \<Rightarrow> bytes \<Rightarrow> world \<Rightarrow> Session gores \<times> world" where
  "client_Dial env c cx address password w =
     andThen (client_dial env c cx address password w) (\<lambda>conn w.
       (Ok \<lparr>ss_client = c, ss_address = address, ss_password = password, ss_conn = conn\<rparr>, w))"

text \<open>Time passes for a connection between two calls.\<close>

definition conn_at :: "time \<Rightarrow> Conn \<Rightarrow> Conn" where
  "conn_at t c = with_sock ((c_conn c)\<lparr>clock := max (clock (c_conn c)) t\<rparr>) c"

definition Session_Execute ::
  "(nat \<Rightarrow> tcp_dialer) \<Rightarrow> ctx \<Rightarrow> bytes \<Rightarrow> Session \<Rightarrow> world \<Rightarrow> bytes gores \<times> Session \<times> world" where
  "Session_Execute env cx command s w =
     (let cx = call_ctx (ss_client s) cx (w_now w) in
      case Conn_Execute cx command (conn_at (w_now w) (ss_conn s)) of (out, conn1) \<Rightarrow>
      (let w = w\<lparr>w_now := clock (c_conn conn1)\<rparr> in
       case out of
         Err err \<Rightarrow>
           (if \<not> isRetryable (Some err) then (Err err, s\<lparr>ss_conn := conn1\<rparr>, w)
            else (let conn2 = snd (Conn_Close conn1) in
              case client_dial env (ss_client s) cx (ss_address s) (ss_password s) w of
                (Err derr, w) \<Rightarrow> (Err derr, s\<lparr>ss_conn := conn2\<rparr>, w)
              | (Hang, w) \<Rightarrow> (Hang, s\<lparr>ss_conn := conn2\<rparr>, w)
              | (Ok conn, w) \<Rightarrow>
                  (case Conn_Execute cx command conn of (out', conn') \<Rightarrow>
                     (out', s\<lparr>ss_conn := conn'\<rparr>,
                      w\<lparr>w_now := clock (c_conn conn'), w_socks := w_socks w @ [c_conn conn2]\<rparr>))))
       | _ \<Rightarrow> (out, s\<lparr>ss_conn := conn1\<rparr>, w)))"

definition Session_Close :: "Session \<Rightarrow> unit gores \<times> Session" where
  "Session_Close s = (case Conn_Close (ss_conn s) of (x, c) \<Rightarrow> (x, s\<lparr>ss_conn := c\<rparr>))"

end
