(* ===== verification/Rcon_Call.thy ===== *)
theory Rcon_Call
  imports Rcon_Client
begin

text \<open>
  Properties of the high-level client: how long its calls last, how often they dial, what
  they leave behind, how attempts make up a call, and what a session does when its
  connection breaks.
\<close>

subsection \<open>Opening keeps the settings and returns\<close>

lemma read_frame_set: "c_set (snd (conn_ReadFrom c)) = c_set c"
  using conn_ReadFrom_frame [of c] by (metis prod.collapse read_frame_def)

lemma rcon_open_set: "c_set (snd (rcon_open cx k password s)) = s"
proof -
  have "c_set (snd (authenticate password c)) = c_set c" for c
    unfolding authenticate_def split_beta Let_def
    by (intro andThen_keeps [where P = "\<lambda>c'. c_set c' = c_set c"])
      (auto simp: conn_WriteTo_set read_frame_set)
  then show ?thesis
    by (auto simp: rcon_open_def Let_def split: prod.splits res.splits)
qed

lemma authenticate_returns:
  assumes "rdeadline (c_conn c) = Some d" "wdeadline (c_conn c) = Some d"
  shows "fst (authenticate password c) \<noteq> Hang"
proof -
  obtain x c1 where w: "conn_WriteTo (auth_request password c) (c\<lparr>c_id := next_id (c_id c)\<rparr>) = (x, c1)" by fastforce
  have d1: "rdeadline (c_conn c1) = Some d" "x \<noteq> Hang"
    using w assms conn_WriteTo_returns [of "c\<lparr>c_id := next_id (c_id c)\<rparr>" d "auth_request password c" c1]
    by (auto simp: conn_WriteTo_def Packet_WriteTo_def sock_write_def wait_out_def
        split: prod.splits if_splits list.splits tx.splits option.splits)
  obtain y c2 where r: "conn_ReadFrom c1 = (y, c2)" by fastforce
  have d2: "rdeadline (c_conn c2) = Some d" "y \<noteq> Hang"
    using conn_ReadFrom_frame [OF r] d1 r conn_ReadFrom_returns [of c1 d c2] by (auto simp: read_frame_def)
  obtain z c3 where r2: "conn_ReadFrom c2 = (z, c3)" by fastforce
  have "z \<noteq> Hang" using r2 d2 conn_ReadFrom_returns [of c2 d c3] by auto
  with w d1 d2 r r2 show ?thesis
    by (cases x; cases y; cases z) (auto simp: authenticate_def auth_request_def split: if_splits)
qed

lemma rcon_open_returns:
  assumes "effective_deadline cx (deadline s) (clock k) = Some d"
  shows "fst (rcon_open cx k password s) \<noteq> Hang"
proof (cases "sclosed k")
  case True
  then show ?thesis by (simp add: rcon_open_def Let_def applyContextDeadline_closed)
next
  case False
  then show ?thesis
    using assms authenticate_returns by (simp add: rcon_open_def Let_def applyContextDeadline_open)
qed

subsection \<open>Calls with a deadline\<close>

text \<open>What \<^verbatim>\<open>net.Dialer.DialContext\<close> documents, and a \<^verbatim>\<open>DialFunc\<close> is to do: a
  dial returns, and by the deadline of its context.\<close>

definition prompt :: "(nat \<Rightarrow> tcp_dialer) \<Rightarrow> Client \<Rightarrow> bool" where
  "prompt env c \<longleftrightarrow>
     (\<forall>n t d cx a D. ctx_Deadline cx = Some D \<longrightarrow>
        fst (env n t d cx a) \<noteq> Hang \<and> snd (env n t d cx a) \<le> max t D)
     \<and> (\<forall>f n t cx a D. cl_dialer c = Some f \<and> ctx_Deadline cx = Some D \<longrightarrow>
        fst (f n t cx a) \<noteq> Hang \<and> snd (f n t cx a) \<le> max t D)"

lemma effective_deadline_ctx:
  assumes "ctx_Deadline cx = Some D"
  obtains d where "effective_deadline cx op now = Some d" "d \<le> D"
proof (rule that)
  show "effective_deadline cx op now = Some (if op > 0 then min D (now + op) else D)"
    using assms by (simp add: effective_deadline_def)
qed simp

lemma rcon_open_in_time:
  assumes "ctx_Deadline cx = Some D"
  shows "fst (rcon_open cx k password s) \<noteq> Hang \<and>
    clock (c_conn (snd (rcon_open cx k password s))) \<le> max (clock k) D"
proof -
  obtain d where "effective_deadline cx (deadline s) (clock k) = Some d" "d \<le> D"
    using assms by (rule effective_deadline_ctx)
  then show ?thesis
    using rcon_open_clock [of cx s k d password] rcon_open_returns [of cx s k d password]
    by (auto simp: le_max_iff_disj)
qed

lemma Execute_in_time:
  assumes "ctx_Deadline cx = Some D" "mode (c_set c) \<noteq> readIdle"
  shows "fst (Conn_Execute cx command c) \<noteq> Hang \<and>
    clock (c_conn (snd (Conn_Execute cx command c))) \<le> max (clock (c_conn c)) D"
proof -
  obtain d where "effective_deadline cx (deadline (c_set c)) (clock (c_conn c)) = Some d" "d \<le> D"
    using assms(1) by (rule effective_deadline_ctx)
  then show ?thesis
    using Execute_clock [OF assms(2), of cx d command] Execute_not_hang [of cx c command]
    by (auto simp: le_max_iff_disj)
qed

lemma rcon_Dial_in_time:
  assumes "ctx_Deadline cx = Some D" "fst (tcp t d cx a) \<noteq> Hang" "snd (tcp t d cx a) \<le> max t D"
    "d = dialTimeout (newSettings opts)" "rcon_Dial tcp t cx a password opts = (x, dropped, t')"
  shows "x \<noteq> Hang" "t' \<le> max t D" "x = Ok conn \<Longrightarrow> clock (c_conn conn) = t' \<and> c_set conn = newSettings opts"
proof -
  obtain y u where y: "tcp t d cx a = (y, u)" by fastforce
  have *: "x \<noteq> Hang \<and> t' \<le> max t D \<and> (\<forall>conn. x = Ok conn \<longrightarrow> clock (c_conn conn) = t' \<and> c_set conn = newSettings opts)"
  proof (cases y)
    case (Ok k)
    obtain z c where z: "rcon_open cx (k\<lparr>clock := u\<rparr>) password (newSettings opts) = (z, c)" by fastforce
    have "z \<noteq> Hang" "clock (c_conn c) \<le> max u D" "c_set c = newSettings opts"
      using rcon_open_in_time [OF assms(1), of "k\<lparr>clock := u\<rparr>" password "newSettings opts"] z
        rcon_open_set [of cx "k\<lparr>clock := u\<rparr>" password "newSettings opts"] by simp_all
    with assms y Ok z show ?thesis
      by (cases z) (auto simp: rcon_Dial_def Let_def)
  qed (use assms y in \<open>auto simp: rcon_Dial_def Let_def\<close>)
  then show "x \<noteq> Hang" "t' \<le> max t D" "x = Ok conn \<Longrightarrow> clock (c_conn conn) = t' \<and> c_set conn = newSettings opts"
    by auto
qed

lemma dial_options_mode:
  "\<not> cl_idleDrain c \<Longrightarrow> mode (newSettings (dial_options c)) \<noteq> readIdle"
  "\<not> cl_idleDrain c \<Longrightarrow> mode (newSettings (WithDialTimeout d # dial_options c)) \<noteq> readIdle"
  by (auto simp: dial_options_def option_defs)

lemma client_dial_in_time:
  assumes "prompt env c" "ctx_Deadline cx = Some D" "client_dial env c cx address password w = (x, w')"
  shows "x \<noteq> Hang" "w_now w' \<le> max (w_now w) D"
    "x = Ok conn \<Longrightarrow> \<not> cl_idleDrain c \<Longrightarrow> mode (c_set conn) \<noteq> readIdle"
    "x = Ok conn \<Longrightarrow> clock (c_conn conn) = w_now w'"
proof -
  have "x \<noteq> Hang \<and> w_now w' \<le> max (w_now w) D \<and> (\<forall>conn. x = Ok conn \<longrightarrow>
      (\<not> cl_idleDrain c \<longrightarrow> mode (c_set conn) \<noteq> readIdle) \<and> clock (c_conn conn) = w_now w')"
  proof (cases "cl_dialer c")
    case None
    let ?opts = "WithDialTimeout (cl_dialTimeout c) # dial_options c"
    obtain y dropped t where r: "rcon_Dial (env (w_dials w)) (w_now w) cx address password ?opts = (y, dropped, t)"
      by (rule prod_cases3)
    have p: "fst (env (w_dials w) (w_now w) d cx address) \<noteq> Hang"
      "snd (env (w_dials w) (w_now w) d cx address) \<le> max (w_now w) D" for d
      using assms(1,2) by (simp_all add: prompt_def)
    note in_time = rcon_Dial_in_time [OF assms(2) p refl r]
    show ?thesis
      using assms(3) None r in_time dial_options_mode(2) [of c "cl_dialTimeout c"]
      by (auto simp: client_dial_def Let_def)
  next
    case (Some f)
    obtain y t where f: "f (w_dials w) (w_now w) cx address = (y, t)" by fastforce
    have p: "y \<noteq> Hang" "t \<le> max (w_now w) D"
      using assms(1,2) Some f by (auto simp: prompt_def) (metis fst_conv snd_conv)+
    have o: "fst (rcon_Open cx (nc\<lparr>clock := t\<rparr>) password (dial_options c)) \<noteq> Hang"
      "clock (c_conn (snd (rcon_Open cx (nc\<lparr>clock := t\<rparr>) password (dial_options c)))) \<le> max t D"
      "c_set (snd (rcon_Open cx (nc\<lparr>clock := t\<rparr>) password (dial_options c))) = newSettings (dial_options c)" for nc
      using rcon_open_in_time [OF assms(2), of "nc\<lparr>clock := t\<rparr>" password]
      by (simp_all add: rcon_Open_def rcon_open_set)
    show ?thesis
    proof (cases "\<exists>nc. y = Ok (Some nc)")
      case True
      then obtain nc where nc: "y = Ok (Some nc)" by blast
      obtain z k where z: "rcon_Open cx (nc\<lparr>clock := t\<rparr>) password (dial_options c) = (z, k)" by fastforce
      have "z \<noteq> Hang" "clock (c_conn k) \<le> max t D" "c_set k = newSettings (dial_options c)"
        using o [of nc] z by simp_all
      with assms(3) Some f nc z p dial_options_mode(1) [of c] show ?thesis
        by (cases z) (auto simp: client_dial_def Let_def)
    next
      case False
      with assms(3) Some f p show ?thesis
        by (auto simp: client_dial_def Let_def split: res.splits option.splits)
    qed
  qed
  then show "x \<noteq> Hang" "w_now w' \<le> max (w_now w) D"
    "x = Ok conn \<Longrightarrow> \<not> cl_idleDrain c \<Longrightarrow> mode (c_set conn) \<noteq> readIdle"
    "x = Ok conn \<Longrightarrow> clock (c_conn conn) = w_now w'"
    by auto
qed

lemma Conn_Close_clock [simp]: "clock (c_conn (snd (Conn_Close c))) = clock (c_conn c)"
  by (simp add: Conn_Close_def sock_Close_def split: prod.split)

lemma executeOnce_in_time:
  assumes "prompt env c" "ctx_Deadline cx = Some D" "\<not> cl_idleDrain c"
    "executeOnce env c cx address password command w = (x, w')"
  shows "x \<noteq> Hang" "w_now w' \<le> max (w_now w) D"
proof -
  obtain y w1 where d: "client_dial env c cx address password w = (y, w1)" by fastforce
  note t = client_dial_in_time [OF assms(1,2) d]
  have "x \<noteq> Hang \<and> w_now w' \<le> max (w_now w) D"
  proof (cases y)
    case (Ok conn)
    obtain z conn' where e: "Conn_Execute cx command conn = (z, conn')" by fastforce
    have "z \<noteq> Hang" "clock (c_conn conn') \<le> max (clock (c_conn conn)) D"
      using Execute_in_time [OF assms(2) t(3) [OF Ok assms(3)], of command] e by simp_all
    with t Ok d e assms(4) show ?thesis
      by (cases z) (auto simp: executeOnce_def Let_def)
  qed (use t d assms(4) in \<open>auto simp: executeOnce_def\<close>)
  then show "x \<noteq> Hang" "w_now w' \<le> max (w_now w) D" by auto
qed

lemma select_backoff_in_time:
  assumes "ctx_Deadline cx = Some D"
  shows "snd (select_backoff tie b cx t) \<le> max t D"
  using ctx_done_deadline [OF assms] by (auto simp: select_backoff_def Let_def)

lemma client_retry_in_time:
  assumes "prompt env c" "ctx_Deadline cx = Some D" "\<not> cl_idleDrain c"
    "client_retry env tie c cx address password command attempts attempt lastErr w = (x, w')"
  shows "x \<noteq> Ran Hang \<and> w_now w' \<le> max (w_now w) D"
  using assms(4)
proof (induction "nat (attempts - attempt + 1)" arbitrary: attempt lastErr w rule: less_induct)
  case less
  obtain y w1 where e: "executeOnce env c cx address password command w = (y, w1)" by fastforce
  note t = executeOnce_in_time [OF assms(1-3) e]
  show ?case
  proof (cases "attempt \<le> attempts \<and> (\<exists>err. y = Err err \<and> isRetryable (Some err) \<and> attempt \<noteq> attempts)")
    case False
    with less.prems e t show ?thesis
      by (auto simp: client_retry.simps [of env tie c cx address password command attempts attempt]
          split: if_splits res.splits option.splits)
  next
    case True
    then obtain err where err: "attempt \<le> attempts" "y = Err err" "isRetryable (Some err)" "attempt \<noteq> attempts" by blast
    have IH: "x \<noteq> Ran Hang \<and> w_now w' \<le> max (w_now v) D"
      if "client_retry env tie c cx address password command attempts (attempt + 1) (Some err) v = (x, w')" for v
      by (rule less.hyps [OF _ that]) (use err in simp)
    have s: "snd (select_backoff (tie attempt) b cx (w_now w1)) \<le> max (w_now w1) D" for b
      by (rule select_backoff_in_time [OF assms(2)])
    show ?thesis
    proof (cases "cl_backoff c")
      case None
      with less.prems e t err IH [of w1] show ?thesis
        by (auto simp: client_retry.simps [of env tie c cx address password command attempts attempt])
    next
      case (Some f)
      show ?thesis
      proof (cases "f attempt")
        case None
        with Some less.prems e t err show ?thesis
          by (auto simp: client_retry.simps [of env tie c cx address password command attempts attempt])
      next
        case (Some b)
        obtain r u where u: "select_backoff (tie attempt) b cx (w_now w1) = (r, u)" by fastforce
        with s [of b] t have "u \<le> max (w_now w) D" by auto
        with Some \<open>cl_backoff c = Some f\<close> less.prems e t err u IH [of "w1\<lparr>w_now := u\<rparr>"] show ?thesis
          by (cases r) (auto simp: client_retry.simps [of env tie c cx address password command attempts attempt])
      qed
    qed
  qed
qed

subsection \<open>Attempts and sockets\<close>

lemma client_dial_dials: "client_dial env c cx address password w = (x, w') \<Longrightarrow> w_dials w' = w_dials w + 1"
  by (auto simp: client_dial_def Let_def split: option.splits prod.splits res.splits)

text \<open>A dial that returns leaves behind closed sockets only.\<close>

lemma client_dial_socks:
  assumes "client_dial env c cx address password w = (x, w')" "x \<noteq> Hang"
  shows "\<exists>new. w_socks w' = w_socks w @ new \<and> list_all sclosed new"
proof -
  have cl: "sclosed (snd (sock_Close k))" for k by (simp add: sock_Close_def)
  have dial: "sclosed s"
    if "rcon_Dial tcp t cx address password opts = (x, Some s, t')" for tcp t opts s t'
    using that assms(2) cl by (auto simp: rcon_Dial_def Let_def split: prod.splits res.splits option.splits)
  show ?thesis
    using assms cl dial
    by (auto simp: client_dial_def Let_def split: option.splits prod.splits res.splits)
qed

lemma executeOnce_effect:
  assumes "executeOnce env c cx address password command w = (x, w')"
  shows "w_dials w' = w_dials w + 1"
    "x \<noteq> Hang \<Longrightarrow> \<exists>new. w_socks w' = w_socks w @ new \<and> list_all sclosed new"
proof -
  obtain y w1 where d: "client_dial env c cx address password w = (y, w1)" by fastforce
  note d' = client_dial_dials [OF d] client_dial_socks [OF d]
  have cl: "sclosed (c_conn (snd (Conn_Close k)))" for k
    by (simp add: Conn_Close_def sock_Close_def split: prod.split)
  have "w_dials w' = w_dials w + 1 \<and> (x \<noteq> Hang \<longrightarrow> (\<exists>new. w_socks w' = w_socks w @ new \<and> list_all sclosed new))"
  proof (cases y)
    case (Ok conn)
    obtain z conn' where e: "Conn_Execute cx command conn = (z, conn')" by fastforce
    show ?thesis
      using assms d d' Ok e cl by (cases z) (auto simp: executeOnce_def Let_def)
  qed (use assms d d' in \<open>auto simp: executeOnce_def\<close>)
  then show "w_dials w' = w_dials w + 1"
    "x \<noteq> Hang \<Longrightarrow> \<exists>new. w_socks w' = w_socks w @ new \<and> list_all sclosed new"
    by auto
qed

text \<open>What holds of every single attempt, and does not depend on the time, holds of the loop.\<close>

lemma client_retry_invariant:
  assumes once: "\<And>i w x w'. I i w \<Longrightarrow> executeOnce env c cx address password command w = (x, w') \<Longrightarrow> x \<noteq> Hang
      \<Longrightarrow> I (i + 1) w'"
    and time: "\<And>i w t. I i w \<Longrightarrow> I i (w\<lparr>w_now := t\<rparr>)"
    and start: "I attempt w" "attempt \<le> attempts"
    and res: "client_retry env tie c cx address password command attempts attempt lastErr w = (x, w')" "x \<noteq> Ran Hang"
  shows "\<exists>i \<le> attempts. attempt \<le> i \<and> I (i + 1) w'"
  using start res
proof (induction "nat (attempts - attempt + 1)" arbitrary: attempt lastErr w rule: less_induct)
  case less
  obtain y w1 where e: "executeOnce env c cx address password command w = (y, w1)" by fastforce
  have I1: "I (attempt + 1) w1" if "y \<noteq> Hang" using once [OF less.prems(1) e that] .
  have stop: ?case if "w' = w1\<lparr>w_now := t\<rparr> \<or> w' = w1" "y \<noteq> Hang" for t
    using that I1 time [of "attempt + 1" w1] less.prems(2) by blast
  have IH: ?case
    if "client_retry env tie c cx address password command attempts (attempt + 1) (Some err) v = (x, w')"
      "I (attempt + 1) v" "attempt \<noteq> attempts" for v err
    using less.hyps [of "attempt + 1" v "Some err"] that less.prems(2,4) by force
  show ?case
    using less.prems(2-4) e stop IH I1 time [of "attempt + 1" w1]
    by (auto simp: client_retry.simps [of env tie c cx address password command attempts attempt]
        split: res.splits if_splits option.splits prod.splits)
qed

subsection \<open>Concrete clients\<close>

text \<open>A network whose first dial is refused at once, and whose later dials reach a server
  that logs the client in, answers and is silent.\<close>

definition flaky :: "nat \<Rightarrow> tcp_dialer" where
  "flaky n t d cx a =
     (if n = 0 then (Err (NetError (NetFault False ''refused'')), t)
      else (Ok (fresh_sock [(t, RxData (frames [reply 1 [], \<lparr>ID = 1, Type = 2, Body = []\<rparr>,
              reply 2 ''pong'', reply 3 []]))]), t))"

definition start :: world where
  "start = \<lparr>w_now = 100, w_dials = 0, w_socks = []\<rparr>"

lemma flaky_prompt: "cl_dialer c = None \<Longrightarrow> prompt flaky c"
  by (simp add: prompt_def flaky_def)

subsection \<open>Properties of the client\<close>

text \<open>C15: with a timeout set and dialers that honour their context, \<^verbatim>\<open>Client.Execute\<close>,
  with all its dials, handshakes, commands and backoffs, never blocks and is over when the
  timeout is, unless it reads until idle.\<close>

theorem client_Execute_in_time:
  assumes "cl_timeout c > 0" "prompt env c" "\<not> cl_idleDrain c"
    "client_Execute env tie c cx address password command w = (x, w')"
  shows "x \<noteq> Ran Hang \<and> w_now w' \<le> w_now w + cl_timeout c"
proof -
  obtain D where D: "ctx_Deadline (call_ctx c cx (w_now w)) = Some D" "D \<le> w_now w + cl_timeout c"
    using assms(1) by (cases "ctx_Deadline cx") (simp_all add: call_ctx_def context_WithTimeout_def)
  from assms(1) D(2) client_retry_in_time [OF assms(2) D(1) assms(3) assms(4) [unfolded client_Execute_def Let_def]]
  show ?thesis by auto
qed

theorem client_Execute_in_time_witness:
  "w_now (snd (client_Execute flaky (\<lambda>_. True) (client_New [client_WithTimeout 50, client_WithRetry 3 (Some (\<lambda>n. Some 10))])
     context_Background ''h'' ''pw'' ''ping'' start)) \<le> 150"
proof -
  let ?c = "client_New [client_WithTimeout 50, client_WithRetry 3 (Some (\<lambda>n. Some 10))]"
  have h: "cl_timeout ?c > 0" "\<not> cl_idleDrain ?c" "cl_dialer ?c = None"
    by (simp_all add: client_option_defs)
  have "w_now start + cl_timeout ?c = 150" by (simp add: start_def client_option_defs)
  with client_Execute_in_time [OF h(1) flaky_prompt [OF h(3)] h(2) prod.collapse [symmetric]]
  show ?thesis by metis
qed

text \<open>C17: a call of \<^verbatim>\<open>Client.Execute\<close> that does not block dials at least once and at most
  as often as it has attempts, and every socket it opened is closed when it returns or
  panics.\<close>

theorem client_Execute_cleans_up:
  assumes "client_Execute env tie c cx address password command w = (x, w')" "x \<noteq> Ran Hang"
  shows "w_dials w < w_dials w' \<and> int (w_dials w') \<le> int (w_dials w) + max 1 (cl_attempts c)
    \<and> (\<exists>new. w_socks w' = w_socks w @ new \<and> list_all sclosed new)"
proof -
  let ?I = "\<lambda>i w'. int (w_dials w') = int (w_dials w) + i - 1
    \<and> (\<exists>new. w_socks w' = w_socks w @ new \<and> list_all sclosed new)"
  let ?n = "if cl_attempts c < 1 then 1 else cl_attempts c"
  have "\<exists>i \<le> ?n. 1 \<le> i \<and> ?I (i + 1) w'"
  proof (rule client_retry_invariant [OF _ _ _ _ assms(1) [unfolded client_Execute_def Let_def] assms(2)])
    fix i v y v'
    assume i: "?I i v" and e: "executeOnce env c (call_ctx c cx (w_now w)) address password command v = (y, v')" "y \<noteq> Hang"
    obtain new where "w_socks v = w_socks w @ new" "list_all sclosed new" using i by blast
    moreover obtain new' where "w_socks v' = w_socks v @ new'" "list_all sclosed new'"
      using executeOnce_effect(2) [OF e] by blast
    ultimately have "w_socks v' = w_socks w @ (new @ new')" "list_all sclosed (new @ new')" by simp_all
    then show "?I (i + 1) v'" using i executeOnce_effect(1) [OF e(1)] by auto
  qed auto
  then show ?thesis by (auto split: if_splits)
qed

theorem client_Execute_cleans_up_witness:
  "list_all sclosed (w_socks (snd (client_Execute flaky (\<lambda>_. True) (client_New [client_WithRetry 2 None])
     context_Background ''h'' ''pw'' ''ping'' start)))"
proof -
  let ?r = "client_Execute flaky (\<lambda>_. True) (client_New [client_WithRetry 2 None]) context_Background ''h'' ''pw'' ''ping'' start"
  have "fst ?r = Ran (Ok ''pong'')" by code_simp
  then have "fst ?r \<noteq> Ran Hang" by simp
  from client_Execute_cleans_up [OF prod.collapse [symmetric] this] show ?thesis
    by (auto simp: start_def)
qed

text \<open>The attempts in order, without a backoff: the world before the \<open>i\<close>-th, from zero, and
  its result.\<close>

fun world_before :: "(nat \<Rightarrow> tcp_dialer) \<Rightarrow> Client \<Rightarrow> ctx \<Rightarrow> bytes \<Rightarrow> bytes \<Rightarrow> bytes \<Rightarrow> world \<Rightarrow> nat \<Rightarrow> world" where
  "world_before env c cx address password command w 0 = w"
| "world_before env c cx address password command w (Suc i) =
     snd (executeOnce env c cx address password command
       (world_before env c cx address password command w i))"

definition result_of :: "(nat \<Rightarrow> tcp_dialer) \<Rightarrow> Client \<Rightarrow> ctx \<Rightarrow> bytes \<Rightarrow> bytes \<Rightarrow> bytes \<Rightarrow> world \<Rightarrow> nat \<Rightarrow> bytes gores" where
  "result_of env c cx address password command w i =
     fst (executeOnce env c cx address password command
       (world_before env c cx address password command w i))"

definition retryable :: "bytes gores \<Rightarrow> bool" where
  "retryable r = (case r of Err e \<Rightarrow> isRetryable (Some e) | _ \<Rightarrow> False)"

lemma client_retry_first:
  assumes "cl_backoff c = None" "int i + 1 \<le> attempts"
    "\<forall>j < i. retryable (result_of env c cx address password command w j)"
  shows "\<exists>k \<ge> i. int k + 1 \<le> attempts
    \<and> (\<forall>j < k. retryable (result_of env c cx address password command w j))
    \<and> (int k + 1 < attempts \<longrightarrow> \<not> retryable (result_of env c cx address password command w k))
    \<and> client_retry env tie c cx address password command attempts (int i + 1) lastErr
        (world_before env c cx address password command w i) =
      (Ran (result_of env c cx address password command w k),
       world_before env c cx address password command w (Suc k))"
  using assms(2,3)
proof (induction "nat (attempts - int i)" arbitrary: i lastErr rule: less_induct)
  case less
  let ?r = "result_of env c cx address password command w" and ?W = "world_before env c cx address password command w"
  obtain v where v: "?W (Suc i) = v" by blast
  then have e: "executeOnce env c cx address password command (?W i) = (?r i, v)"
    by (auto simp: result_of_def)
  show ?case
  proof (cases "retryable (?r i) \<and> int i + 1 \<noteq> attempts")
    case True
    then obtain err where err: "?r i = Err err" "isRetryable (Some err)"
      by (auto simp: retryable_def split: res.splits)
    have "\<forall>j < Suc i. retryable (?r j)" using True less.prems(2) by (auto simp: less_Suc_eq)
    with less.hyps [of "Suc i" "Some err"] less.prems(1) True
    obtain k where "k \<ge> Suc i" "int k + 1 \<le> attempts" "\<forall>j < k. retryable (?r j)"
      "int k + 1 < attempts \<longrightarrow> \<not> retryable (?r k)"
      "client_retry env tie c cx address password command attempts (int (Suc i) + 1) (Some err) (?W (Suc i)) =
        (Ran (?r k), ?W (Suc k))" by auto
    moreover have "client_retry env tie c cx address password command attempts (int i + 1) lastErr (?W i) =
        client_retry env tie c cx address password command attempts (int (Suc i) + 1) (Some err) (?W (Suc i))"
      unfolding v using less.prems(1) True err e assms(1)
      by (subst client_retry.simps) (simp add: add.commute)
    ultimately show ?thesis by (metis Suc_leD)
  next
    case False
    then have "client_retry env tie c cx address password command attempts (int i + 1) lastErr (?W i) = (Ran (?r i), ?W (Suc i))"
      unfolding v using less.prems(1) e
      by (subst client_retry.simps) (auto simp: retryable_def split: res.splits)
    with False less.prems show ?thesis by (intro exI [of _ i]) auto
  qed
qed

text \<open>C16: without a backoff, \<^verbatim>\<open>Client.Execute\<close> is its attempts in order up to the first
  that succeeds or fails with an error not worth a retry, or the last it is allowed: its
  result is that attempt's, and no attempt is made after it.\<close>

theorem client_Execute_retries:
  assumes "cl_backoff c = None" "D = call_ctx c cx (w_now w)"
  shows "\<exists>k. int k + 1 \<le> max 1 (cl_attempts c)
    \<and> (\<forall>j < k. retryable (result_of env c D address password command w j))
    \<and> (int k + 1 < max 1 (cl_attempts c) \<longrightarrow> \<not> retryable (result_of env c D address password command w k))
    \<and> client_Execute env tie c cx address password command w =
      (Ran (result_of env c D address password command w k),
       world_before env c D address password command w (Suc k))"
proof -
  have n: "(if cl_attempts c < 1 then 1 else cl_attempts c) = max 1 (cl_attempts c)" by auto
  from client_retry_first [OF assms(1), of 0 "max 1 (cl_attempts c)" env D address password command w tie None]
  show ?thesis
    by (simp add: client_Execute_def Let_def n assms(2) del: world_before.simps(2))
qed

theorem client_Execute_retries_witness:
  "\<exists>k. int k + 1 \<le> 5 \<and> client_Execute flaky (\<lambda>_. True) (client_New [client_WithTimeout 0, client_WithRetry 5 None])
      context_Background ''h'' ''pw'' ''ping'' start =
    (Ran (result_of flaky (client_New [client_WithTimeout 0, client_WithRetry 5 None]) context_Background
        ''h'' ''pw'' ''ping'' start k),
     world_before flaky (client_New [client_WithTimeout 0, client_WithRetry 5 None]) context_Background
        ''h'' ''pw'' ''ping'' start (Suc k))"
proof -
  let ?c = "client_New [client_WithTimeout 0, client_WithRetry 5 None]"
  have "cl_backoff ?c = None" "context_Background = call_ctx ?c context_Background (w_now start)" "max 1 (cl_attempts ?c) = 5"
    by (simp_all add: client_option_defs call_ctx_def)
  with client_Execute_retries [OF this(1,2)] show ?thesis by metis
qed

subsection \<open>Properties of sessions\<close>

lemma conn_at_simps [simp]:
  "c_set (conn_at t c) = c_set c" "c_closed (conn_at t c) = c_closed c"
  "clock (c_conn (conn_at t c)) = max (clock (c_conn c)) t"
  by (simp_all add: conn_at_def with_sock_def)

lemma Execute_closed: "c_closed c \<Longrightarrow> Conn_Execute cx command c = (Err ErrClosed, c)"
  by (simp add: Conn_Execute_def)

text \<open>Calls on a session one after the other, each with its own network, context, command and
  the time that passes before it.\<close>

fun session_calls ::
  "((nat \<Rightarrow> tcp_dialer) \<times> ctx \<times> bytes \<times> nat) list \<Rightarrow> Session \<Rightarrow> world \<Rightarrow> bytes gores list \<times> Session \<times> world" where
  "session_calls [] s w = ([], s, w)"
| "session_calls ((env, cx, command, pause) # calls) s w =
     (case Session_Execute env cx command s (w\<lparr>w_now := w_now w + int pause\<rparr>) of (x, s', w') \<Rightarrow>
        (case session_calls calls s' w' of (xs, s'', w'') \<Rightarrow> (x # xs, s'', w'')))"

lemma Session_Execute_closed:
  assumes "c_closed (ss_conn s)" "Session_Execute env cx command s w = (x, s', w')"
  shows "x = Err ErrClosed" "c_closed (ss_conn s')" "w_dials w' = w_dials w"
  using assms by (auto simp: Session_Execute_def Let_def Execute_closed)

lemma session_calls_closed:
  "c_closed (ss_conn s) \<Longrightarrow> session_calls calls s w = (xs, s', w') \<Longrightarrow>
    xs = replicate (length calls) (Err ErrClosed) \<and> w_dials w' = w_dials w"
proof (induction calls arbitrary: s w xs s' w')
  case (Cons call calls)
  obtain env cx command pause where call: "call = (env, cx, command, pause)" by (rule prod_cases4)
  obtain x s1 w1 where x: "Session_Execute env cx command s (w\<lparr>w_now := w_now w + int pause\<rparr>) = (x, s1, w1)"
    by (rule prod_cases3)
  obtain ys s2 w2 where ys: "session_calls calls s1 w1 = (ys, s2, w2)" by (rule prod_cases3)
  from Session_Execute_closed [OF Cons.prems(1) x] Cons.IH [OF _ ys] Cons.prems(2) call x ys show ?case
    by auto
qed simp

text \<open>C18: a session whose one reconnect fails is dead: the call returns the dial's error, and
  every call of every later sequence of calls on the session, whenever they come and even if
  the server can be reached again, returns \<^verbatim>\<open>ErrClosed\<close>, and none of them dials.\<close>

theorem session_dead_after_failed_reconnect:
  assumes "cx' = call_ctx (ss_client s) cx (w_now w)"
    "Conn_Execute cx' command (conn_at (w_now w) (ss_conn s)) = (Err err, conn1)" "isRetryable (Some err)"
    "client_dial env (ss_client s) cx' (ss_address s) (ss_password s) (w\<lparr>w_now := clock (c_conn conn1)\<rparr>) = (Err derr, w')"
    "Session_Execute env cx command s w = (x, s', v)" "session_calls calls s' v = (xs, s'', v')"
  shows "x = Err derr \<and> xs = replicate (length calls) (Err ErrClosed) \<and> w_dials v' = w_dials v"
proof -
  have "x = Err derr" "s' = s\<lparr>ss_conn := snd (Conn_Close conn1)\<rparr>"
    using assms(1-5) by (auto simp: Session_Execute_def Let_def)
  moreover have "c_closed (snd (Conn_Close conn1))"
    by (simp add: Conn_Close_def with_sock_def split: prod.split)
  ultimately show ?thesis using session_calls_closed [OF _ assms(6)] by simp
qed

text \<open>A session whose server has closed its connection.\<close>

definition stale :: Session where
  "stale = \<lparr>ss_client = client_New [], ss_address = ''h'', ss_password = ''pw'', ss_conn = opened [] [(1, RxEOF)]\<rparr>"

theorem session_dead_after_failed_reconnect_witness:
  "fst (session_calls [(flaky, context_Background, ''ping'', 0), (\<lambda>n. flaky 1, context_Background, ''again'', 5),
       (\<lambda>n. flaky 1, context_Background, ''once more'', 1)] stale start)
   = [Err (NetError (NetFault False ''refused'')), Err ErrClosed, Err ErrClosed]"
proof -
  let ?x = "call_ctx (ss_client stale) context_Background (w_now start)"
  let ?e = "Conn_Execute ?x ''ping'' (conn_at (w_now start) (ss_conn stale))"
  let ?d = "client_dial flaky (ss_client stale) ?x (ss_address stale) (ss_password stale) (start\<lparr>w_now := clock (c_conn (snd ?e))\<rparr>)"
  let ?later = "[(\<lambda>n. flaky 1, context_Background, ''again'', 5), (\<lambda>n. flaky 1, context_Background, ''once more'', 1)]"
  have "fst ?e = Err IoEOF" by code_simp
  then have e: "?e = (Err IoEOF, snd ?e)" by (metis prod.collapse)
  have "fst ?d = Err (NetError (NetFault False ''refused''))" by code_simp
  then have d: "?d = (Err (NetError (NetFault False ''refused'')), snd ?d)" by (metis prod.collapse)
  obtain x s' v where r: "Session_Execute flaky context_Background ''ping'' stale start = (x, s', v)" by (rule prod_cases3)
  obtain xs s'' v' where rs: "session_calls ?later s' v = (xs, s'', v')" by (rule prod_cases3)
  have "isRetryable (Some IoEOF)" by code_simp
  from session_dead_after_failed_reconnect [OF refl e this d r rs] r rs show ?thesis
    by (simp add: numeral_2_eq_2 del: session_calls.simps(2) add: session_calls.simps(2) [of flaky])
qed

lemma Session_Execute_effect:
  assumes "Session_Execute env cx command s w = (x, s', w')" "x \<noteq> Hang"
  shows "w_dials w \<le> w_dials w' \<and> w_dials w' \<le> w_dials w + 1
    \<and> (\<exists>new. w_socks w' = w_socks w @ new \<and> list_all sclosed new)"
proof -
  let ?x = "call_ctx (ss_client s) cx (w_now w)"
  obtain y c1 where e: "Conn_Execute ?x command (conn_at (w_now w) (ss_conn s)) = (y, c1)" by fastforce
  show ?thesis
  proof (cases "\<exists>err. y = Err err \<and> isRetryable (Some err)")
    case False
    with assms e show ?thesis
      by (auto simp: Session_Execute_def Let_def split: res.splits if_splits)
  next
    case True
    then obtain err where err: "y = Err err" "isRetryable (Some err)" by blast
    obtain z w1 where d: "client_dial env (ss_client s) ?x (ss_address s) (ss_password s)
        (w\<lparr>w_now := clock (c_conn c1)\<rparr>) = (z, w1)" by fastforce
    have "sclosed (c_conn (snd (Conn_Close c1)))"
      by (simp add: Conn_Close_def sock_Close_def split: prod.split)
    with assms e err d client_dial_dials [OF d] client_dial_socks [OF d] show ?thesis
      by (cases z) (auto simp: Session_Execute_def Let_def split: prod.splits)
  qed
qed

text \<open>C22: a call on a session that returns dials at most once, and every socket it lets go
  is closed.\<close>

theorem session_one_reconnect:
  assumes "Session_Execute env cx command s w = (x, s', w')" "x \<noteq> Hang"
  shows "w_dials w \<le> w_dials w' \<and> w_dials w' \<le> w_dials w + 1
    \<and> (\<exists>new. w_socks w' = w_socks w @ new \<and> list_all sclosed new)"
  using assms by (rule Session_Execute_effect)

theorem session_one_reconnect_witness:
  "w_dials (snd (snd (Session_Execute (\<lambda>n. flaky 1) context_Background ''ping'' stale start))) \<le> 0 + 1"
proof -
  obtain x s' w' where r: "Session_Execute (\<lambda>n. flaky 1) context_Background ''ping'' stale start = (x, s', w')"
    by (rule prod_cases3)
  have "fst (Session_Execute (\<lambda>n. flaky 1) context_Background ''ping'' stale start) = Ok ''pong''" by code_simp
  then have "x \<noteq> Hang" using r by simp
  from session_one_reconnect [OF r this] r show ?thesis by (simp add: start_def)
qed

text \<open>C21: with a timeout set and dialers that honour their context, a call on a session, with
  its reconnect, never blocks and is over when the timeout is, unless it reads until idle.\<close>

theorem session_in_time:
  assumes "cl_timeout (ss_client s) > 0" "prompt env (ss_client s)" "\<not> cl_idleDrain (ss_client s)"
    "mode (c_set (ss_conn s)) \<noteq> readIdle" "clock (c_conn (ss_conn s)) \<le> w_now w"
    "Session_Execute env cx command s w = (x, s', w')"
  shows "x \<noteq> Hang \<and> w_now w' \<le> w_now w + cl_timeout (ss_client s)"
proof -
  let ?x = "call_ctx (ss_client s) cx (w_now w)"
  obtain D where D: "ctx_Deadline ?x = Some D" "D \<le> w_now w + cl_timeout (ss_client s)"
    using assms(1) by (cases "ctx_Deadline cx") (simp_all add: call_ctx_def context_WithTimeout_def)
  obtain y c1 where e: "Conn_Execute ?x command (conn_at (w_now w) (ss_conn s)) = (y, c1)" by fastforce
  have c1: "y \<noteq> Hang" "clock (c_conn c1) \<le> max (w_now w) D"
    using Execute_in_time [OF D(1), of "conn_at (w_now w) (ss_conn s)" command] e assms(4,5) by simp_all
  obtain z w1 where d: "client_dial env (ss_client s) ?x (ss_address s) (ss_password s)
      (w\<lparr>w_now := clock (c_conn c1)\<rparr>) = (z, w1)" by fastforce
  note t = client_dial_in_time [OF assms(2) D(1) d]
  have again: "fst (Conn_Execute ?x command conn) \<noteq> Hang \<and>
      clock (c_conn (snd (Conn_Execute ?x command conn))) \<le> max (w_now w) D" if "z = Ok conn" for conn
    using Execute_in_time [OF D(1) t(3) [OF that assms(3)], of command] t(2,4) that c1(2) by auto
  have "x \<noteq> Hang \<and> w_now w' \<le> max (w_now w) D"
    using assms(6) e c1 d t(1,2) again
    by (cases y; cases z) (auto simp: Session_Execute_def Let_def split: if_splits prod.splits)
  with D(2) assms(1) show ?thesis by auto
qed

theorem session_in_time_witness:
  "w_now (snd (snd (Session_Execute flaky context_Background ''ping'' stale start))) \<le> 100 + 10 * Second"
proof -
  have c: "cl_timeout (ss_client stale) > 0" "cl_dialer (ss_client stale) = None" "\<not> cl_idleDrain (ss_client stale)"
    "mode (c_set (ss_conn stale)) \<noteq> readIdle" "clock (c_conn (ss_conn stale)) \<le> w_now start"
    "w_now start + cl_timeout (ss_client stale) = 100 + 10 * Second"
    by code_simp+
  obtain x s' w' where r: "Session_Execute flaky context_Background ''ping'' stale start = (x, s', w')"
    by (rule prod_cases3)
  from session_in_time [OF c(1) flaky_prompt [OF c(2)] c(3-5) r] r c(6) show ?thesis by simp
qed

end
