(* ===== verification/Rcon_Cache.thy ===== *)
theory Rcon_Cache
  imports Rcon_Call
begin

text \<open>
  The session cache of the HTTP bridge, \<^verbatim>\<open>src/rconhttp/cache.go\<close>, with the backends of
  \<^verbatim>\<open>backend.go\<close>. The map's values are pointers to entries, so that a request can hold an
  entry the map has lost; the model has an explicit heap of entries. Here each operation runs
  alone; their interleavings are a theory of their own.
\<close>

subsection \<open>State\<close>

record Backend =
  be_Addr :: bytes
  be_Password :: bytes

record cacheEntry =
  ce_backend :: Backend
  ce_session :: "Session option"
  ce_lastUsed :: time

record sessionCache =
  sc_client :: Client
  sc_idle :: duration
  sc_entries :: "(bytes \<times> nat) list"
  sc_heap :: "nat \<rightharpoonup> cacheEntry"
  sc_next :: nat
  sc_done :: bool

definition newCache :: "Client \<Rightarrow> duration \<Rightarrow> sessionCache" where
  "newCache client idle =
     \<lparr>sc_client = client, sc_idle = idle, sc_entries = [], sc_heap = Map.empty, sc_next = 0, sc_done = False\<rparr>"

definition cacheKey :: "Backend \<Rightarrow> bytes" where
  "cacheKey b = be_Addr b @ [CHR 0x00] @ be_Password b"

subsection \<open>Operations\<close>

text \<open>The entry of a backend, made if needed and marked as used.\<close>

definition cache_get :: "Backend \<Rightarrow> time \<Rightarrow> sessionCache \<Rightarrow> nat \<times> sessionCache" where
  "cache_get b now c =
     (let key = cacheKey b in
      case map_of (sc_entries c) key of
        Some a \<Rightarrow>
          (a, c\<lparr>sc_heap := (sc_heap c)(a := map_option (\<lambda>e. e\<lparr>ce_lastUsed := now\<rparr>) (sc_heap c a))\<rparr>)
      | None \<Rightarrow>
          (sc_next c,
           c\<lparr>sc_entries := (key, sc_next c) # sc_entries c,
             sc_heap := (sc_heap c)(sc_next c \<mapsto> \<lparr>ce_backend = b, ce_session = None, ce_lastUsed = now\<rparr>),
             sc_next := sc_next c + 1\<rparr>))"

definition isConnError :: "goerr \<Rightarrow> bool" where
  "isConnError err \<longleftrightarrow>
     errors_Is err IoEOF \<or> errors_Is err ErrClosed \<or> errors_Is err ErrResponseMismatch
     \<or> errors_AsNetError err \<noteq> None"

text \<open>Close a session and let its socket go.\<close>

definition drop_session :: "Session \<Rightarrow> world \<Rightarrow> world" where
  "drop_session s w = w\<lparr>w_socks := w_socks w @ [c_conn (ss_conn (snd (Session_Close s)))]\<rparr>"

text \<open>\<^verbatim>\<open>execute\<close> under the entry's mutex: dial if there is no session, run the command,
  and drop the session on a connection-level error.\<close>

definition entry_dial ::
  "(nat \<Rightarrow> tcp_dialer) \<Rightarrow> Client \<Rightarrow> ctx \<Rightarrow> Backend \<Rightarrow> cacheEntry \<Rightarrow> world \<Rightarrow> Session gores \<times> world" where
  "entry_dial env client cx b e w =
     (case ce_session e of
        None \<Rightarrow> client_Dial env client cx (be_Addr b) (be_Password b) w
      | Some s \<Rightarrow> (Ok s, w))"

definition entry_execute ::
  "(nat \<Rightarrow> tcp_dialer) \<Rightarrow> Client \<Rightarrow> ctx \<Rightarrow> Backend \<Rightarrow> bytes \<Rightarrow> cacheEntry \<Rightarrow> world
     \<Rightarrow> bytes gores \<times> cacheEntry \<times> world" where
  "entry_execute env client cx b cmd e w =
     (case entry_dial env client cx b e w of
        (Err err, w) \<Rightarrow> (Err err, e, w)
      | (Hang, w) \<Rightarrow> (Hang, e, w)
      | (Ok s, w) \<Rightarrow>
          (case Session_Execute env cx cmd s w of (out, s', w') \<Rightarrow>
             (case out of
                Err err \<Rightarrow>
                  if isConnError err then (out, e\<lparr>ce_session := None\<rparr>, drop_session s' w')
                  else (out, e\<lparr>ce_session := Some s'\<rparr>, w')
              | _ \<Rightarrow> (out, e\<lparr>ce_session := Some s'\<rparr>, w'))))"

definition cache_execute ::
  "(nat \<Rightarrow> tcp_dialer) \<Rightarrow> ctx \<Rightarrow> Backend \<Rightarrow> bytes \<Rightarrow> sessionCache \<Rightarrow> world
     \<Rightarrow> bytes gores \<times> sessionCache \<times> world" where
  "cache_execute env cx b cmd c w =
     (case cache_get b (w_now w) c of (a, c) \<Rightarrow>
      (case sc_heap c a of
         None \<Rightarrow> (Hang, c, w)
       | Some e \<Rightarrow>
           (case entry_execute env (sc_client c) cx b cmd e w of
              (out, e', w') \<Rightarrow> (out, c\<lparr>sc_heap := (sc_heap c)(a \<mapsto> e')\<rparr>, w'))))"

text \<open>The first half of \<^verbatim>\<open>reap\<close>, under the cache's mutex: take the entries not used since
  the cutoff out of the map. The second half closes the session of each, under its mutex.\<close>

definition stale_entry :: "time \<Rightarrow> sessionCache \<Rightarrow> bytes \<times> nat \<Rightarrow> bool" where
  "stale_entry cutoff c p =
     (case sc_heap c (snd p) of None \<Rightarrow> False | Some e \<Rightarrow> ce_lastUsed e < cutoff)"

definition reap_collect :: "time \<Rightarrow> sessionCache \<Rightarrow> nat list \<times> sessionCache" where
  "reap_collect now c =
     (let cutoff = now - sc_idle c in
      (map snd (filter (stale_entry cutoff c) (sc_entries c)),
       c\<lparr>sc_entries := filter (\<lambda>p. \<not> stale_entry cutoff c p) (sc_entries c)\<rparr>))"

definition evict_entry :: "nat \<Rightarrow> sessionCache \<times> world \<Rightarrow> sessionCache \<times> world" where
  "evict_entry a st =
     (case st of (c, w) \<Rightarrow>
      (case sc_heap c a of
         None \<Rightarrow> (c, w)
       | Some e \<Rightarrow>
           (case ce_session e of
              None \<Rightarrow> (c, w)
            | Some s \<Rightarrow> (c\<lparr>sc_heap := (sc_heap c)(a \<mapsto> e\<lparr>ce_session := None\<rparr>)\<rparr>, drop_session s w))))"

definition reap :: "sessionCache \<times> world \<Rightarrow> sessionCache \<times> world" where
  "reap st =
     (case st of (c, w) \<Rightarrow>
      (case reap_collect (w_now w) c of (stales, c) \<Rightarrow> fold evict_entry stales (c, w)))"

definition closeAll_collect :: "sessionCache \<Rightarrow> nat list \<times> sessionCache" where
  "closeAll_collect c = (map snd (sc_entries c), c\<lparr>sc_entries := []\<rparr>)"

definition closeAll :: "sessionCache \<times> world \<Rightarrow> sessionCache \<times> world" where
  "closeAll st =
     (case st of (c, w) \<Rightarrow>
      (case closeAll_collect c of (as, c) \<Rightarrow> fold evict_entry as (c, w)))"

definition cache_close :: "sessionCache \<times> world \<Rightarrow> unit gores \<times> sessionCache \<times> world" where
  "cache_close st = (case st of (c, w) \<Rightarrow> (Ok (), closeAll (c\<lparr>sc_done := True\<rparr>, w)))"

text \<open>Whether \<^verbatim>\<open>startReaper\<close> starts one.\<close>

definition startReaper :: "sessionCache \<Rightarrow> bool" where
  "startReaper c \<longleftrightarrow> sc_idle c > 0"

subsection \<open>Keys\<close>

text \<open>An address no host has: one with a NUL in it.\<close>

definition clean :: "Backend \<Rightarrow> bool" where
  "clean b \<longleftrightarrow> CHR 0x00 \<notin> set (be_Addr b)"

lemma append_Cons_unique:
  "x \<notin> set xs \<Longrightarrow> x \<notin> set ys \<Longrightarrow> xs @ x # us = ys @ x # vs \<longleftrightarrow> xs = ys \<and> us = vs"
proof (induction xs arbitrary: ys)
  case Nil
  then show ?case by (cases ys) auto
next
  case (Cons a xs)
  then show ?case by (cases ys) auto
qed

lemma cacheKey_inj: "clean b \<Longrightarrow> clean b' \<Longrightarrow> cacheKey b = cacheKey b' \<longleftrightarrow> b = b'"
  by (auto simp: cacheKey_def clean_def append_Cons_unique intro: Backend.equality)

subsection \<open>Well-formed caches\<close>

text \<open>A session belongs to the backend of its entry, and the entry to its key.\<close>

definition entry_ok :: "cacheEntry \<Rightarrow> bool" where
  "entry_ok e \<longleftrightarrow> clean (ce_backend e) \<and>
     (\<forall>s. ce_session e = Some s \<longrightarrow>
        ss_address s = be_Addr (ce_backend e) \<and> ss_password s = be_Password (ce_backend e))"

definition linked :: "(nat \<rightharpoonup> cacheEntry) \<Rightarrow> bytes \<times> nat \<Rightarrow> bool" where
  "linked h p \<longleftrightarrow> (\<exists>e. h (snd p) = Some e \<and> fst p = cacheKey (ce_backend e) \<and> entry_ok e)"

definition cache_wf :: "sessionCache \<Rightarrow> bool" where
  "cache_wf c \<longleftrightarrow> distinct (map fst (sc_entries c)) \<and> distinct (map snd (sc_entries c))
     \<and> (\<forall>p \<in> set (sc_entries c). linked (sc_heap c) p) \<and> dom (sc_heap c) \<subseteq> {..<sc_next c}"

lemma linked_update:
  assumes "linked h p" "\<And>e. h a = Some e \<Longrightarrow> ce_backend e' = ce_backend e \<and> (entry_ok e \<longrightarrow> entry_ok e')"
  shows "linked (h(a \<mapsto> e')) p"
  using assms by (auto simp: linked_def)

lemma cache_wf_new: "cache_wf (newCache client idle)"
  by (simp add: cache_wf_def newCache_def)

lemma cache_wf_entry:
  assumes "cache_wf c" "map_of (sc_entries c) k = Some a"
  obtains e where "sc_heap c a = Some e" "k = cacheKey (ce_backend e)" "entry_ok e"
  using assms map_of_SomeD [OF assms(2)] by (fastforce simp: cache_wf_def linked_def)

lemma cache_get_entry:
  assumes "cache_wf c" "clean b" "cache_get b now c = (a, c')"
  obtains e where "sc_heap c' a = Some e" "ce_backend e = b" "entry_ok e" "ce_lastUsed e = now"
    "map_of (sc_entries c') (cacheKey b) = Some a"
proof (cases "map_of (sc_entries c) (cacheKey b)")
  case None
  with assms show thesis
    by (intro that [of "\<lparr>ce_backend = b, ce_session = None, ce_lastUsed = now\<rparr>"])
      (auto simp: cache_get_def Let_def entry_ok_def)
next
  case (Some a')
  then obtain e where e: "sc_heap c a' = Some e" "cacheKey b = cacheKey (ce_backend e)" "entry_ok e"
    using assms(1) by (auto elim: cache_wf_entry)
  then have "ce_backend e = b"
    using cacheKey_inj [OF assms(2), of "ce_backend e"] by (simp add: entry_ok_def)
  with e Some assms(3) show thesis
    by (intro that [of "e\<lparr>ce_lastUsed := now\<rparr>"]) (auto simp: cache_get_def Let_def entry_ok_def)
qed

text \<open>Putting back the entry that was used.\<close>

lemma cache_put_wf:
  assumes "cache_wf c" "sc_heap c a = Some e" "ce_backend e' = ce_backend e" "entry_ok e \<longrightarrow> entry_ok e'"
  shows "cache_wf (c\<lparr>sc_heap := (sc_heap c)(a \<mapsto> e')\<rparr>)"
proof -
  have "linked ((sc_heap c)(a \<mapsto> e')) p" if "p \<in> set (sc_entries c)" for p
    by (rule linked_update) (use assms that in \<open>auto simp: cache_wf_def\<close>)
  moreover have "a < sc_next c" using assms(1,2) by (auto simp: cache_wf_def)
  ultimately show ?thesis using assms(1) by (simp add: cache_wf_def)
qed

lemma cache_get_wf:
  assumes "cache_wf c" "clean b" "cache_get b now c = (a, c')"
  shows "cache_wf c'"
proof (cases "map_of (sc_entries c) (cacheKey b)")
  case (Some a')
  then obtain e where e: "sc_heap c a' = Some e" "entry_ok e"
    using assms(1) by (auto elim: cache_wf_entry)
  have "entry_ok (e\<lparr>ce_lastUsed := now\<rparr>)" using e(2) by (simp add: entry_ok_def)
  with cache_put_wf [OF assms(1) e(1), of "e\<lparr>ce_lastUsed := now\<rparr>"] e Some assms(3) show ?thesis
    by (auto simp: cache_get_def Let_def)
next
  case None
  let ?e = "\<lparr>ce_backend = b, ce_session = None, ce_lastUsed = now\<rparr>"
  have fresh: "sc_next c \<notin> dom (sc_heap c)" using assms(1) by (auto simp: cache_wf_def)
  have old: "snd p \<noteq> sc_next c \<and> linked ((sc_heap c)(sc_next c \<mapsto> ?e)) p" if "p \<in> set (sc_entries c)" for p
  proof -
    have "linked (sc_heap c) p" using assms(1) that by (simp add: cache_wf_def)
    with fresh show ?thesis by (auto simp: linked_def)
  qed
  have "linked ((sc_heap c)(sc_next c \<mapsto> ?e)) (cacheKey b, sc_next c)"
    using assms(2) by (simp add: linked_def entry_ok_def)
  moreover have "cacheKey b \<notin> fst ` set (sc_entries c)" using None by (simp add: map_of_eq_None_iff)
  moreover have "c' = c\<lparr>sc_entries := (cacheKey b, sc_next c) # sc_entries c,
      sc_heap := (sc_heap c)(sc_next c \<mapsto> ?e), sc_next := sc_next c + 1\<rparr>"
    using assms(3) None by (auto simp: cache_get_def Let_def)
  moreover have "dom (sc_heap c) \<subseteq> {..<Suc (sc_next c)}"
    using assms(1) by (auto simp: cache_wf_def)
  moreover have "sc_next c \<notin> snd ` set (sc_entries c)" using old by force
  ultimately show ?thesis
    using old assms(1) by (auto simp: cache_wf_def)
qed

lemma Session_Execute_keeps:
  assumes "Session_Execute env cx cmd s w = (x, s', w')"
  shows "ss_address s' = ss_address s" "ss_password s' = ss_password s"
  using assms by (auto simp: Session_Execute_def Let_def split: prod.splits res.splits if_splits)

lemma entry_dial_ok:
  assumes "entry_dial env client cx b e w = (Ok s, w')" "entry_ok e" "ce_backend e = b"
  shows "ss_address s = be_Addr b" "ss_password s = be_Password b"
  using assms by (auto simp: entry_dial_def entry_ok_def client_Dial_def andThen_eq_Ok split: option.splits)

lemma entry_execute_ok:
  assumes "entry_execute env client cx b cmd e w = (x, e', w')" "entry_ok e" "ce_backend e = b"
  shows "entry_ok e'" "ce_backend e' = b"
proof -
  obtain y w1 where d: "entry_dial env client cx b e w = (y, w1)" by fastforce
  have "entry_ok e' \<and> ce_backend e' = b"
  proof (cases y)
    case (Ok s)
    obtain z s' w2 where ex: "Session_Execute env cx cmd s w1 = (z, s', w2)" by (rule prod_cases3)
    have "ss_address s' = be_Addr b" "ss_password s' = be_Password b"
      using Session_Execute_keeps [OF ex] entry_dial_ok [OF d [unfolded Ok] assms(2,3)] by simp_all
    with assms d Ok ex show ?thesis
      by (cases z) (auto simp: entry_execute_def entry_ok_def split: if_splits)
  qed (use assms d in \<open>auto simp: entry_execute_def\<close>)
  then show "entry_ok e'" "ce_backend e' = b" by auto
qed

subsection \<open>Closing entries\<close>

lemma evict_wf:
  assumes "cache_wf c" "evict_entry a (c, w) = (c', w')"
  shows "cache_wf c'"
proof -
  have "cache_wf (c\<lparr>sc_heap := (sc_heap c)(a \<mapsto> e\<lparr>ce_session := None\<rparr>)\<rparr>)" if "sc_heap c a = Some e" for e
    using cache_put_wf [OF assms(1) that, of "e\<lparr>ce_session := None\<rparr>"] by (simp add: entry_ok_def)
  with assms show ?thesis by (auto simp: evict_entry_def split: option.splits)
qed

lemma evicts_wf: "cache_wf (fst st) \<Longrightarrow> cache_wf (fst (fold evict_entry as st))"
proof (induction as arbitrary: st)
  case (Cons a as)
  then show ?case using evict_wf [of "fst st" a "snd st"] by (cases "evict_entry a st") auto
qed simp

lemma filter_entries_wf: "cache_wf c \<Longrightarrow> cache_wf (c\<lparr>sc_entries := filter P (sc_entries c)\<rparr>)"
  by (auto simp: cache_wf_def distinct_map_filter)

lemma reap_wf: "cache_wf c \<Longrightarrow> cache_wf (fst (reap (c, w)))"
  by (simp add: reap_def reap_collect_def Let_def evicts_wf filter_entries_wf)

lemma closeAll_wf: "cache_wf c \<Longrightarrow> cache_wf (fst (closeAll (c, w)))"
  using evicts_wf [of "(c\<lparr>sc_entries := []\<rparr>, w)"]
  by (simp add: closeAll_def closeAll_collect_def cache_wf_def)

text \<open>Evicting closes what it lets go, and leaves no session in the entries it visits.\<close>

lemma drop_session_closed: "\<exists>k. w_socks (drop_session s w) = w_socks w @ [k] \<and> sclosed k"
  by (auto simp: drop_session_def Session_Close_def Conn_Close_def sock_Close_def with_sock_def
      split: prod.splits)

definition sessionless :: "sessionCache \<Rightarrow> nat \<Rightarrow> bool" where
  "sessionless c a \<longleftrightarrow> (\<forall>e. sc_heap c a = Some e \<longrightarrow> ce_session e = None)"

lemma evict_effect:
  assumes "evict_entry a (c, w) = (c', w')"
  shows "sessionless c' a" "sessionless c b \<Longrightarrow> sessionless c' b"
    "\<exists>new. w_socks w' = w_socks w @ new \<and> list_all sclosed new"
    "sc_entries c' = sc_entries c" "w_dials w' = w_dials w"
  using assms drop_session_closed
  by (auto simp: evict_entry_def sessionless_def drop_session_def split: option.splits if_splits)

lemma evicts_effect:
  assumes "fold evict_entry as (c, w) = (c', w')"
  shows "(\<forall>a. a \<in> set as \<or> sessionless c a \<longrightarrow> sessionless c' a)
    \<and> (\<exists>new. w_socks w' = w_socks w @ new \<and> list_all sclosed new) \<and> sc_entries c' = sc_entries c"
  using assms
proof (induction as arbitrary: c w)
  case (Cons a as)
  obtain c1 w1 where e: "evict_entry a (c, w) = (c1, w1)" by fastforce
  obtain new where new: "w_socks w1 = w_socks w @ new" "list_all sclosed new"
    using evict_effect(3) [OF e] by blast
  from Cons.IH [of c1 w1] Cons.prems e obtain new' where
    new': "w_socks w' = w_socks w1 @ new'" "list_all sclosed new'" and
    rest: "\<forall>a. a \<in> set as \<or> sessionless c1 a \<longrightarrow> sessionless c' a" "sc_entries c' = sc_entries c1" by auto
  have "w_socks w' = w_socks w @ (new @ new')" "list_all sclosed (new @ new')" using new new' by simp_all
  with rest evict_effect(1,2,4) [OF e] show ?case by auto
qed simp

subsection \<open>One operation at a time\<close>

text \<open>A request is served by the entry of its backend and leaves the other entries alone.\<close>

lemma cache_execute_routes:
  assumes "cache_wf c" "clean b" "cache_execute env cx b cmd c w = (x, c', w')"
  obtains a e where "cache_wf c'" "map_of (sc_entries c') (cacheKey b) = Some a"
    "sc_heap c' a = Some e" "ce_backend e = b" "entry_ok e"
    "\<And>a'. a' \<noteq> a \<Longrightarrow> sc_heap c' a' = sc_heap c a'"
proof -
  obtain a c1 where g: "cache_get b (w_now w) c = (a, c1)" by fastforce
  obtain e where e: "sc_heap c1 a = Some e" "ce_backend e = b" "entry_ok e"
    "map_of (sc_entries c1) (cacheKey b) = Some a"
    using cache_get_entry [OF assms(1,2) g] by blast
  obtain y e' w1 where x: "entry_execute env (sc_client c1) cx b cmd e w = (y, e', w1)" by (rule prod_cases3)
  note ok = entry_execute_ok [OF x e(3,2)]
  have c': "c' = c1\<lparr>sc_heap := (sc_heap c1)(a \<mapsto> e')\<rparr>"
    using assms(3) g e(1) x by (auto simp: cache_execute_def)
  have "cache_wf c'"
    unfolding c' by (rule cache_put_wf [OF cache_get_wf [OF assms(1,2) g] e(1)]) (use ok e in simp_all)
  moreover have "sc_heap c' a' = sc_heap c a'" if "a' \<noteq> a" for a'
    using that g by (auto simp: c' cache_get_def Let_def split: option.splits)
  ultimately show thesis using that [of a e'] ok e(4) by (simp add: c')
qed

text \<open>A session that is closed is dropped by the next request, which fails without dialling.\<close>

lemma isConnError_ErrClosed [simp]: "isConnError ErrClosed"
  by (simp add: isConnError_def)

lemma entry_execute_closed:
  assumes "ce_session e = Some s" "c_closed (ss_conn s)"
    "entry_execute env client cx b cmd e w = (x, e', w')"
  shows "x = Err ErrClosed" "ce_session e' = None" "w_dials w' = w_dials w"
proof -
  obtain y s' v where ex: "Session_Execute env cx cmd s w = (y, s', v)" by (rule prod_cases3)
  from assms(1,3) ex Session_Execute_closed [OF assms(2) ex]
  show "x = Err ErrClosed" "ce_session e' = None" "w_dials w' = w_dials w"
    by (auto simp: entry_execute_def entry_dial_def drop_session_def)
qed

text \<open>A use of an entry that returns leaves closed sockets only.\<close>

lemma drop_session_socks: "\<exists>new. w_socks (drop_session s w) = w_socks w @ new \<and> list_all sclosed new"
  using drop_session_closed [of s w] by force

lemma entry_dial_socks:
  assumes "entry_dial env client cx b e w = (x, w')" "x \<noteq> Hang"
  shows "\<exists>new. w_socks w' = w_socks w @ new \<and> list_all sclosed new"
proof (cases "ce_session e")
  case None
  obtain y w1 where "client_dial env client cx (be_Addr b) (be_Password b) w = (y, w1)" by fastforce
  with None assms client_dial_socks [OF this] show ?thesis
    by (cases y) (auto simp: entry_dial_def client_Dial_def)
qed (use assms in \<open>simp add: entry_dial_def\<close>)

lemma closed_socks_trans:
  assumes "\<exists>new. ys = xs @ new \<and> list_all P new" "\<exists>new. zs = ys @ new \<and> list_all P new"
  shows "\<exists>new. zs = xs @ new \<and> list_all P new"
  using assms by force

lemma entry_execute_socks:
  assumes "entry_execute env client cx b cmd e w = (x, e', w')" "x \<noteq> Hang"
  shows "\<exists>new. w_socks w' = w_socks w @ new \<and> list_all sclosed new"
proof -
  obtain y w1 where d: "entry_dial env client cx b e w = (y, w1)" by fastforce
  show ?thesis
  proof (cases y)
    case (Ok s)
    obtain z s' w2 where ex: "Session_Execute env cx cmd s w1 = (z, s', w2)" by (rule prod_cases3)
    have z: "z = x" "w' = w2 \<or> w' = drop_session s' w2"
      using assms d Ok ex by (auto simp: entry_execute_def split: res.splits if_splits)
    have "\<exists>new. w_socks w2 = w_socks w @ new \<and> list_all sclosed new"
      using closed_socks_trans [OF entry_dial_socks [OF d]] Session_Execute_effect [OF ex] Ok z(1) assms(2) by blast
    with z(2) closed_socks_trans [OF _ drop_session_socks] show ?thesis by blast
  qed (use assms d entry_dial_socks [OF d] in \<open>auto simp: entry_execute_def\<close>)
qed

lemma entry_execute_lastUsed:
  assumes "entry_execute env client cx b cmd e w = (x, e', w')"
  shows "ce_lastUsed e' = ce_lastUsed e"
  using assms by (auto simp: entry_execute_def split: prod.splits res.splits if_splits)

text \<open>A reconnect that fails with an error not of the connection leaves its closed connection in the entry, for
  the next request to find.\<close>

lemma cache_keeps_dead_session:
  assumes "ce_session e = Some s" "cx' = call_ctx (ss_client s) cx (w_now w)"
    "Conn_Execute cx' cmd (conn_at (w_now w) (ss_conn s)) = (Err err, conn1)" "isRetryable (Some err)"
    "client_dial env (ss_client s) cx' (ss_address s) (ss_password s) (w\<lparr>w_now := clock (c_conn conn1)\<rparr>) = (Err derr, w1)"
    "\<not> isConnError derr" "entry_execute env client cx b cmd e w = (x, e', w')"
    "entry_execute env2 client cx2 b cmd2 e' w2 = (x2, e2, w3)"
  shows "x = Err derr" "x2 = Err ErrClosed" "w_dials w3 = w_dials w2" "ce_session e2 = None"
proof -
  have "x = Err derr \<and> ce_session e' = Some (s\<lparr>ss_conn := snd (Conn_Close conn1)\<rparr>)"
    using assms(1-7) by (auto simp: entry_execute_def entry_dial_def Session_Execute_def Let_def)
  moreover have "c_closed (snd (Conn_Close conn1))"
    by (simp add: Conn_Close_def with_sock_def split: prod.split)
  ultimately show "x = Err derr" "x2 = Err ErrClosed" "w_dials w3 = w_dials w2" "ce_session e2 = None"
    using entry_execute_closed [OF _ _ assms(8)] by simp_all
qed

end
