(* ===== verification/Rcon_Cache_Race.thy ===== *)
theory Rcon_Cache_Race
  imports Rcon_Cache Event_System
begin

text \<open>
  The session cache of \<^verbatim>\<open>src/rconhttp/cache.go\<close> under concurrency: requests, the reaper
  and calls of \<^verbatim>\<open>close\<close> interleave. A critical section under the cache's mutex is one
  step. An entry's mutex is held over several steps by a request, between which time passes
  and others move; the reaper and \<^verbatim>\<open>close\<close> take it, close the session and give it back
  in one. The sections themselves are the definitions of the sequential theory.
\<close>

subsection \<open>State\<close>

text \<open>A request waits for the mutex of the entry it got at some instant, holds it since another, or is
  done. A request has dials of its own, numbered from zero.\<close>

datatype request_pc =
    RqWait Backend ctx bytes nat time
  | RqHold Backend ctx bytes nat time time
  | RqDone "bytes gores"

text \<open>The reaper's goroutine is in its \<^verbatim>\<open>select\<close>, in a pass with entries left to close, or
  gone; a call of \<^verbatim>\<open>close\<close> is before \<^verbatim>\<open>closeAll\<close>, has entries left, or has
  returned.\<close>

datatype reaper_pc = RpSelect | RpPass "nat list" | RpExit

datatype closer_pc = ClMap | ClSweepAll "nat list" | ClReturned

record cache_sys =
  cs_cache :: sessionCache
  cs_now :: time
  cs_socks :: "sock list"
  cs_locked :: "nat set"
  cs_reqs :: "request_pc list"
  cs_reaper :: reaper_pc
  cs_tick :: time
  cs_closers :: "closer_pc list"

definition new_sys :: "Client \<Rightarrow> duration \<Rightarrow> time \<Rightarrow> cache_sys" where
  "new_sys client idle t =
     (let c = newCache client idle in
      \<lparr>cs_cache = c, cs_now = t, cs_socks = [], cs_locked = {}, cs_reqs = [],
       cs_reaper = (if startReaper c then RpSelect else RpExit), cs_tick = t + idle, cs_closers = []\<rparr>)"

subsection \<open>Steps\<close>

datatype cache_event =
    Pass nat
  | ReqGet Backend ctx bytes
  | ReqLock nat
  | ReqFinish nat
  | ReapTick
  | ReapTurn
  | ReapStop
  | CallCacheClose
  | CloseTurn nat

definition req_get :: "Backend \<Rightarrow> ctx \<Rightarrow> bytes \<Rightarrow> cache_sys \<Rightarrow> cache_sys" where
  "req_get b cx cmd s =
     (case cache_get b (cs_now s) (cs_cache s) of (a, c) \<Rightarrow>
        s\<lparr>cs_cache := c, cs_reqs := cs_reqs s @ [RqWait b cx cmd a (cs_now s)]\<rparr>)"

definition req_lock :: "nat \<Rightarrow> cache_sys \<Rightarrow> cache_sys option" where
  "req_lock r s =
     (if r < length (cs_reqs s) then
        (case cs_reqs s ! r of
           RqWait b cx cmd a g \<Rightarrow>
             if a \<in> cs_locked s then None
             else Some (s\<lparr>cs_locked := insert a (cs_locked s),
                          cs_reqs := (cs_reqs s)[r := RqHold b cx cmd a g (cs_now s)]\<rparr>)
         | _ \<Rightarrow> None)
      else None)"

text \<open>The rest of \<^verbatim>\<open>execute\<close>, which began when the mutex was taken, ends when as much time
  has passed as it takes; one that blocks never ends.\<close>

definition req_finish :: "(nat \<Rightarrow> nat \<Rightarrow> tcp_dialer) \<Rightarrow> nat \<Rightarrow> cache_sys \<Rightarrow> cache_sys option" where
  "req_finish env r s =
     (if r < length (cs_reqs s) then
        (case cs_reqs s ! r of
           RqHold b cx cmd a g t \<Rightarrow>
             (case sc_heap (cs_cache s) a of
                None \<Rightarrow> None
              | Some e \<Rightarrow>
                  (case entry_execute (env r) (sc_client (cs_cache s)) cx b cmd e
                          \<lparr>w_now = t, w_dials = 0, w_socks = []\<rparr> of
                     (out, e', w') \<Rightarrow>
                       if out = Hang \<or> cs_now s < w_now w' then None
                       else Some (s\<lparr>cs_cache := (cs_cache s)\<lparr>sc_heap := (sc_heap (cs_cache s))(a \<mapsto> e')\<rparr>,
                              cs_socks := cs_socks s @ w_socks w', cs_locked := cs_locked s - {a},
                              cs_reqs := (cs_reqs s)[r := RqDone out]\<rparr>)))
         | _ \<Rightarrow> None)
      else None)"

definition sys_evict :: "nat \<Rightarrow> cache_sys \<Rightarrow> cache_sys option" where
  "sys_evict a s =
     (if a \<in> cs_locked s then None
      else (case evict_entry a (cs_cache s, \<lparr>w_now = cs_now s, w_dials = 0, w_socks = cs_socks s\<rparr>) of
          (c, w) \<Rightarrow> Some (s\<lparr>cs_cache := c, cs_socks := w_socks w\<rparr>)))"

text \<open>A tick that nobody receives stays in the ticker's channel, and later ones are dropped: the next
  is the first after now.\<close>

definition reap_tick :: "cache_sys \<Rightarrow> cache_sys option" where
  "reap_tick s =
     (if cs_reaper s = RpSelect \<and> cs_tick s \<le> cs_now s then
        (case reap_collect (cs_now s) (cs_cache s) of (stales, c) \<Rightarrow>
           Some (s\<lparr>cs_cache := c, cs_reaper := RpPass stales,
             cs_tick := cs_tick s + sc_idle c * ((cs_now s - cs_tick s) div sc_idle c + 1)\<rparr>))
      else None)"

definition reap_turn :: "cache_sys \<Rightarrow> cache_sys option" where
  "reap_turn s =
     (case cs_reaper s of
        RpPass [] \<Rightarrow> Some (s\<lparr>cs_reaper := RpSelect\<rparr>)
      | RpPass (a # as) \<Rightarrow> map_option (\<lambda>s. s\<lparr>cs_reaper := RpPass as\<rparr>) (sys_evict a s)
      | _ \<Rightarrow> None)"

definition reap_stop :: "cache_sys \<Rightarrow> cache_sys option" where
  "reap_stop s =
     (if cs_reaper s = RpSelect \<and> sc_done (cs_cache s) then Some (s\<lparr>cs_reaper := RpExit\<rparr>) else None)"

definition close_turn :: "nat \<Rightarrow> cache_sys \<Rightarrow> cache_sys option" where
  "close_turn k s =
     (if k < length (cs_closers s) then
        (case cs_closers s ! k of
           ClMap \<Rightarrow>
             (case closeAll_collect (cs_cache s) of (as, c) \<Rightarrow>
                Some (s\<lparr>cs_cache := c, cs_closers := (cs_closers s)[k := ClSweepAll as]\<rparr>))
         | ClSweepAll [] \<Rightarrow> Some (s\<lparr>cs_closers := (cs_closers s)[k := ClReturned]\<rparr>)
         | ClSweepAll (a # as) \<Rightarrow>
             map_option (\<lambda>s. s\<lparr>cs_closers := (cs_closers s)[k := ClSweepAll as]\<rparr>) (sys_evict a s)
         | ClReturned \<Rightarrow> None)
      else None)"

fun cache_move :: "(nat \<Rightarrow> nat \<Rightarrow> tcp_dialer) \<Rightarrow> cache_event \<Rightarrow> cache_sys \<Rightarrow> cache_sys option" where
  "cache_move env (Pass d) s = Some (s\<lparr>cs_now := cs_now s + int d\<rparr>)"
| "cache_move env (ReqGet b cx cmd) s = Some (req_get b cx cmd s)"
| "cache_move env (ReqLock r) s = req_lock r s"
| "cache_move env (ReqFinish r) s = req_finish env r s"
| "cache_move env ReapTick s = reap_tick s"
| "cache_move env ReapTurn s = reap_turn s"
| "cache_move env ReapStop s = reap_stop s"
| "cache_move env CallCacheClose s =
     Some (s\<lparr>cs_cache := (cs_cache s)\<lparr>sc_done := True\<rparr>, cs_closers := cs_closers s @ [ClMap]\<rparr>)"
| "cache_move env (CloseTurn k) s = close_turn k s"

text \<open>The surroundings decide which events they admit: which backends are asked for, and when the
  cache is closed.\<close>

definition cache_step ::
  "(nat \<Rightarrow> nat \<Rightarrow> tcp_dialer) \<Rightarrow> (cache_event \<Rightarrow> cache_sys \<Rightarrow> bool) \<Rightarrow> cache_event \<Rightarrow> cache_sys \<Rightarrow> cache_sys option" where
  "cache_step env admit e s = (if admit e s then cache_move env e s else None)"

fun cache_run ::
  "(nat \<Rightarrow> nat \<Rightarrow> tcp_dialer) \<Rightarrow> (cache_event \<Rightarrow> cache_sys \<Rightarrow> bool) \<Rightarrow> cache_event list \<Rightarrow> cache_sys \<Rightarrow> cache_sys option" where
  "cache_run env admit [] s = Some s"
| "cache_run env admit (e # es) s =
     (case cache_step env admit e s of None \<Rightarrow> None | Some s' \<Rightarrow> cache_run env admit es s')"

inductive cache_reach ::
  "(nat \<Rightarrow> nat \<Rightarrow> tcp_dialer) \<Rightarrow> (cache_event \<Rightarrow> cache_sys \<Rightarrow> bool) \<Rightarrow> Client \<Rightarrow> duration \<Rightarrow> time \<Rightarrow> cache_sys \<Rightarrow> bool"
  for env admit client idle t where
  cache_init: "cache_reach env admit client idle t (new_sys client idle t)"
| cache_next: "cache_reach env admit client idle t s \<Longrightarrow> cache_step env admit e s = Some s'
    \<Longrightarrow> cache_reach env admit client idle t s'"

interpretation cr: event_system "new_sys client idle t" "cache_step env admit"
  "cache_reach env admit client idle t" "cache_run env admit"
proof
  fix s P
  assume r: "cache_reach env admit client idle t s" and P: "P (new_sys client idle t)"
    "\<And>s e s'. cache_reach env admit client idle t s \<Longrightarrow> P s \<Longrightarrow> cache_step env admit e s = Some s' \<Longrightarrow> P s'"
  from r show "P s" by (induction rule: cache_reach.induct) (fact P(1), rule P(2))
qed (auto intro: cache_reach.intros)

lemmas sec_defs = req_get_def req_lock_def req_finish_def sys_evict_def reap_tick_def reap_turn_def
  reap_stop_def close_turn_def reap_collect_def closeAll_collect_def

subsection \<open>Entries and mutexes\<close>

text \<open>The backend and entry of a request in flight, and when it got it; the entry whose mutex a request holds.\<close>

fun in_flight :: "request_pc \<Rightarrow> (Backend \<times> nat \<times> time) option" where
  "in_flight (RqWait b cx cmd a g) = Some (b, a, g)"
| "in_flight (RqHold b cx cmd a g t) = Some (b, a, g)"
| "in_flight (RqDone out) = None"

fun holds :: "request_pc \<Rightarrow> nat option" where
  "holds (RqHold b cx cmd a g t) = Some a"
| "holds _ = None"

text \<open>Every entry, mapped or not, belongs to its backend; every request in flight has an entry of the
  backend it asked for; and a mutex has one holder.\<close>

definition heap_ok :: "sessionCache \<Rightarrow> bool" where
  "heap_ok c \<longleftrightarrow> (\<forall>a e. sc_heap c a = Some e \<longrightarrow> entry_ok e)"

definition request_ok :: "sessionCache \<Rightarrow> request_pc \<Rightarrow> bool" where
  "request_ok c q \<longleftrightarrow> (\<forall>b a g. in_flight q = Some (b, a, g) \<longrightarrow> (\<exists>e. sc_heap c a = Some e \<and> ce_backend e = b))"

definition mutexes :: "nat set \<Rightarrow> request_pc list \<Rightarrow> bool" where
  "mutexes L qs \<longleftrightarrow>
     (\<forall>r < length qs. \<forall>a. holds (qs ! r) = Some a \<longrightarrow> a \<in> L
        \<and> (\<forall>r' < length qs. holds (qs ! r') = Some a \<longrightarrow> r' = r))"

definition cache_inv :: "cache_sys \<Rightarrow> bool" where
  "cache_inv s \<longleftrightarrow> cache_wf (cs_cache s) \<and> heap_ok (cs_cache s)
     \<and> (\<forall>q \<in> set (cs_reqs s). request_ok (cs_cache s) q) \<and> mutexes (cs_locked s) (cs_reqs s)"

lemma mutexesD:
  assumes "mutexes L qs" "r < length qs" "holds (qs ! r) = Some a"
  shows "a \<in> L" "r' < length qs \<Longrightarrow> holds (qs ! r') = Some a \<Longrightarrow> r' = r"
  using assms unfolding mutexes_def by blast+

lemma mutexesI:
  assumes "\<And>r a. r < length qs \<Longrightarrow> holds (qs ! r) = Some a \<Longrightarrow> a \<in> L"
    "\<And>r r' a. r < length qs \<Longrightarrow> holds (qs ! r) = Some a \<Longrightarrow> r' < length qs \<Longrightarrow> holds (qs ! r') = Some a \<Longrightarrow> r' = r"
  shows "mutexes L qs"
  using assms unfolding mutexes_def by blast

lemma mutexes_append:
  assumes "mutexes L qs" "holds q = None"
  shows "mutexes L (qs @ [q])"
proof -
  have old: "r < length qs \<and> holds (qs ! r) = Some a" if "r < length (qs @ [q])" "holds ((qs @ [q]) ! r) = Some a" for r a
    using that assms(2) by (auto simp: nth_append less_Suc_eq split: if_splits)
  show ?thesis by (rule mutexesI) (use old mutexesD [OF assms(1)] in blast)+
qed

lemma mutexes_lock:
  assumes "mutexes L qs" "a \<notin> L" "r < length qs" "holds q = Some a"
  shows "mutexes (insert a L) (qs[r := q])"
proof -
  have old: "i < length qs \<and> (if i = r then a' = a else holds (qs ! i) = Some a' \<and> a' \<noteq> a)"
    if "i < length (qs[r := q])" "holds (qs[r := q] ! i) = Some a'" for i a'
    using that assms mutexesD(1) [OF assms(1), of i a'] by (auto simp: nth_list_update split: if_splits)
  show ?thesis
  proof (rule mutexesI)
    show "a' \<in> insert a L" if "i < length (qs[r := q])" "holds (qs[r := q] ! i) = Some a'" for i a'
      using old [OF that] mutexesD(1) [OF assms(1), of i a'] by (auto split: if_splits)
    show "j = i" if "i < length (qs[r := q])" "holds (qs[r := q] ! i) = Some a'"
      "j < length (qs[r := q])" "holds (qs[r := q] ! j) = Some a'" for i j a'
      using old [OF that(1,2)] old [OF that(3,4)] mutexesD(2) [OF assms(1), of i a' j] by (simp split: if_splits)
  qed
qed

lemma mutexes_unlock:
  assumes "mutexes L qs" "r < length qs" "holds (qs ! r) = Some a" "holds q = None"
  shows "mutexes (L - {a}) (qs[r := q])"
proof -
  have old: "i < length qs \<and> holds (qs ! i) = Some a' \<and> a' \<noteq> a"
    if "i < length (qs[r := q])" "holds (qs[r := q] ! i) = Some a'" for i a'
  proof -
    have "i \<noteq> r" using that assms(2,4) by auto
    with that show ?thesis using mutexesD(2) [OF assms(1-3), of i] by auto
  qed
  show ?thesis
  proof (rule mutexesI)
    show "a' \<in> L - {a}" if "i < length (qs[r := q])" "holds (qs[r := q] ! i) = Some a'" for i a'
      using old [OF that] mutexesD(1) [OF assms(1), of i a'] by simp
    show "j = i" if "i < length (qs[r := q])" "holds (qs[r := q] ! i) = Some a'"
      "j < length (qs[r := q])" "holds (qs[r := q] ! j) = Some a'" for i j a'
      using old [OF that(1,2)] old [OF that(3,4)] mutexesD(2) [OF assms(1), of i a' j] by simp
  qed
qed

text \<open>What every section does to the entries: none disappears or changes its backend.\<close>

definition heap_grows :: "sessionCache \<Rightarrow> sessionCache \<Rightarrow> bool" where
  "heap_grows c c' \<longleftrightarrow> (\<forall>a e. sc_heap c a = Some e \<longrightarrow> (\<exists>e'. sc_heap c' a = Some e' \<and> ce_backend e' = ce_backend e))"

lemma heap_grows_refl [simp]: "heap_grows c c"
  by (simp add: heap_grows_def)

lemma request_ok_grows: "request_ok c q \<Longrightarrow> heap_grows c c' \<Longrightarrow> request_ok c' q"
  by (fastforce simp: request_ok_def heap_grows_def)

lemma cache_get_grows:
  assumes "cache_wf c" "cache_get b now c = (a, c')"
  shows "heap_grows c c'"
proof -
  have "sc_next c \<notin> dom (sc_heap c)" using assms(1) by (auto simp: cache_wf_def)
  then show ?thesis
    using assms(2) by (auto simp: cache_get_def heap_grows_def Let_def split: option.splits)
qed

lemma cache_get_heap_ok:
  assumes "heap_ok c" "clean b" "cache_get b now c = (a, c')"
  shows "heap_ok c'"
  using assms by (auto simp: cache_get_def heap_ok_def entry_ok_def Let_def split: option.splits if_splits)

lemma evict_heap:
  assumes "evict_entry a (c, w) = (c', w')"
  shows "heap_grows c c'" "heap_ok c \<Longrightarrow> heap_ok c'" "b \<noteq> a \<Longrightarrow> sc_heap c' b = sc_heap c b"
  using assms by (auto simp: evict_entry_def heap_grows_def heap_ok_def entry_ok_def split: option.splits if_splits)

lemma collect_wf: "cache_wf c \<Longrightarrow> cache_wf (c\<lparr>sc_entries := []\<rparr>)"
  by (simp add: cache_wf_def)

lemma cache_inv_cache:
  assumes "cache_inv s" "cs_reqs s' = cs_reqs s" "cs_locked s' = cs_locked s"
    "cache_wf (cs_cache s')" "heap_ok (cs_cache s')" "heap_grows (cs_cache s) (cs_cache s')"
  shows "cache_inv s'"
  using assms request_ok_grows [OF _ assms(6)] by (simp add: cache_inv_def)

lemma sys_evict_inv:
  assumes "cache_inv s" "sys_evict a s = Some s'"
  shows "cache_inv s'"
proof -
  obtain c w where e: "evict_entry a (cs_cache s, \<lparr>w_now = cs_now s, w_dials = 0, w_socks = cs_socks s\<rparr>) = (c, w)"
    by fastforce
  then have "s' = s\<lparr>cs_cache := c, cs_socks := w_socks w\<rparr>"
    using assms(2) by (auto simp: sys_evict_def split: if_splits)
  with assms(1) evict_wf [OF _ e] evict_heap [OF e] show ?thesis
    by (intro cache_inv_cache [OF assms(1)]) (auto simp: cache_inv_def)
qed

lemma entries_inv:
  assumes "cache_inv s" "cs_reqs s' = cs_reqs s" "cs_locked s' = cs_locked s"
    "cs_cache s' = (cs_cache s)\<lparr>sc_entries := filter P (sc_entries (cs_cache s)), sc_done := d\<rparr>"
  shows "cache_inv s'"
  using assms filter_entries_wf [of "cs_cache s" P]
  by (intro cache_inv_cache [OF assms(1)]) (auto simp: cache_inv_def cache_wf_def heap_ok_def heap_grows_def)

lemma req_get_inv:
  assumes "cache_inv s" "clean b"
  shows "cache_inv (req_get b cx cmd s)"
proof -
  obtain a c where g: "cache_get b (cs_now s) (cs_cache s) = (a, c)" by fastforce
  have wf: "cache_wf (cs_cache s)" "heap_ok (cs_cache s)" using assms(1) by (simp_all add: cache_inv_def)
  obtain e where e: "sc_heap c a = Some e" "ce_backend e = b" using cache_get_entry [OF wf(1) assms(2) g] by blast
  have "request_ok c q" if "q \<in> set (cs_reqs s)" for q
    using that assms(1) request_ok_grows [OF _ cache_get_grows [OF wf(1) g]] by (auto simp: cache_inv_def)
  moreover have "request_ok c (RqWait b cx cmd a (cs_now s))" using e by (simp add: request_ok_def)
  moreover have "mutexes (cs_locked s) (cs_reqs s @ [RqWait b cx cmd a (cs_now s)])"
    using assms(1) mutexes_append by (simp add: cache_inv_def)
  ultimately show ?thesis
    using g cache_get_wf [OF wf(1) assms(2) g] cache_get_heap_ok [OF wf(2) assms(2) g]
    by (auto simp: cache_inv_def req_get_def)
qed

lemma in_flight_of: "q \<in> set (cs_reqs s) \<Longrightarrow> cache_inv s \<Longrightarrow> in_flight q = Some (b, a, g) \<Longrightarrow>
  \<exists>e. sc_heap (cs_cache s) a = Some e \<and> ce_backend e = b \<and> entry_ok e"
  by (fastforce simp: cache_inv_def request_ok_def heap_ok_def)

lemma req_lock_inv:
  assumes "cache_inv s" "req_lock r s = Some s'"
  shows "cache_inv s'"
proof -
  obtain b cx cmd a g where r: "r < length (cs_reqs s)" "cs_reqs s ! r = RqWait b cx cmd a g" "a \<notin> cs_locked s"
    and s': "s' = s\<lparr>cs_locked := insert a (cs_locked s), cs_reqs := (cs_reqs s)[r := RqHold b cx cmd a g (cs_now s)]\<rparr>"
    using assms(2) by (auto simp: req_lock_def split: if_splits request_pc.splits)
  have "request_ok (cs_cache s) (cs_reqs s ! r)" using r(1) assms(1) by (simp add: cache_inv_def)
  then have "request_ok (cs_cache s) (RqHold b cx cmd a g (cs_now s))" using r(2) by (simp add: request_ok_def)
  then have "\<forall>q \<in> set (cs_reqs s'). request_ok (cs_cache s) q"
    using assms(1) set_update_subset_insert [of "cs_reqs s" r] by (fastforce simp: s' cache_inv_def)
  moreover have "mutexes (cs_locked s') (cs_reqs s')"
    using assms(1) r mutexes_lock by (simp add: s' cache_inv_def)
  ultimately show ?thesis using assms(1) by (simp add: cache_inv_def s')
qed

lemma req_finish_inv:
  assumes "cache_inv s" "req_finish env r s = Some s'"
  shows "cache_inv s'"
proof -
  obtain b cx cmd a g t e out e' w' where r: "r < length (cs_reqs s)" "cs_reqs s ! r = RqHold b cx cmd a g t"
    and e: "sc_heap (cs_cache s) a = Some e"
    and x: "entry_execute (env r) (sc_client (cs_cache s)) cx b cmd e \<lparr>w_now = t, w_dials = 0, w_socks = []\<rparr> = (out, e', w')"
    and s': "s' = s\<lparr>cs_cache := (cs_cache s)\<lparr>sc_heap := (sc_heap (cs_cache s))(a \<mapsto> e')\<rparr>,
      cs_socks := cs_socks s @ w_socks w', cs_locked := cs_locked s - {a}, cs_reqs := (cs_reqs s)[r := RqDone out]\<rparr>"
    using assms(2) by (auto simp: req_finish_def split: if_splits request_pc.splits option.splits prod.splits)
  have "ce_backend e = b" "entry_ok e"
    using in_flight_of [OF nth_mem [OF r(1)] assms(1), of b a g] r e by auto
  then have ok: "entry_ok e'" "ce_backend e' = ce_backend e" using entry_execute_ok [OF x] by simp_all
  have wf: "cache_wf (cs_cache s')"
    unfolding s' using cache_put_wf [OF _ e ok(2)] ok assms(1) by (simp add: cache_inv_def)
  have grows: "heap_grows (cs_cache s) (cs_cache s')" using e ok by (simp add: s' heap_grows_def)
  have "request_ok (cs_cache s') q" if "q \<in> set (cs_reqs s')" for q
  proof -
    have "q = RqDone out \<or> q \<in> set (cs_reqs s)" using that set_update_subset_insert [of "cs_reqs s" r "RqDone out"] by (auto simp: s')
    then show ?thesis
    proof
      assume "q \<in> set (cs_reqs s)"
      with assms(1) show ?thesis by (intro request_ok_grows [OF _ grows]) (simp add: cache_inv_def)
    qed (simp add: request_ok_def)
  qed
  moreover have "heap_ok (cs_cache s')" using assms(1) ok by (simp add: s' cache_inv_def heap_ok_def)
  moreover have "mutexes (cs_locked s') (cs_reqs s')"
    using assms(1) r mutexes_unlock by (simp add: s' cache_inv_def)
  ultimately show ?thesis using wf by (simp add: cache_inv_def)
qed

text \<open>The sweeps: the reaper's and \<^verbatim>\<open>closeAll\<close>'s.\<close>

lemma cache_inv_frame:
  assumes "cache_inv s" "cs_cache s' = cs_cache s" "cs_reqs s' = cs_reqs s" "cs_locked s' = cs_locked s"
  shows "cache_inv s'"
  using assms by (simp add: cache_inv_def)

lemma sweep_inv:
  assumes "cache_inv s" "reap_tick s = Some s' \<or> reap_turn s = Some s' \<or> reap_stop s = Some s' \<or> close_turn k s = Some s'"
  shows "cache_inv s'"
proof -
  have ev: "cache_inv v'" if "sys_evict a s = Some v" "cs_cache v' = cs_cache v" "cs_reqs v' = cs_reqs v" "cs_locked v' = cs_locked v"
    for a v v' using sys_evict_inv [OF assms(1) that(1)] cache_inv_frame that(2-4) by blast
  have tick: "cache_inv s'" if "reap_tick s = Some s'"
    using that by (intro entries_inv [OF assms(1), where d = "sc_done (cs_cache s)"])
      (auto simp: reap_tick_def reap_collect_def Let_def split: if_splits)
  have turn: "cache_inv s'" if "reap_turn s = Some s'"
  proof (cases "cs_reaper s")
    case (RpPass as)
    show ?thesis
    proof (cases as)
      case Nil
      with that RpPass show ?thesis by (intro cache_inv_frame [OF assms(1)]) (auto simp: reap_turn_def)
    next
      case (Cons a as')
      with that RpPass obtain v where "sys_evict a s = Some v" "s' = v\<lparr>cs_reaper := RpPass as'\<rparr>"
        by (auto simp: reap_turn_def)
      then show ?thesis by (intro ev) auto
    qed
  qed (use that in \<open>auto simp: reap_turn_def\<close>)
  have stop: "cache_inv s'" if "reap_stop s = Some s'"
    using that by (intro cache_inv_frame [OF assms(1)]) (auto simp: reap_stop_def split: if_splits)
  have cl: "cache_inv s'" if "close_turn k s = Some s'"
  proof (cases "cs_closers s ! k")
    case ClMap
    with that show ?thesis
      by (intro entries_inv [OF assms(1), where d = "sc_done (cs_cache s)" and P = "\<lambda>_. False"])
        (auto simp: close_turn_def closeAll_collect_def split: if_splits)
  next
    case (ClSweepAll as)
    show ?thesis
    proof (cases as)
      case Nil
      with that ClSweepAll show ?thesis
        by (intro cache_inv_frame [OF assms(1)]) (auto simp: close_turn_def split: if_splits)
    next
      case (Cons a as')
      with that ClSweepAll obtain v where "sys_evict a s = Some v" "s' = v\<lparr>cs_closers := (cs_closers v)[k := ClSweepAll as']\<rparr>"
        by (auto simp: close_turn_def split: if_splits)
      then show ?thesis by (intro ev) auto
    qed
  qed (use that in \<open>auto simp: close_turn_def split: if_splits\<close>)
  show ?thesis using assms(2) tick turn stop cl by blast
qed

lemma cache_step_inv:
  assumes clean: "\<And>b cx cmd s. admit (ReqGet b cx cmd) s \<Longrightarrow> clean b"
    and "cache_inv s" "cache_step env admit e s = Some s'"
  shows "cache_inv s'"
proof (cases e)
  case CallCacheClose
  with assms(3) show ?thesis
    by (intro entries_inv [OF assms(2), where d = True and P = "\<lambda>_. True"]) (auto simp: cache_step_def split: if_splits)
next
  case (Pass d)
  with assms(3) show ?thesis
    by (intro cache_inv_frame [OF assms(2)]) (auto simp: cache_step_def split: if_splits)
next
  case (ReqGet b cx cmd)
  with assms(3) req_get_inv [OF assms(2) clean, of b cx cmd s] show ?thesis
    by (auto simp: cache_step_def split: if_splits)
next
  case (ReqLock r)
  with assms(3) req_lock_inv [OF assms(2), of r s'] show ?thesis by (auto simp: cache_step_def split: if_splits)
next
  case (ReqFinish r)
  with assms(3) req_finish_inv [OF assms(2), of env r s'] show ?thesis by (auto simp: cache_step_def split: if_splits)
next
  case (CloseTurn k)
  with assms(3) sweep_inv [OF assms(2), of s' k] show ?thesis by (simp add: cache_step_def split: if_splits)
qed (use assms(3) sweep_inv [OF assms(2), of s' 0] in \<open>simp_all add: cache_step_def split: if_splits\<close>)

lemma cache_inv_reach:
  assumes "\<And>b cx cmd s. admit (ReqGet b cx cmd) s \<Longrightarrow> clean b" "cache_reach env admit client idle t s"
  shows "cache_inv s"
proof (rule cr.invariant [OF _ _ assms(2)])
  show "cache_inv (new_sys client idle t)"
    using cache_wf_new by (simp add: cache_inv_def new_sys_def Let_def heap_ok_def newCache_def mutexes_def)
qed (rule cache_step_inv [OF assms(1)])

subsection \<open>The holder of a mutex is alone\<close>

text \<open>The session of an entry, if there is the entry.\<close>

definition session_at :: "sessionCache \<Rightarrow> nat \<Rightarrow> Session option option" where
  "session_at c a = map_option ce_session (sc_heap c a)"

lemma session_at_cong: "sc_heap c' a = sc_heap c a \<Longrightarrow> session_at c' a = session_at c a"
  by (simp add: session_at_def)

lemma cache_get_session:
  assumes "cache_wf c" "a \<in> dom (sc_heap c)" "cache_get b now c = (a', c')"
  shows "session_at c' a = session_at c a"
proof -
  have "a \<noteq> sc_next c" using assms(1,2) by (auto simp: cache_wf_def)
  with assms(3) show ?thesis
    by (auto simp: cache_get_def session_at_def Let_def option.map_comp comp_def split: option.splits)
qed

lemma sys_evict_frame:
  assumes "sys_evict a s = Some s'"
  shows "cs_reqs s' = cs_reqs s" "cs_locked s' = cs_locked s" "cs_closers s' = cs_closers s" "cs_reaper s' = cs_reaper s"
    "cs_now s' = cs_now s" "a \<notin> cs_locked s" "b \<noteq> a \<Longrightarrow> sc_heap (cs_cache s') b = sc_heap (cs_cache s) b"
    "sc_entries (cs_cache s') = sc_entries (cs_cache s)" "sessionless (cs_cache s') a"
    "sc_done (cs_cache s') = sc_done (cs_cache s)"
proof -
  obtain c w where e: "evict_entry a (cs_cache s, \<lparr>w_now = cs_now s, w_dials = 0, w_socks = cs_socks s\<rparr>) = (c, w)"
    by fastforce
  then have s': "s' = s\<lparr>cs_cache := c, cs_socks := w_socks w\<rparr>" "a \<notin> cs_locked s"
    using assms by (auto simp: sys_evict_def split: if_splits)
  then show "cs_reqs s' = cs_reqs s" "cs_locked s' = cs_locked s" "cs_closers s' = cs_closers s" "cs_reaper s' = cs_reaper s"
    "cs_now s' = cs_now s" "a \<notin> cs_locked s" by simp_all
  show "b \<noteq> a \<Longrightarrow> sc_heap (cs_cache s') b = sc_heap (cs_cache s) b" "sc_entries (cs_cache s') = sc_entries (cs_cache s)"
    "sessionless (cs_cache s') a" "sc_done (cs_cache s') = sc_done (cs_cache s)"
    using evict_heap(3) [OF e] evict_effect(1,4) [OF e] e s'(1)
    by (auto simp: evict_entry_def split: option.splits)
qed

lemma sweep_frame:
  assumes "reap_tick s = Some s' \<or> reap_turn s = Some s' \<or> reap_stop s = Some s' \<or> close_turn k s = Some s'"
  shows "cs_reqs s' = cs_reqs s" "cs_locked s' = cs_locked s" "cs_now s' = cs_now s"
    "a \<in> cs_locked s \<Longrightarrow> sc_heap (cs_cache s') a = sc_heap (cs_cache s) a"
  using assms sys_evict_frame(1,2,5,6,7)
  by (auto simp: reap_tick_def reap_collect_def reap_turn_def reap_stop_def close_turn_def closeAll_collect_def Let_def
      split: if_splits reaper_pc.splits closer_pc.splits list.splits) metis+

lemma holder_alone:
  assumes "cache_inv s" "r < length (cs_reqs s)" "cs_reqs s ! r = RqHold b cx cmd a g t"
    "cache_step env admit e s = Some s'" "e \<noteq> ReqFinish r"
  shows "cs_reqs s' ! r = cs_reqs s ! r \<and> session_at (cs_cache s') a = session_at (cs_cache s) a"
proof -
  have m: "mutexes (cs_locked s) (cs_reqs s)" and wf: "cache_wf (cs_cache s)" using assms(1) by (simp_all add: cache_inv_def)
  have h: "holds (cs_reqs s ! r) = Some a" "a \<in> cs_locked s" using assms(3) mutexesD(1) [OF m assms(2)] by auto
  have a: "a \<in> dom (sc_heap (cs_cache s))"
    using in_flight_of [OF nth_mem [OF assms(2)] assms(1), of b a g] assms(3) by auto
  have sweep: ?thesis if "reap_tick s = Some s' \<or> reap_turn s = Some s' \<or> reap_stop s = Some s' \<or> close_turn k s = Some s'" for k
    by (simp add: sweep_frame(1) [OF that] sweep_frame(4) [OF that h(2)] session_at_def)
  show ?thesis
  proof (cases e)
    case (ReqGet b' cx' cmd')
    obtain a' c' where "cache_get b' (cs_now s) (cs_cache s) = (a', c')" by fastforce
    with ReqGet assms(2,4) cache_get_session [OF wf a this] show ?thesis
      by (auto simp: cache_step_def req_get_def nth_append split: if_splits)
  next
    case (ReqLock r')
    with assms(3,4) show ?thesis
      by (auto simp: cache_step_def req_lock_def nth_list_update split: if_splits request_pc.splits)
  next
    case (ReqFinish r')
    have "holds (cs_reqs s ! r') \<noteq> Some a" if "r' < length (cs_reqs s)"
      using mutexesD(2) [OF m assms(2) h(1) that] assms(5) ReqFinish by auto
    with ReqFinish assms(4,5) show ?thesis
      by (auto simp: cache_step_def req_finish_def session_at_def split: if_splits request_pc.splits option.splits prod.splits)
  next
    case (CloseTurn k)
    with assms(4) sweep [of k] show ?thesis by (auto simp: cache_step_def split: if_splits)
  qed (use assms(4) sweep [of 0] in \<open>auto simp: cache_step_def session_at_def split: if_splits\<close>)
qed

end
