(* ===== verification/Rcon_Cache_Settled.thy ===== *)
theory Rcon_Cache_Settled
  imports Rcon_Cache_Race
begin

text \<open>
  What a cache releases: the discipline under which closing it releases every session it ever
  dialled, and what happens without.
\<close>

subsection \<open>Discipline\<close>

text \<open>What the surroundings of a cache are to observe: addresses without a NUL; no request after the cache was closed,
  and none in flight when it is, as the comment on \<^verbatim>\<open>Handler.Close\<close> asks; and, when the
  reaper makes a pass, no request in flight for longer than the idle timeout.\<close>

definition no_flight :: "cache_sys \<Rightarrow> bool" where
  "no_flight s = list_all (\<lambda>q. in_flight q = None) (cs_reqs s)"

definition young :: "cache_sys \<Rightarrow> request_pc \<Rightarrow> bool" where
  "young s q = (case in_flight q of None \<Rightarrow> True | Some (b, a, g) \<Rightarrow> cs_now s - sc_idle (cs_cache s) \<le> g)"

fun polite :: "cache_event \<Rightarrow> cache_sys \<Rightarrow> bool" where
  "polite (ReqGet b cx cmd) s \<longleftrightarrow> clean b \<and> \<not> sc_done (cs_cache s)"
| "polite CallCacheClose s \<longleftrightarrow> no_flight s"
| "polite ReapTick s \<longleftrightarrow> list_all (young s) (cs_reqs s)"
| "polite _ s \<longleftrightarrow> True"

subsection \<open>Who will close a session\<close>

text \<open>The entries the map still has, and those a sweep has yet to visit.\<close>

definition mapped :: "cache_sys \<Rightarrow> nat set" where
  "mapped s = snd ` set (sc_entries (cs_cache s))"

fun reaper_list :: "reaper_pc \<Rightarrow> nat set" where
  "reaper_list (RpPass as) = set as"
| "reaper_list _ = {}"

fun closer_list :: "closer_pc \<Rightarrow> nat set" where
  "closer_list (ClSweepAll as) = set as"
| "closer_list _ = {}"

definition pending :: "cache_sys \<Rightarrow> nat set" where
  "pending s = mapped s \<union> reaper_list (cs_reaper s) \<union> (\<Union>p \<in> set (cs_closers s). closer_list p)"

text \<open>Every request in flight uses an entry of the map, marked as used no earlier than the request got
  it; every session is in an entry that is still to be visited; and once the cache is closed, no
  request is in flight and, from \<^verbatim>\<open>closeAll\<close> on, the map is empty.\<close>

definition flight_ok :: "cache_sys \<Rightarrow> request_pc \<Rightarrow> bool" where
  "flight_ok s q \<longleftrightarrow> (\<forall>b a g. in_flight q = Some (b, a, g) \<longrightarrow> a \<in> mapped s \<and>
     (\<exists>e. sc_heap (cs_cache s) a = Some e \<and> g \<le> ce_lastUsed e \<and> ce_lastUsed e \<le> cs_now s))"

definition settled :: "cache_sys \<Rightarrow> bool" where
  "settled s \<longleftrightarrow>
     (\<forall>q \<in> set (cs_reqs s). flight_ok s q)
     \<and> (\<forall>a. a \<in> pending s \<or> sessionless (cs_cache s) a)
     \<and> (sc_done (cs_cache s) \<longrightarrow> no_flight s)
     \<and> (\<forall>p \<in> set (cs_closers s). sc_done (cs_cache s) \<and> (p \<noteq> ClMap \<longrightarrow> sc_entries (cs_cache s) = []))
     \<and> list_all sclosed (cs_socks s)"

lemma flight_ok_frame:
  assumes "flight_ok s q" "mapped s \<subseteq> mapped s'" "cs_now s \<le> cs_now s'"
    "\<And>a e. sc_heap (cs_cache s) a = Some e \<Longrightarrow> ce_lastUsed e \<le> cs_now s \<Longrightarrow> \<exists>e'. sc_heap (cs_cache s') a = Some e' \<and>
       ce_lastUsed e \<le> ce_lastUsed e' \<and> ce_lastUsed e' \<le> cs_now s'"
  shows "flight_ok s' q"
  unfolding flight_ok_def
proof (intro allI impI)
  fix b a g
  assume "in_flight q = Some (b, a, g)"
  with assms(1) obtain e where "a \<in> mapped s" "sc_heap (cs_cache s) a = Some e" "g \<le> ce_lastUsed e" "ce_lastUsed e \<le> cs_now s"
    by (auto simp: flight_ok_def)
  with assms(2) assms(4) [of a e] show "a \<in> mapped s' \<and> (\<exists>e. sc_heap (cs_cache s') a = Some e \<and> g \<le> ce_lastUsed e \<and> ce_lastUsed e \<le> cs_now s')"
    by force
qed

lemma no_flight_ok: "no_flight s \<Longrightarrow> q \<in> set (cs_reqs s) \<Longrightarrow> flight_ok s' q"
  by (auto simp: no_flight_def list_all_iff flight_ok_def)

lemma settled_open:
  assumes "settled s" "r < length (cs_reqs s)" "in_flight (cs_reqs s ! r) \<noteq> None"
  shows "\<not> sc_done (cs_cache s)" "cs_closers s = []"
proof -
  have "\<not> no_flight s" using assms(2,3) by (auto simp: no_flight_def list_all_length)
  with assms(1) show "\<not> sc_done (cs_cache s)" by (simp add: settled_def)
  with assms(1) show "cs_closers s = []" by (cases "cs_closers s") (auto simp: settled_def)
qed

lemma settled_pass: "settled s \<Longrightarrow> settled (s\<lparr>cs_now := cs_now s + int d\<rparr>)"
proof -
  assume s: "settled s"
  let ?s = "s\<lparr>cs_now := cs_now s + int d\<rparr>"
  have "flight_ok ?s q" if "flight_ok s q" for q
    by (rule flight_ok_frame [OF that]) (auto simp: mapped_def)
  with s show ?thesis by (simp add: settled_def pending_def mapped_def no_flight_def)
qed

lemma cache_get_effect:
  assumes "cache_wf c" "clean b" "cache_get b now c = (a, c')"
  shows "set (sc_entries c) \<subseteq> set (sc_entries c')" "(cacheKey b, a) \<in> set (sc_entries c')"
    "\<And>a'. sessionless c a' \<Longrightarrow> sessionless c' a'"
    "\<And>a' e. sc_heap c a' = Some e \<Longrightarrow> ce_lastUsed e \<le> now \<Longrightarrow>
       \<exists>e'. sc_heap c' a' = Some e' \<and> ce_lastUsed e \<le> ce_lastUsed e' \<and> ce_lastUsed e' \<le> now"
    "\<exists>e. sc_heap c' a = Some e \<and> ce_lastUsed e = now" "sc_done c' = sc_done c"
proof -
  obtain e where e: "sc_heap c' a = Some e" "ce_lastUsed e = now" "map_of (sc_entries c') (cacheKey b) = Some a"
    using cache_get_entry [OF assms] by blast
  then show "(cacheKey b, a) \<in> set (sc_entries c')" "\<exists>e. sc_heap c' a = Some e \<and> ce_lastUsed e = now"
    by (auto dest: map_of_SomeD)
  have other: "sc_heap c' a' = sc_heap c a'" if "a' \<noteq> a" for a'
    using that assms(3) by (auto simp: cache_get_def Let_def split: option.splits)
  show "set (sc_entries c) \<subseteq> set (sc_entries c')" "sc_done c' = sc_done c"
    using assms(3) by (auto simp: cache_get_def Let_def split: option.splits)
  show "\<exists>e'. sc_heap c' a' = Some e' \<and> ce_lastUsed f \<le> ce_lastUsed e' \<and> ce_lastUsed e' \<le> now"
    if "sc_heap c a' = Some f" "ce_lastUsed f \<le> now" for a' f
    using that other e by (cases "a' = a") auto
  show "sessionless c' a'" if "sessionless c a'" for a'
    using that assms(3) by (auto simp: cache_get_def sessionless_def Let_def split: option.splits if_splits)
qed

lemma settled_get:
  assumes "settled s" "cache_inv s" "clean b" "\<not> sc_done (cs_cache s)"
  shows "settled (req_get b cx cmd s)"
proof -
  obtain a c where g: "cache_get b (cs_now s) (cs_cache s) = (a, c)" by fastforce
  let ?s = "s\<lparr>cs_cache := c, cs_reqs := cs_reqs s @ [RqWait b cx cmd a (cs_now s)]\<rparr>"
  have wf: "cache_wf (cs_cache s)" using assms(2) by (simp add: cache_inv_def)
  note eff = cache_get_effect [OF wf assms(3) g]
  have map: "mapped s \<subseteq> mapped ?s" "a \<in> mapped ?s" using eff(1,2) by (force simp: mapped_def)+
  have old: "flight_ok ?s q" if "q \<in> set (cs_reqs s)" for q
    by (rule flight_ok_frame [of s]) (use that assms(1) map eff(4) in \<open>auto simp: settled_def\<close>)
  have new: "flight_ok ?s (RqWait b cx cmd a (cs_now s))" using map(2) eff(5) by (auto simp: flight_ok_def)
  have pend: "a' \<in> pending ?s \<or> sessionless c a'" for a'
    using assms(1) map(1) eff(3) [of a'] by (auto simp: settled_def pending_def)
  show ?thesis
    using old new pend assms(1,4) eff(6) by (auto simp: settled_def req_get_def g)
qed

lemma settled_lock:
  assumes "settled s" "req_lock r s = Some s'"
  shows "settled s'"
proof -
  obtain b cx cmd a g where r: "r < length (cs_reqs s)" "cs_reqs s ! r = RqWait b cx cmd a g"
    and s': "s' = s\<lparr>cs_locked := insert a (cs_locked s), cs_reqs := (cs_reqs s)[r := RqHold b cx cmd a g (cs_now s)]\<rparr>"
    using assms(2) by (auto simp: req_lock_def split: if_splits request_pc.splits)
  have fr: "flight_ok s' q = flight_ok s q" for q by (simp add: s' flight_ok_def mapped_def)
  have "cs_reqs s ! r \<in> set (cs_reqs s)" using r(1) by simp
  with assms(1) have "flight_ok s (cs_reqs s ! r)" by (auto simp: settled_def)
  then have "flight_ok s (RqHold b cx cmd a g (cs_now s))" using r(2) by (simp add: flight_ok_def)
  then have fl: "\<forall>q \<in> set (cs_reqs s'). flight_ok s' q"
    unfolding fr using assms(1) set_update_subset_insert [of "cs_reqs s" r] by (fastforce simp: s' settled_def)
  with assms(1) settled_open [OF assms(1) r(1)] r(2) show ?thesis by (simp add: settled_def pending_def mapped_def s')
qed

lemma settled_finish:
  assumes "settled s" "req_finish env r s = Some s'"
  shows "settled s'"
proof -
  obtain b cx cmd a g t e out e' w' where r: "r < length (cs_reqs s)" "cs_reqs s ! r = RqHold b cx cmd a g t"
    and e: "sc_heap (cs_cache s) a = Some e" "out \<noteq> Hang"
    and x: "entry_execute (env r) (sc_client (cs_cache s)) cx b cmd e \<lparr>w_now = t, w_dials = 0, w_socks = []\<rparr> = (out, e', w')"
    and s': "s' = s\<lparr>cs_cache := (cs_cache s)\<lparr>sc_heap := (sc_heap (cs_cache s))(a \<mapsto> e')\<rparr>,
      cs_socks := cs_socks s @ w_socks w', cs_locked := cs_locked s - {a}, cs_reqs := (cs_reqs s)[r := RqDone out]\<rparr>"
    using assms(2) by (auto simp: req_finish_def split: if_splits request_pc.splits option.splits prod.splits)
  have "cs_reqs s ! r \<in> set (cs_reqs s)" using r(1) by simp
  with assms(1) r(2) have a: "a \<in> mapped s" by (force simp: settled_def flight_ok_def)
  have "flight_ok s' q" if "q \<in> set (cs_reqs s)" for q
    by (rule flight_ok_frame [of s])
      (use that assms(1) entry_execute_lastUsed [OF x] e in \<open>auto simp: settled_def s' mapped_def\<close>)
  then have fl: "\<forall>q \<in> set (cs_reqs s'). flight_ok s' q"
    using set_update_subset_insert [of "cs_reqs s" r "RqDone out"] by (fastforce simp: s' flight_ok_def)
  have "list_all sclosed (w_socks w')" using entry_execute_socks [OF x e(2)] by auto
  moreover have "a' \<in> pending s' \<or> sessionless (cs_cache s') a'" for a'
    using assms(1) a by (cases "a' = a") (auto simp: settled_def pending_def mapped_def s' sessionless_def)
  ultimately show ?thesis
    using assms(1) fl settled_open [OF assms(1) r(1)] r(2) by (simp add: settled_def s')
qed

lemma sys_evict_effect:
  assumes "sys_evict a s = Some s'"
  shows "sessionless (cs_cache s) b \<Longrightarrow> sessionless (cs_cache s') b"
    "sc_heap (cs_cache s) b = Some e \<Longrightarrow> \<exists>e'. sc_heap (cs_cache s') b = Some e' \<and> ce_lastUsed e' = ce_lastUsed e"
    "list_all sclosed (cs_socks s) \<Longrightarrow> list_all sclosed (cs_socks s')"
proof -
  obtain c w where e: "evict_entry a (cs_cache s, \<lparr>w_now = cs_now s, w_dials = 0, w_socks = cs_socks s\<rparr>) = (c, w)"
    by fastforce
  then have s': "s' = s\<lparr>cs_cache := c, cs_socks := w_socks w\<rparr>" using assms by (auto simp: sys_evict_def split: if_splits)
  show "sessionless (cs_cache s) b \<Longrightarrow> sessionless (cs_cache s') b" using evict_effect(2) [OF e] by (simp add: s')
  show "list_all sclosed (cs_socks s) \<Longrightarrow> list_all sclosed (cs_socks s')" using evict_effect(3) [OF e] by (auto simp: s')
  show "sc_heap (cs_cache s) b = Some e \<Longrightarrow> \<exists>e'. sc_heap (cs_cache s') b = Some e' \<and> ce_lastUsed e' = ce_lastUsed e" for e
    using e by (auto simp: s' evict_entry_def split: option.splits if_splits)
qed

lemma settled_evict:
  assumes "settled s" "sys_evict a s = Some v" "pending s \<subseteq> insert a (pending s')"
    "cs_cache s' = cs_cache v" "cs_now s' = cs_now v" "cs_socks s' = cs_socks v" "cs_reqs s' = cs_reqs v"
    "\<And>p. p \<in> set (cs_closers s') \<Longrightarrow> sc_done (cs_cache s) \<and> (p \<noteq> ClMap \<longrightarrow> sc_entries (cs_cache s) = [])"
  shows "settled s'"
proof -
  note fr = sys_evict_frame [OF assms(2)] and eff = sys_evict_effect [OF assms(2)]
  have "flight_ok s' q" if "q \<in> set (cs_reqs s)" for q
  proof (rule flight_ok_frame [of s])
    show "flight_ok s q" using that assms(1) by (simp add: settled_def)
    show "mapped s \<subseteq> mapped s'" using assms(4) fr(8) by (simp add: mapped_def)
    show "cs_now s \<le> cs_now s'" using assms(5) fr(5) by simp
    show "\<exists>e'. sc_heap (cs_cache s') b = Some e' \<and> ce_lastUsed e \<le> ce_lastUsed e' \<and> ce_lastUsed e' \<le> cs_now s'"
      if "sc_heap (cs_cache s) b = Some e" "ce_lastUsed e \<le> cs_now s" for b e
      using eff(2) [OF that(1)] that(2) assms(4,5) fr(5) by auto
  qed
  moreover have "b \<in> pending s' \<or> sessionless (cs_cache s') b" for b
  proof (cases "b = a")
    case False
    with assms(1,3,4) eff(1) [of b] show ?thesis by (auto simp: settled_def)
  qed (use assms(4) fr(9) in simp)
  ultimately show ?thesis
    using assms(1,4-8) fr(1,8,10) eff(3) by (auto simp: settled_def no_flight_def)
qed

lemma settled_tick:
  assumes "settled s" "reap_tick s = Some s'" "list_all (young s) (cs_reqs s)"
  shows "settled s'"
proof -
  let ?c = "cs_cache s" let ?cut = "cs_now s - sc_idle ?c"
  let ?stales = "filter (stale_entry ?cut ?c) (sc_entries ?c)" let ?keep = "filter (\<lambda>p. \<not> stale_entry ?cut ?c p) (sc_entries ?c)"
  have s: "cs_reaper s = RpSelect" and s': "cs_cache s' = ?c\<lparr>sc_entries := ?keep\<rparr>" "cs_reaper s' = RpPass (map snd ?stales)"
    "cs_now s' = cs_now s" "cs_reqs s' = cs_reqs s" "cs_closers s' = cs_closers s" "cs_socks s' = cs_socks s"
    using assms(2) by (auto simp: reap_tick_def reap_collect_def Let_def split: if_splits)
  have pend: "pending s \<subseteq> pending s'" using s by (force simp: pending_def mapped_def s')
  have "flight_ok s' q" if q: "q \<in> set (cs_reqs s)" for q
    unfolding flight_ok_def
  proof (intro allI impI)
    fix b a g
    assume f: "in_flight q = Some (b, a, g)"
    with assms(1) q obtain e where e: "a \<in> mapped s" "sc_heap ?c a = Some e" "g \<le> ce_lastUsed e" "ce_lastUsed e \<le> cs_now s"
      by (fastforce simp: settled_def flight_ok_def)
    have "?cut \<le> g" using assms(3) q f by (auto simp: list_all_iff young_def)
    with e have "a \<in> mapped s'" by (force simp: mapped_def s' stale_entry_def)
    with e show "a \<in> mapped s' \<and> (\<exists>e. sc_heap (cs_cache s') a = Some e \<and> g \<le> ce_lastUsed e \<and> ce_lastUsed e \<le> cs_now s')"
      by (auto simp: s')
  qed
  moreover have "a \<in> pending s' \<or> sessionless (cs_cache s') a" for a
    using assms(1) pend by (auto simp: settled_def s' sessionless_def)
  ultimately show ?thesis using assms(1) by (auto simp: settled_def no_flight_def s')
qed

lemma closer_set:
  assumes "k < length ps" "p \<in> set (ps[k := p'])"
  shows "p = p' \<or> p \<in> set ps"
  using assms set_update_subset_insert [of ps k p'] by blast

lemma closers_update:
  assumes "k < length ps" "closer_list (ps ! k) \<subseteq> X \<union> closer_list p'"
  shows "(\<Union>p \<in> set ps. closer_list p) \<subseteq> X \<union> (\<Union>p \<in> set (ps[k := p']). closer_list p)"
proof
  fix a
  assume "a \<in> (\<Union>p \<in> set ps. closer_list p)"
  then obtain i where i: "i < length ps" "a \<in> closer_list (ps ! i)" by (auto simp: in_set_conv_nth)
  have p': "p' \<in> set (ps[k := p'])" using assms(1) by (rule set_update_memI)
  show "a \<in> X \<union> (\<Union>p \<in> set (ps[k := p']). closer_list p)"
  proof (cases "i = k")
    case True
    with i assms(2) p' show ?thesis by auto
  next
    case False
    with i(1) have "ps ! i \<in> set (ps[k := p'])" by (metis length_list_update nth_list_update_neq nth_mem)
    with i(2) show ?thesis by blast
  qed
qed

lemma settled_reaper:
  assumes "settled s" "reaper_list p = reaper_list (cs_reaper s)"
  shows "settled (s\<lparr>cs_reaper := p\<rparr>)"
proof -
  have "flight_ok (s\<lparr>cs_reaper := p\<rparr>) q = flight_ok s q" for q by (simp add: flight_ok_def mapped_def)
  with assms show ?thesis by (simp add: settled_def pending_def mapped_def no_flight_def)
qed

lemma settled_reap_turn:
  assumes "settled s" "reap_turn s = Some s'"
  shows "settled s'"
proof (cases "cs_reaper s")
  case (RpPass as)
  show ?thesis
  proof (cases as)
    case Nil
    with assms RpPass settled_reaper [OF assms(1), of RpSelect] show ?thesis by (simp add: reap_turn_def)
  next
    case (Cons a as')
    with assms(2) RpPass obtain v where v: "sys_evict a s = Some v" "s' = v\<lparr>cs_reaper := RpPass as'\<rparr>"
      by (auto simp: reap_turn_def)
    show ?thesis
    proof (rule settled_evict [OF assms(1) v(1)])
      show "pending s \<subseteq> insert a (pending s')"
        using RpPass Cons sys_evict_frame(3,8) [OF v(1)] by (auto simp: pending_def mapped_def v(2))
    qed (use assms(1) sys_evict_frame(3) [OF v(1)] in \<open>auto simp: v(2) settled_def\<close>)
  qed
qed (use assms in \<open>auto simp: reap_turn_def\<close>)

lemma settled_reap_stop:
  assumes "settled s" "reap_stop s = Some s'"
  shows "settled s'"
  using assms settled_reaper [OF assms(1), of RpExit] by (auto simp: reap_stop_def split: if_splits)

lemma settled_call_close:
  assumes "settled s" "no_flight s"
  shows "settled (s\<lparr>cs_cache := (cs_cache s)\<lparr>sc_done := True\<rparr>, cs_closers := cs_closers s @ [ClMap]\<rparr>)"
  using assms by (auto simp: settled_def flight_ok_def pending_def mapped_def no_flight_def sessionless_def)

lemma settled_close_turn:
  assumes "settled s" "close_turn k s = Some s'"
  shows "settled s'"
proof -
  have k: "k < length (cs_closers s)" using assms(2) by (simp add: close_turn_def split: if_splits)
  then have pk: "cs_closers s ! k \<in> set (cs_closers s)" by simp
  then have dn: "sc_done (cs_cache s)" "no_flight s" using assms(1) by (auto simp: settled_def)
  have nf: "flight_ok s' q" if "cs_reqs s' = cs_reqs s" "q \<in> set (cs_reqs s')" for q
    using no_flight_ok [OF dn(2)] that by simp
  show ?thesis
  proof (cases "cs_closers s ! k")
    case ClMap
    let ?as = "map snd (sc_entries (cs_cache s))"
    have s': "s' = s\<lparr>cs_cache := (cs_cache s)\<lparr>sc_entries := []\<rparr>, cs_closers := (cs_closers s)[k := ClSweepAll ?as]\<rparr>"
      using assms(2) ClMap k by (simp add: close_turn_def closeAll_collect_def)
    have "(\<Union>p \<in> set (cs_closers s). closer_list p) \<subseteq> {} \<union> (\<Union>p \<in> set (cs_closers s'). closer_list p)"
      using closers_update [OF k, of "{}" "ClSweepAll ?as"] ClMap by (simp add: s')
    moreover have "ClSweepAll ?as \<in> set (cs_closers s')" using k by (simp add: s' set_update_memI)
    then have "mapped s \<subseteq> (\<Union>p \<in> set (cs_closers s'). closer_list p)" by (force simp: mapped_def)
    ultimately have "pending s \<subseteq> pending s'" by (auto simp: pending_def s')
    then have "a \<in> pending s' \<or> sessionless (cs_cache s') a" for a
      using assms(1) by (auto simp: settled_def s' sessionless_def)
    with assms(1) nf dn show ?thesis by (simp add: settled_def s' no_flight_def)
  next
    case (ClSweepAll as)
    have en: "sc_entries (cs_cache s) = []" using assms(1) pk ClSweepAll by (auto simp: settled_def)
    show ?thesis
    proof (cases as)
      case Nil
      have s': "s' = s\<lparr>cs_closers := (cs_closers s)[k := ClReturned]\<rparr>"
        using assms(2) ClSweepAll Nil k by (simp add: close_turn_def)
      have "(\<Union>p \<in> set (cs_closers s). closer_list p) \<subseteq> {} \<union> (\<Union>p \<in> set (cs_closers s'). closer_list p)"
        using closers_update [OF k, of "{}" ClReturned] ClSweepAll Nil by (simp add: s')
      then have "pending s \<subseteq> pending s'" by (auto simp: pending_def s' mapped_def)
      with assms(1) nf dn en show ?thesis by (auto simp: settled_def s' no_flight_def)
    next
      case (Cons a as')
      with assms(2) ClSweepAll k obtain v where
        v: "sys_evict a s = Some v" "s' = v\<lparr>cs_closers := (cs_closers v)[k := ClSweepAll as']\<rparr>"
        by (auto simp: close_turn_def)
      note fr = sys_evict_frame [OF v(1)]
      show ?thesis
      proof (rule settled_evict [OF assms(1) v(1)])
        have "(\<Union>p \<in> set (cs_closers s). closer_list p) \<subseteq> {a} \<union> (\<Union>p \<in> set (cs_closers s'). closer_list p)"
          using closers_update [OF k, of "{a}" "ClSweepAll as'"] ClSweepAll Cons fr(3) by (simp add: v(2))
        then show "pending s \<subseteq> insert a (pending s')" using fr(4,8) by (auto simp: pending_def mapped_def v(2))
      qed (use dn en in \<open>auto simp: v(2)\<close>)
    qed
  qed (use assms(2) k in \<open>simp add: close_turn_def\<close>)
qed

lemma settled_step:
  assumes "\<And>e s. admit e s \<Longrightarrow> polite e s" "cache_inv s" "settled s" "cache_step env admit e s = Some s'"
  shows "settled s'"
proof -
  have m: "polite e s" "cache_move env e s = Some s'"
    using assms(1) [of e s] assms(4) by (auto simp: cache_step_def split: if_splits)
  show ?thesis
  proof (cases e)
    case (ReqGet b cx cmd)
    with m settled_get [OF assms(3,2), of b cx cmd] show ?thesis by auto
  next
    case CallCacheClose
    with m settled_call_close [OF assms(3)] show ?thesis by auto
  next
    case (Pass d)
    with m settled_pass [OF assms(3), of d] show ?thesis by simp
  next
    case (ReqLock r)
    with m show ?thesis by (intro settled_lock [OF assms(3)]) simp
  next
    case (ReqFinish r)
    with m show ?thesis by (intro settled_finish [OF assms(3)]) simp
  next
    case ReapTick
    with m show ?thesis by (intro settled_tick [OF assms(3)]) simp_all
  next
    case ReapTurn
    with m show ?thesis by (intro settled_reap_turn [OF assms(3)]) simp
  next
    case ReapStop
    with m show ?thesis by (intro settled_reap_stop [OF assms(3)]) simp
  next
    case (CloseTurn k)
    with m show ?thesis by (intro settled_close_turn [OF assms(3)]) simp
  qed
qed

lemma settled_reach:
  assumes "\<And>e s. admit e s \<Longrightarrow> polite e s" "cache_reach env admit client idle t s"
  shows "settled s"
proof -
  have clean: "admit (ReqGet b cx cmd) s \<Longrightarrow> clean b" for b cx cmd s using assms(1) [of "ReqGet b cx cmd" s] by simp
  have "cache_inv s \<and> settled s"
  proof (rule cr.invariant [OF _ _ assms(2)])
    show "cache_inv (new_sys client idle t) \<and> settled (new_sys client idle t)"
      using cache_inv_reach [OF clean cache_init]
      by (simp add: settled_def new_sys_def Let_def newCache_def sessionless_def no_flight_def)
    show "cache_inv s' \<and> settled s'" if "cache_inv s \<and> settled s" "cache_step env admit e s = Some s'" for s e s'
      using cache_step_inv [OF clean conjunct1 [OF that(1)] that(2)]
        settled_step [OF assms(1) conjunct1 [OF that(1)] conjunct2 [OF that(1)] that(2)] ..
  qed
  then show ?thesis ..
qed

subsection \<open>The rest of a reaper's pass\<close>

text \<open>A mutex that is taken has a holder, so with no request in flight none is taken.\<close>

definition owned :: "cache_sys \<Rightarrow> bool" where
  "owned s \<longleftrightarrow> (\<forall>a \<in> cs_locked s. \<exists>r < length (cs_reqs s). holds (cs_reqs s ! r) = Some a)"

lemma owned_frame:
  assumes "owned s" "cs_locked s' = cs_locked s" "cs_reqs s' = cs_reqs s @ qs"
  shows "owned s'"
  unfolding owned_def
proof
  fix a
  assume "a \<in> cs_locked s'"
  with assms obtain r where "r < length (cs_reqs s)" "holds (cs_reqs s ! r) = Some a" by (auto simp: owned_def)
  then show "\<exists>r < length (cs_reqs s'). holds (cs_reqs s' ! r) = Some a"
    using assms(3) by (intro exI [of _ r]) (simp add: nth_append)
qed

lemma owned_lock:
  assumes "owned s" "req_lock r s = Some s'"
  shows "owned s'"
  unfolding owned_def
proof
  obtain b cx cmd a g where r: "r < length (cs_reqs s)" "cs_reqs s ! r = RqWait b cx cmd a g"
    and s': "s' = s\<lparr>cs_locked := insert a (cs_locked s), cs_reqs := (cs_reqs s)[r := RqHold b cx cmd a g (cs_now s)]\<rparr>"
    using assms(2) by (auto simp: req_lock_def split: if_splits request_pc.splits)
  fix a'
  assume "a' \<in> cs_locked s'"
  then show "\<exists>i < length (cs_reqs s'). holds (cs_reqs s' ! i) = Some a'"
  proof (cases "a' = a")
    case True
    with r show ?thesis by (intro exI [of _ r]) (simp add: s')
  next
    case False
    with \<open>a' \<in> cs_locked s'\<close> assms(1) obtain i where i: "i < length (cs_reqs s)" "holds (cs_reqs s ! i) = Some a'"
      by (auto simp: s' owned_def)
    with r(2) have "i \<noteq> r" by auto
    with i show ?thesis by (intro exI [of _ i]) (simp add: s')
  qed
qed

lemma owned_finish:
  assumes "owned s" "req_finish env r s = Some s'"
  shows "owned s'"
  unfolding owned_def
proof
  obtain b cx cmd a g t out where r: "r < length (cs_reqs s)" "cs_reqs s ! r = RqHold b cx cmd a g t"
    and s': "cs_locked s' = cs_locked s - {a}" "cs_reqs s' = (cs_reqs s)[r := RqDone out]"
    using assms(2) by (auto simp: req_finish_def split: if_splits request_pc.splits option.splits prod.splits)
  fix a'
  assume "a' \<in> cs_locked s'"
  with assms(1) s' obtain i where i: "i < length (cs_reqs s)" "holds (cs_reqs s ! i) = Some a'" "a' \<noteq> a"
    by (auto simp: owned_def)
  with r(2) have "i \<noteq> r" by auto
  with i s' show "\<exists>i < length (cs_reqs s'). holds (cs_reqs s' ! i) = Some a'"
    by (intro exI [of _ i]) simp
qed

lemma owned_step:
  assumes "owned s" "cache_step env admit e s = Some s'"
  shows "owned s'"
proof -
  have m: "cache_move env e s = Some s'" using assms(2) by (auto simp: cache_step_def split: if_splits)
  have sweep: "owned s'" if "reap_tick s = Some s' \<or> reap_turn s = Some s' \<or> reap_stop s = Some s' \<or> close_turn k s = Some s'" for k
    by (rule owned_frame [OF assms(1) sweep_frame(2) [OF that], of "[]"]) (simp add: sweep_frame(1) [OF that])
  show ?thesis
  proof (cases e)
    case (ReqGet b cx cmd)
    obtain a c where "cache_get b (cs_now s) (cs_cache s) = (a, c)" by fastforce
    with m ReqGet show ?thesis
      by (intro owned_frame [OF assms(1), where qs = "[RqWait b cx cmd a (cs_now s)]"]) (auto simp: req_get_def)
  next
    case (ReqLock r)
    with m show ?thesis by (intro owned_lock [OF assms(1)]) simp
  next
    case (ReqFinish r)
    with m show ?thesis by (intro owned_finish [OF assms(1)]) simp
  next
    case (CloseTurn k)
    with m sweep [of k] show ?thesis by simp
  qed (use m sweep [of 0] assms(1) in \<open>auto simp: owned_def\<close>)
qed

lemma unlocked_reach:
  assumes "cache_reach env admit client idle t s" "no_flight s"
  shows "cs_locked s = {}"
proof -
  have "owned s"
  proof (rule cr.invariant [OF _ _ assms(1)])
    show "owned (new_sys client idle t)" by (simp add: owned_def new_sys_def Let_def)
  qed (rule owned_step)
  moreover have "holds q = None" if "in_flight q = None" for q
    using that by (cases q) auto
  ultimately show ?thesis
    using assms(2) by (fastforce simp: owned_def no_flight_def list_all_length)
qed

text \<open>The entries a pass still has to close, and what its remaining steps do.\<close>

fun reaper_left :: "reaper_pc \<Rightarrow> nat list" where
  "reaper_left (RpPass as) = as"
| "reaper_left _ = []"

lemma reaper_list_left: "reaper_list pc = set (reaper_left pc)"
  by (cases pc) auto

lemma reap_rest:
  assumes "cs_locked s = {}" "reaper_left (cs_reaper s) = as"
    "\<forall>a. a \<in> set as \<or> sessionless (cs_cache s) a" "list_all sclosed (cs_socks s)"
  shows "\<exists>s'. cache_run env polite (replicate (length as) ReapTurn) s = Some s'
    \<and> (\<forall>a. sessionless (cs_cache s') a) \<and> list_all sclosed (cs_socks s')"
  using assms
proof (induction as arbitrary: s)
  case (Cons a as)
  have pc: "cs_reaper s = RpPass (a # as)" using Cons.prems(2) by (cases "cs_reaper s") auto
  have "sys_evict a s \<noteq> None" using Cons.prems(1) by (simp add: sys_evict_def split: prod.split)
  then obtain v where v: "sys_evict a s = Some v" by blast
  note fr = sys_evict_frame [OF v] and eff = sys_evict_effect [OF v]
  let ?s = "v\<lparr>cs_reaper := RpPass as\<rparr>"
  have "cache_step env polite ReapTurn s = Some ?s" using pc v by (simp add: cache_step_def reap_turn_def)
  moreover have "\<forall>b. b \<in> set as \<or> sessionless (cs_cache ?s) b"
    using Cons.prems(3) eff(1) fr(9) by (simp, metis)
  then have "\<exists>s'. cache_run env polite (replicate (length as) ReapTurn) ?s = Some s'
      \<and> (\<forall>a. sessionless (cs_cache s') a) \<and> list_all sclosed (cs_socks s')"
    using Cons.prems(1,4) fr(2) eff(3) by (intro Cons.IH) simp_all
  ultimately show ?case by simp
qed simp

subsection \<open>Properties\<close>

text \<open>Concrete requests to one backend, on a network where every dial succeeds.\<close>

definition game :: Backend where
  "game = \<lparr>be_Addr = ''h:1'', be_Password = ''pw''\<rparr>"

definition up :: "nat \<Rightarrow> nat \<Rightarrow> tcp_dialer" where
  "up r n = flaky 1"

definition ask :: cache_event where
  "ask = ReqGet game context_Background ''ping''"

definition clean_only :: "cache_event \<Rightarrow> cache_sys \<Rightarrow> bool" where
  "clean_only e s = (case e of ReqGet b cx cmd \<Rightarrow> clean b | _ \<Rightarrow> True)"

lemma clean_onlyD: "clean_only (ReqGet b cx cmd) s \<Longrightarrow> clean b"
  by (simp add: clean_only_def)

text \<open>C7: in every interleaving of requests, for backends whose addresses have no NUL byte, with the reaper and \<^verbatim>\<open>close\<close>, the map has one entry per
  backend, under its key, and every request in flight, whether or not its entry is still in the
  map, has an entry of the backend it asked for, whose session, if any, was dialled to that
  backend's address with its password.\<close>

theorem cache_routes:
  assumes "\<And>b cx cmd s. admit (ReqGet b cx cmd) s \<Longrightarrow> clean b" "cache_reach env admit client idle t s"
  shows "cache_wf (cs_cache s) \<and>
    (\<forall>q \<in> set (cs_reqs s). \<forall>b a g. in_flight q = Some (b, a, g) \<longrightarrow>
       (\<exists>e. sc_heap (cs_cache s) a = Some e \<and> ce_backend e = b \<and>
          (\<forall>sess. ce_session e = Some sess \<longrightarrow> ss_address sess = be_Addr b \<and> ss_password sess = be_Password b)))"
proof -
  have i: "cache_inv s" using assms by (rule cache_inv_reach)
  have "\<exists>e. sc_heap (cs_cache s) a = Some e \<and> ce_backend e = b \<and>
      (\<forall>sess. ce_session e = Some sess \<longrightarrow> ss_address sess = be_Addr b \<and> ss_password sess = be_Password b)"
    if "q \<in> set (cs_reqs s)" "in_flight q = Some (b, a, g)" for q b a g
    using in_flight_of [OF that(1) i that(2)] by (auto simp: entry_ok_def)
  with i show ?thesis by (auto simp: cache_inv_def)
qed

theorem cache_routes_witness:
  "cache_wf (cs_cache (the (cache_run up clean_only [ask, ReqLock 0, ask] (new_sys (client_New []) 50 100))))"
proof -
  let ?r = "cache_run up clean_only [ask, ReqLock 0, ask] (new_sys (client_New []) 50 100)"
  have "?r \<noteq> None" by code_simp
  then have "cache_reach up clean_only (client_New []) 50 100 (the ?r)" by (rule cr.run_init_reach)
  from cache_routes [OF _ this] show ?thesis using clean_onlyD by blast
qed

text \<open>C8: while a request holds the mutex of its entry, no step of another goroutine, be it another
  request, the reaper or \<^verbatim>\<open>close\<close>, changes or closes the session it is using, and no other
  request uses that entry.\<close>

theorem cache_exclusive:
  assumes "\<And>b cx cmd s. admit (ReqGet b cx cmd) s \<Longrightarrow> clean b" "cache_reach env admit client idle t s"
    "r < length (cs_reqs s)" "cs_reqs s ! r = RqHold b cx cmd a g u"
    "cache_step env admit e s = Some s'" "e \<noteq> ReqFinish r"
  shows "cs_reqs s' ! r = cs_reqs s ! r \<and> session_at (cs_cache s') a = session_at (cs_cache s) a
    \<and> (\<forall>r' < length (cs_reqs s). holds (cs_reqs s ! r') = Some a \<longrightarrow> r' = r)"
proof -
  have i: "cache_inv s" using assms(1,2) by (rule cache_inv_reach)
  then have m: "mutexes (cs_locked s) (cs_reqs s)" by (simp add: cache_inv_def)
  have "r' = r" if "r' < length (cs_reqs s)" "holds (cs_reqs s ! r') = Some a" for r'
    using mutexesD(2) [OF m assms(3) _ that] assms(4) by simp
  with holder_alone [OF i assms(3-6)] show ?thesis by blast
qed

theorem cache_exclusive_witness:
  "session_at (cs_cache (the (cache_run up clean_only [ask, ReqLock 0, ask, Pass 101, ReapTick] (new_sys (client_New []) 50 100)))) 0
   = session_at (cs_cache (the (cache_run up clean_only [ask, ReqLock 0, ask, Pass 101] (new_sys (client_New []) 50 100)))) 0"
proof -
  let ?r = "cache_run up clean_only [ask, ReqLock 0, ask, Pass 101] (new_sys (client_New []) 50 100)"
  let ?r' = "cache_run up clean_only [ask, ReqLock 0, ask, Pass 101, ReapTick] (new_sys (client_New []) 50 100)"
  have "(case ?r of None \<Rightarrow> False | Some s \<Rightarrow>
      length (cs_reqs s) = 2 \<and> cs_reqs s ! 0 = RqHold game context_Background ''ping'' 0 100 100)" by code_simp
  then obtain s where s: "?r = Some s" "length (cs_reqs s) = 2" "cs_reqs s ! 0 = RqHold game context_Background ''ping'' 0 100 100"
    by (auto simp del: cache_run.simps split: option.splits)
  then have two: "0 < length (cs_reqs s)" by simp
  have "?r' \<noteq> None" by code_simp
  then obtain s' where s': "?r' = Some s'" by blast
  have "?r' = (case ?r of None \<Rightarrow> None | Some s \<Rightarrow> cache_run up clean_only [ReapTick] s)"
    using cr.run_append [of up clean_only "[ask, ReqLock 0, ask, Pass 101]" "[ReapTick]"] by simp
  then have st: "cache_step up clean_only ReapTick s = Some s'"
    unfolding s(1) s' by (simp split: option.splits)
  have "cache_reach up clean_only (client_New []) 50 100 s" using s(1) cr.reach_iff_run by blast
  from cache_exclusive [OF _ this two s(3) st] clean_onlyD show ?thesis unfolding s(1) s' by simp
qed

text \<open>An entry outside the map whose session is open.\<close>

definition orphaned :: "cache_sys \<Rightarrow> nat \<Rightarrow> bool" where
  "orphaned s a \<longleftrightarrow> a \<notin> snd ` set (sc_entries (cs_cache s)) \<and>
     (case session_at (cs_cache s) a of Some (Some sess) \<Rightarrow> \<not> sclosed (c_conn (ss_conn sess)) | _ \<Rightarrow> False)"

text \<open>C9: as long as addresses have no NUL byte, no request is in flight for longer than the idle
  timeout when the reaper begins a pass, and \<^verbatim>\<open>Close\<close> is called as its comment asks: when
  the calls of \<^verbatim>\<open>Close\<close> have returned, the map is empty, every socket that was let go is
  closed, and the only sessions left, if any, are in entries that a pass of the reaper had
  taken out of the map and has not come to yet. Nothing can hold up that pass: its remaining
  steps close those sessions, after which no entry ever made has one.\<close>

theorem cache_close_releases:
  assumes "\<And>e s. admit e s \<Longrightarrow> polite e s" "cache_reach env admit client idle t s"
    "cs_closers s \<noteq> []" "list_all (\<lambda>p. p = ClReturned) (cs_closers s)"
  shows "sc_entries (cs_cache s) = [] \<and> list_all sclosed (cs_socks s)
    \<and> (\<forall>a. a \<in> set (reaper_left (cs_reaper s)) \<or> sessionless (cs_cache s) a)
    \<and> (\<exists>s'. cache_run env polite (replicate (length (reaper_left (cs_reaper s))) ReapTurn) s = Some s'
         \<and> (\<forall>a. sessionless (cs_cache s') a) \<and> list_all sclosed (cs_socks s'))"
proof -
  have s: "settled s" using assms(1,2) by (rule settled_reach)
  obtain p where p: "p \<in> set (cs_closers s)" "p = ClReturned"
    using assms(3,4) by (cases "cs_closers s") auto
  then have e: "sc_entries (cs_cache s) = []" "no_flight s" using s by (auto simp: settled_def)
  have "closer_list p = {}" if "p \<in> set (cs_closers s)" for p using that assms(4) by (auto simp: list_all_iff)
  with e have "pending s = set (reaper_left (cs_reaper s))"
    by (auto simp: pending_def mapped_def reaper_list_left)
  with s have left: "\<forall>a. a \<in> set (reaper_left (cs_reaper s)) \<or> sessionless (cs_cache s) a"
    and socks: "list_all sclosed (cs_socks s)"
    by (auto simp: settled_def)
  have "cs_locked s = {}" using unlocked_reach [OF assms(2) e(2)] .
  from reap_rest [OF this refl left socks, of env] e(1) left socks show ?thesis by blast
qed

theorem cache_close_releases_witness:
  "\<exists>s s'. cache_run up polite [ask, ReqLock 0, Pass 20, ReqFinish 0, Pass 100, ReapTick,
       CallCacheClose, CloseTurn 0, CloseTurn 0] (new_sys (client_New []) 50 100) = Some s
     \<and> cs_closers s = [ClReturned] \<and> orphaned s 0
     \<and> cache_run up polite [ReapTurn] s = Some s' \<and> (\<forall>a. sessionless (cs_cache s') a)"
proof -
  let ?es = "[ask, ReqLock 0, Pass 20, ReqFinish 0, Pass 100, ReapTick, CallCacheClose, CloseTurn 0, CloseTurn 0]"
  let ?r = "cache_run up polite ?es (new_sys (client_New []) 50 100)"
  have "(case ?r of None \<Rightarrow> False | Some s \<Rightarrow> cs_closers s = [ClReturned] \<and> reaper_left (cs_reaper s) = [0] \<and> orphaned s 0)"
    by code_simp
  then obtain s where r: "?r = Some s" "cs_closers s = [ClReturned]" "reaper_left (cs_reaper s) = [0]" "orphaned s 0"
    by (auto simp del: cache_run.simps split: option.splits)
  have reach: "cache_reach up polite (client_New []) 50 100 s" using r(1) cr.reach_iff_run by blast
  have "cs_closers s \<noteq> []" "list_all (\<lambda>p. p = ClReturned) (cs_closers s)" using r(2) by simp_all
  from cache_close_releases [OF _ reach this]
  have "\<exists>s'. cache_run up polite [ReapTurn] s = Some s' \<and> (\<forall>a. sessionless (cs_cache s') a)"
    using r(3) by (auto simp del: cache_run.simps)
  with r show ?thesis by blast
qed

text \<open>The same surroundings, without the condition on the reaper.\<close>

definition impatient :: "cache_event \<Rightarrow> cache_sys \<Rightarrow> bool" where
  "impatient e s = (case e of ReapTick \<Rightarrow> True | _ \<Rightarrow> polite e s)"

text \<open>C26: without the condition on the age of requests the cache loses a session for good. Two requests for a
  backend; the second waits for the first, the reaper takes the entry out of the map and closes
  its session, and then the second request dials one that no map and no sweep knows: after
  \<^verbatim>\<open>Close\<close>, called with no request in flight, has returned and the reaper is gone, that
  session is still open.\<close>

theorem cache_orphan:
  "\<exists>s. cache_reach up impatient (client_New []) 50 100 s \<and> cs_closers s = [ClReturned] \<and> cs_reaper s = RpExit
     \<and> no_flight s \<and> orphaned s 0"
proof -
  let ?es = "[ask, ReqLock 0, ask, Pass 101, ReapTick, ReqFinish 0, ReapTurn, ReapTurn, ReqLock 1, Pass 1, ReqFinish 1,
      CallCacheClose, ReapStop, CloseTurn 0, CloseTurn 0]"
  let ?r = "cache_run up impatient ?es (new_sys (client_New []) 50 100)"
  have "(case ?r of None \<Rightarrow> False | Some s \<Rightarrow>
     cs_closers s = [ClReturned] \<and> cs_reaper s = RpExit \<and> no_flight s \<and> orphaned s 0)" by code_simp
  moreover have "cache_reach up impatient (client_New []) 50 100 s" if "?r = Some s" for s
    using that cr.reach_iff_run by blast
  ultimately show ?thesis by (auto split: option.splits)
qed

end
