(* ===== verification/Go_Strings.thy ===== *)
theory Go_Strings
  imports Rcon_Prelude "HOL-Library.Sublist"
begin

text \<open>
  What the program uses of package \<^verbatim>\<open>strings\<close>, on byte strings.
\<close>

definition HasPrefix :: "bytes \<Rightarrow> bytes \<Rightarrow> bool" where
  "HasPrefix s p \<longleftrightarrow> take (length p) s = p"

definition TrimPrefix :: "bytes \<Rightarrow> bytes \<Rightarrow> bytes" where
  "TrimPrefix s p = (if HasPrefix s p then drop (length p) s else s)"

fun Contains :: "bytes \<Rightarrow> bytes \<Rightarrow> bool" where
  "Contains [] sub \<longleftrightarrow> sub = []"
| "Contains (c # s) sub \<longleftrightarrow> HasPrefix (c # s) sub \<or> Contains s sub"

text \<open>\<^verbatim>\<open>strings.Join\<close>.\<close>

fun Join :: "bytes list \<Rightarrow> bytes \<Rightarrow> bytes" where
  "Join [] sep = []"
| "Join [s] sep = s"
| "Join (s # t # ts) sep = s @ sep @ Join (t # ts) sep"

text \<open>The encodings of the characters with the Unicode property \<^verbatim>\<open>White_Space\<close>.\<close>

definition white_space :: "bytes list" where
  "white_space =
     map (\<lambda>n. [char_of n]) [9, 10, 11, 12, 13, 32 :: nat]
     @ [[CHR 0xC2, CHR 0x85], [CHR 0xC2, CHR 0xA0], [CHR 0xE1, CHR 0x9A, CHR 0x80]]
     @ map (\<lambda>n. [CHR 0xE2, CHR 0x80, char_of n]) [128, 129, 130, 131, 132, 133, 134, 135, 136, 137, 138, 168, 169, 175 :: nat]
     @ [[CHR 0xE2, CHR 0x81, CHR 0x9F], [CHR 0xE3, CHR 0x80, CHR 0x80]]"

text \<open>\<^verbatim>\<open>strings.TrimSpace\<close>: drop white space from the front, and from the back.\<close>

definition space_at :: "bytes list \<Rightarrow> bytes \<Rightarrow> bytes option" where
  "space_at ws s = List.find (\<lambda>w. w \<noteq> [] \<and> HasPrefix s w) ws"

function trim_front :: "bytes list \<Rightarrow> bytes \<Rightarrow> bytes" where
  "trim_front ws s = (case space_at ws s of None \<Rightarrow> s | Some w \<Rightarrow> trim_front ws (drop (length w) s))"
  by pat_completeness auto
termination
proof (relation "measure (\<lambda>(ws, s). length s)")
  fix ws s w
  assume "space_at ws s = Some w"
  then have "w \<noteq> []" "take (length w) s = w"
    by (auto simp: space_at_def HasPrefix_def find_Some_iff)
  then have "0 < length s" "0 < length w" by auto
  then show "((ws, drop (length w) s), ws, s) \<in> measure (\<lambda>(ws, s). length s)" by simp
qed simp

declare trim_front.simps [simp del]

definition TrimSpace :: "bytes \<Rightarrow> bytes" where
  "TrimSpace s = rev (trim_front (map rev white_space) (rev (trim_front white_space s)))"

lemma HasPrefix_iff: "HasPrefix s p \<longleftrightarrow> prefix p s"
  by (metis HasPrefix_def append_eq_conv_conj prefix_def)

lemma Contains_iff: "Contains s sub \<longleftrightarrow> sublist sub s"
  by (induction s sub rule: Contains.induct) (auto simp: HasPrefix_iff sublist_Cons_right)

lemma trim_front_suffix: "suffix (trim_front ws s) s"
proof (induction ws s rule: trim_front.induct)
  case (1 ws s)
  then show ?case
    by (subst trim_front.simps) (auto split: option.splits intro: suffix_order.trans suffix_drop)
qed

lemma trim_front_done: "space_at ws (trim_front ws s) = None"
proof (induction ws s rule: trim_front.induct)
  case (1 ws s)
  then show ?case
    by (subst trim_front.simps) (auto split: option.splits)
qed

text \<open>Trimming takes a middle part.\<close>

lemma TrimSpace_sublist: "sublist (TrimSpace s) s"
proof -
  have "suffix (rev (TrimSpace s)) (rev (trim_front white_space s))"
    by (simp add: TrimSpace_def trim_front_suffix)
  then have "prefix (TrimSpace s) (trim_front white_space s)" by (simp add: suffix_to_prefix)
  with trim_front_suffix [of white_space s] show ?thesis
    using prefix_imp_sublist suffix_imp_sublist sublist_order.order_trans by blast
qed

lemma TrimSpace_Nil [simp]: "TrimSpace [] = []"
  using TrimSpace_sublist [of "[]"] by simp

end
