(* ===== verification/Rcon_Http.thy ===== *)
theory Rcon_Http
  imports Rcon_Cache Go_Strings
begin

text \<open>
  The HTTP handler: \<^verbatim>\<open>src/rconhttp/backend.go\<close>, \<^verbatim>\<open>options.go\<close>, \<^verbatim>\<open>request.go\<close>,
  \<^verbatim>\<open>response.go\<close> and \<^verbatim>\<open>handler.go\<close>. Of a request the code reads the method, headers
  and query parameters by name, the body up to its end or an error, and the context. The JSON decoder is a
  parameter: the command field of the first value in what can be read of the body, or an error.
\<close>

subsection \<open>Requests and responses\<close>

record http_request =
  hq_Method :: bytes
  hq_Header :: "bytes \<Rightarrow> bytes"
  hq_Query :: "bytes \<Rightarrow> bytes"
  hq_Body :: "bytes \<times> goerr option"
  hq_Context :: ctx

type_synonym json_decoder = "bytes \<times> goerr option \<Rightarrow> bytes gores"

text \<open>What is written as a body: a response as it is, or the JSON object of a result or of an
  error; for an error as text, its line.\<close>

datatype http_body = NoBody | TextBody bytes | JsonBody bytes bytes | ErrorText goerr | ErrorJson goerr

record http_response =
  rs_Status :: nat
  rs_Header :: "bytes \<rightharpoonup> bytes"
  rs_Body :: http_body

text \<open>A fresh writer: status 200 unless the handler sets another.\<close>

definition fresh_response :: http_response where
  "fresh_response = \<lparr>rs_Status = 200, rs_Header = Map.empty, rs_Body = NoBody\<rparr>"

definition set_header :: "bytes \<Rightarrow> bytes \<Rightarrow> http_response \<Rightarrow> http_response" where
  "set_header k v w = w\<lparr>rs_Header := (rs_Header w)(k \<mapsto> v)\<rparr>"

subsection \<open>Resolvers\<close>

type_synonym Resolver = "http_request \<Rightarrow> Backend gores"

definition ErrUnauthorized :: goerr where
  "ErrUnauthorized = ErrorString ''rconhttp: unauthorized''"

definition TokenResolver :: "(bytes \<rightharpoonup> Backend) \<Rightarrow> Resolver" where
  "TokenResolver byToken r =
     (let auth = hq_Header r ''Authorization'' in
      if \<not> HasPrefix auth ''Bearer '' then Err ErrUnauthorized
      else (case byToken (TrimPrefix auth ''Bearer '') of
          None \<Rightarrow> Err ErrUnauthorized
        | Some b \<Rightarrow> Ok b))"

definition fixedResolver :: "Backend \<Rightarrow> Resolver" where
  "fixedResolver b r = Ok b"

subsection \<open>Options\<close>

definition DefaultIdleTimeout :: duration where
  "DefaultIdleTimeout = 5 * 60 * Second"

record http_config =
  cf_resolver :: Resolver
  cf_client :: Client
  cf_idle :: duration

type_synonym http_Option = "http_config \<Rightarrow> http_config"

definition WithResolver :: "Resolver \<Rightarrow> http_Option" where
  "WithResolver res c = c\<lparr>cf_resolver := res\<rparr>"

definition http_WithClient :: "Client \<Rightarrow> http_Option" where
  "http_WithClient cl c = c\<lparr>cf_client := cl\<rparr>"

definition WithIdleTimeout :: "duration \<Rightarrow> http_Option" where
  "WithIdleTimeout d c = c\<lparr>cf_idle := d\<rparr>"

subsection \<open>The command of a request\<close>

definition maxBodyBytes :: int where
  "maxBodyBytes = 64 * 1024"

definition errNoCommand :: goerr where
  "errNoCommand = ErrorString ''rconhttp: no command in request''"

definition errBadBody :: goerr where
  "errBadBody = ErrorString ''rconhttp: invalid request body''"

text \<open>\<^verbatim>\<open>http.MaxBytesReader\<close> and \<^verbatim>\<open>io.ReadAll\<close>.\<close>

definition MaxBytesReader :: "int \<Rightarrow> bytes \<times> goerr option \<Rightarrow> bytes \<times> goerr option" where
  "MaxBytesReader n body =
     (if int (length (fst body)) \<le> n then body else (take (nat n) (fst body), Some MaxBytesError))"

definition io_ReadAll :: "bytes \<times> goerr option \<Rightarrow> bytes gores" where
  "io_ReadAll body = (case snd body of None \<Rightarrow> Ok (fst body) | Some e \<Rightarrow> Err e)"

definition parseCommand :: "json_decoder \<Rightarrow> http_request \<Rightarrow> bytes gores" where
  "parseCommand decode r =
     (if HasPrefix (hq_Header r ''Content-Type'') ''application/json'' then
        (case decode (hq_Body r) of
           Err e \<Rightarrow> Err (Wrapf ''%w: %w'' [errBadBody, e])
         | Hang \<Rightarrow> Hang
         | Ok command \<Rightarrow> if command = [] then Err errNoCommand else Ok command)
      else
        (case io_ReadAll (hq_Body r) of
           Err e \<Rightarrow> Err (Wrapf ''%w: %w'' [errBadBody, e])
         | Hang \<Rightarrow> Hang
         | Ok data \<Rightarrow>
             (let cmd = TrimSpace data in
              if cmd \<noteq> [] then Ok cmd
              else (let cmd = TrimSpace (hq_Query r ''cmd'') in
                if cmd \<noteq> [] then Ok cmd else Err errNoCommand))))"

subsection \<open>Responses\<close>

definition errMethodNotAllowed :: goerr where
  "errMethodNotAllowed = ErrorString ''rconhttp: method not allowed''"

definition errNoBackend :: goerr where
  "errNoBackend = ErrorString ''rconhttp: resolved backend has no address''"

definition wantsText :: "http_request \<Rightarrow> bool" where
  "wantsText r = Contains (hq_Header r ''Accept'') ''text/plain''"

definition writeResult :: "http_response \<Rightarrow> http_request \<Rightarrow> bytes \<Rightarrow> bytes \<Rightarrow> http_response" where
  "writeResult w r command response =
     (if wantsText r then
        (set_header ''Content-Type'' ''text/plain; charset=utf-8'' w)\<lparr>rs_Body := TextBody response\<rparr>
      else (set_header ''Content-Type'' ''application/json'' w)\<lparr>rs_Body := JsonBody command response\<rparr>)"

definition writeError :: "http_response \<Rightarrow> http_request \<Rightarrow> nat \<Rightarrow> goerr \<Rightarrow> http_response" where
  "writeError w r status err =
     (if wantsText r then
        (set_header ''Content-Type'' ''text/plain; charset=utf-8'' w)\<lparr>rs_Status := status, rs_Body := ErrorText err\<rparr>
      else (set_header ''Content-Type'' ''application/json'' w)\<lparr>rs_Status := status, rs_Body := ErrorJson err\<rparr>)"

definition executeStatus :: "goerr \<Rightarrow> nat" where
  "executeStatus err =
     (if errors_Is err ErrCommandEmpty \<or> errors_Is err ErrCommandTooLong then 400
      else if errors_Is err CtxDeadlineExceeded then 504
      else if errors_Is err ErrAuthFailed then 502
      else (case errors_AsNetError err of
          Some netErr \<Rightarrow> if net_Timeout netErr then 504 else 503
        | None \<Rightarrow> 502))"

subsection \<open>The handler\<close>

record http_handler =
  hd_resolver :: Resolver
  hd_cache :: sessionCache

definition http_New :: "Backend \<Rightarrow> http_Option list \<Rightarrow> http_handler" where
  "http_New backend opts =
     (let cfg = fold (\<lambda>opt c. opt c) opts
            \<lparr>cf_resolver = fixedResolver backend, cf_client = client_New [], cf_idle = DefaultIdleTimeout\<rparr> in
      \<lparr>hd_resolver = cf_resolver cfg, hd_cache = newCache (cf_client cfg) (cf_idle cfg)\<rparr>)"

definition ServeHTTP ::
  "(nat \<Rightarrow> tcp_dialer) \<Rightarrow> json_decoder \<Rightarrow> http_request \<Rightarrow> http_handler \<Rightarrow> world
     \<Rightarrow> http_response gores \<times> http_handler \<times> world" where
  "ServeHTTP env decode r h w =
     (let rw = fresh_response in
      if hq_Method r \<noteq> ''POST'' then
        (Ok (writeError (set_header ''Allow'' ''POST'' rw) r 405 errMethodNotAllowed), h, w)
      else case hd_resolver h r of
        Hang \<Rightarrow> (Hang, h, w)
      | Err err \<Rightarrow>
          (Ok (writeError rw r (if errors_Is err ErrUnauthorized then 401 else 400) err), h, w)
      | Ok backend \<Rightarrow>
          if be_Addr backend = [] then (Ok (writeError rw r 500 errNoBackend), h, w)
          else (let r = r\<lparr>hq_Body := MaxBytesReader maxBodyBytes (hq_Body r)\<rparr> in
            case parseCommand decode r of
              Hang \<Rightarrow> (Hang, h, w)
            | Err err \<Rightarrow> (Ok (writeError rw r (if errors_AsMaxBytes err then 413 else 400) err), h, w)
            | Ok cmd \<Rightarrow>
                (case cache_execute env (hq_Context r) backend cmd (hd_cache h) w of (x, c, w') \<Rightarrow>
                  (case x of
                     Hang \<Rightarrow> Hang
                   | Err err \<Rightarrow> Ok (writeError rw r (executeStatus err) err)
                   | Ok out \<Rightarrow> Ok (writeResult rw r cmd out),
                   h\<lparr>hd_cache := c\<rparr>, w'))))"

definition http_Close :: "http_handler \<times> world \<Rightarrow> unit gores \<times> http_handler \<times> world" where
  "http_Close st =
     (case st of (h, w) \<Rightarrow> (case cache_close (hd_cache h, w) of (x, c, w') \<Rightarrow> (x, h\<lparr>hd_cache := c\<rparr>, w')))"

lemmas http_option_defs = WithResolver_def http_WithClient_def WithIdleTimeout_def http_New_def

subsection \<open>Accepted requests\<close>

definition accepted :: "json_decoder \<Rightarrow> http_handler \<Rightarrow> http_request \<Rightarrow> Backend \<Rightarrow> bytes \<Rightarrow> bool" where
  "accepted decode h r b cmd \<longleftrightarrow> hq_Method r = ''POST'' \<and> hd_resolver h r = Ok b \<and> be_Addr b \<noteq> []
     \<and> parseCommand decode (r\<lparr>hq_Body := MaxBytesReader maxBodyBytes (hq_Body r)\<rparr>) = Ok cmd"

definition result_body :: "http_request \<Rightarrow> bytes \<Rightarrow> bytes \<Rightarrow> http_body" where
  "result_body r cmd out = (if wantsText r then TextBody out else JsonBody cmd out)"

lemma parseCommand_nonempty: "parseCommand decode r = Ok cmd \<Longrightarrow> cmd \<noteq> []"
  by (auto simp: parseCommand_def Let_def split: if_splits res.splits)

text \<open>A body over the limit that is not JSON is refused.\<close>

lemma parseCommand_too_large:
  assumes "\<not> HasPrefix (hq_Header r ''Content-Type'') ''application/json''" "maxBodyBytes < int (length (fst (hq_Body r)))"
    "parseCommand decode (r\<lparr>hq_Body := MaxBytesReader maxBodyBytes (hq_Body r)\<rparr>) = x"
  shows "x = Err (Wrapf ''%w: %w'' [errBadBody, MaxBytesError])"
  using assms by (auto simp: parseCommand_def MaxBytesReader_def io_ReadAll_def)

lemma status_simps [simp]:
  "rs_Status fresh_response = 200" "rs_Status (set_header k v w) = rs_Status w"
  "rs_Status (writeError w r n e) = n" "rs_Status (writeResult w r cmd out) = rs_Status w"
  "rs_Body (writeResult w r cmd out) = result_body r cmd out"
  by (simp_all add: fresh_response_def set_header_def writeError_def writeResult_def result_body_def)

lemma result_body_limit [simp]: "result_body (r\<lparr>hq_Body := x\<rparr>) cmd out = result_body r cmd out"
  by (simp add: result_body_def wantsText_def)

lemma executeStatus_range: "executeStatus err \<in> {400, 502, 503, 504}"
  by (auto simp: executeStatus_def split: option.splits)

lemma ServeHTTP_accepted:
  assumes "accepted decode h r b cmd" "cache_execute env (hq_Context r) b cmd (hd_cache h) w = (x, c, w')"
  obtains "x = Hang" "ServeHTTP env decode r h w = (Hang, h\<lparr>hd_cache := c\<rparr>, w')"
  | err resp where "x = Err err" "ServeHTTP env decode r h w = (Ok resp, h\<lparr>hd_cache := c\<rparr>, w')" "rs_Status resp = executeStatus err"
  | out resp where "x = Ok out" "ServeHTTP env decode r h w = (Ok resp, h\<lparr>hd_cache := c\<rparr>, w')" "rs_Status resp = 200"
      "rs_Body resp = result_body r cmd out"
proof (cases x)
  case (Ok out)
  then show thesis using assms by (intro that(3)) (auto simp: ServeHTTP_def accepted_def Let_def)
next
  case (Err err)
  then show thesis using assms by (intro that(2)) (auto simp: ServeHTTP_def accepted_def Let_def)
next
  case Hang
  then show thesis using assms by (intro that(1)) (auto simp: ServeHTTP_def accepted_def Let_def)
qed

text \<open>A request that is not accepted touches nothing.\<close>

lemma ServeHTTP_refused:
  assumes "\<And>b cmd. \<not> accepted decode h r b cmd" "ServeHTTP env decode r h w = (x, h', w')"
  shows "h' = h" "w' = w" "x = Ok resp \<Longrightarrow> rs_Status resp \<in> {400, 401, 405, 413, 500}"
  using assms by (auto simp: ServeHTTP_def accepted_def Let_def split: if_splits res.splits)

lemma accepted_unique: "accepted decode h r b cmd \<Longrightarrow> accepted decode h r b' cmd' \<Longrightarrow> b' = b \<and> cmd' = cmd"
  by (simp add: accepted_def)

subsection \<open>Tokens\<close>

lemma prefix_bearer: "HasPrefix s p \<longleftrightarrow> (\<exists>t. s = p @ t)"
  by (auto simp: HasPrefix_iff prefix_def)

lemma TokenResolver_Ok: "TokenResolver m r = Ok b \<longleftrightarrow> (\<exists>tok. hq_Header r ''Authorization'' = ''Bearer '' @ tok \<and> m tok = Some b)"
  by (auto simp: TokenResolver_def Let_def prefix_bearer TrimPrefix_def split: option.splits)

lemma TokenResolver_cases: "(\<exists>b. TokenResolver m r = Ok b) \<or> TokenResolver m r = Err ErrUnauthorized"
  by (auto simp: TokenResolver_def Let_def split: option.splits)

subsection \<open>Properties\<close>

text \<open>A request with a token, a table with one, and a handler for it.\<close>

definition token_request :: "bytes \<Rightarrow> http_request" where
  "token_request auth =
     \<lparr>hq_Method = ''POST'', hq_Header = (\<lambda>k. if k = ''Authorization'' then auth else []), hq_Query = (\<lambda>_. []),
      hq_Body = ('' ping '', None), hq_Context = context_Background\<rparr>"

definition token_handler :: http_handler where
  "token_handler = http_New \<lparr>be_Addr = [], be_Password = []\<rparr>
     [WithResolver (TokenResolver [''t'' \<mapsto> \<lparr>be_Addr = ''h:1'', be_Password = ''pw''\<rparr>])]"

definition no_json :: json_decoder where
  "no_json body = Err (ErrorString ''EOF'')"

text \<open>C10: behind a \<^verbatim>\<open>TokenResolver\<close> a request has an effect, on the cache or the network,
  only if it is a \<^verbatim>\<open>POST\<close> with a bearer token of the table, and then it is one command,
  not empty, run on that token's backend and on no other; a \<^verbatim>\<open>POST\<close> without such a token is
  answered with 401.\<close>

theorem ServeHTTP_token:
  assumes "hd_resolver h = TokenResolver m" "ServeHTTP env decode r h w = (x, h', w')"
  shows "((h', w') \<noteq> (h, w) \<longrightarrow> (\<exists>tok b cmd. hq_Method r = ''POST'' \<and> hq_Header r ''Authorization'' = ''Bearer '' @ tok \<and> m tok = Some b
       \<and> cmd \<noteq> [] \<and> (hd_cache h', w') = snd (cache_execute env (hq_Context r) b cmd (hd_cache h) w)))
     \<and> (hq_Method r = ''POST'' \<and> (\<nexists>tok b. hq_Header r ''Authorization'' = ''Bearer '' @ tok \<and> m tok = Some b) \<longrightarrow>
       (\<exists>resp. x = Ok resp \<and> rs_Status resp = 401))"
proof
  show "(h', w') \<noteq> (h, w) \<longrightarrow> (\<exists>tok b cmd. hq_Method r = ''POST'' \<and> hq_Header r ''Authorization'' = ''Bearer '' @ tok \<and> m tok = Some b
       \<and> cmd \<noteq> [] \<and> (hd_cache h', w') = snd (cache_execute env (hq_Context r) b cmd (hd_cache h) w))"
  proof
    assume "(h', w') \<noteq> (h, w)"
    then obtain b cmd where a: "accepted decode h r b cmd" using ServeHTTP_refused(1,2) [OF _ assms(2)] by blast
    obtain y c v where c: "cache_execute env (hq_Context r) b cmd (hd_cache h) w = (y, c, v)" by (rule prod_cases3)
    have "(hd_cache h', w') = (c, v)"
      by (rule ServeHTTP_accepted [OF a c]) (use assms(2) in auto)
    moreover obtain tok where "hq_Header r ''Authorization'' = ''Bearer '' @ tok" "m tok = Some b"
      using a assms(1) TokenResolver_Ok [of m r b] by (auto simp: accepted_def)
    ultimately show "\<exists>tok b cmd. hq_Method r = ''POST'' \<and> hq_Header r ''Authorization'' = ''Bearer '' @ tok \<and> m tok = Some b
       \<and> cmd \<noteq> [] \<and> (hd_cache h', w') = snd (cache_execute env (hq_Context r) b cmd (hd_cache h) w)"
      using a c parseCommand_nonempty by (intro exI [of _ tok] exI [of _ b] exI [of _ cmd]) (auto simp: accepted_def)
  qed
  show "hq_Method r = ''POST'' \<and> (\<nexists>tok b. hq_Header r ''Authorization'' = ''Bearer '' @ tok \<and> m tok = Some b) \<longrightarrow>
       (\<exists>resp. x = Ok resp \<and> rs_Status resp = 401)"
    using assms TokenResolver_cases [of m r] TokenResolver_Ok [of m r] by (auto simp: ServeHTTP_def Let_def)
qed

theorem ServeHTTP_token_witness:
  "\<exists>resp. fst (ServeHTTP (\<lambda>n. flaky 1) no_json (token_request ''Bearer u'') token_handler start) = Ok resp \<and> rs_Status resp = 401"
proof -
  let ?m = "[''t'' \<mapsto> \<lparr>be_Addr = ''h:1'', be_Password = ''pw''\<rparr>]"
  obtain x h' w' where r: "ServeHTTP (\<lambda>n. flaky 1) no_json (token_request ''Bearer u'') token_handler start = (x, h', w')"
    by (rule prod_cases3)
  have "hd_resolver token_handler = TokenResolver ?m" by (simp add: token_handler_def http_option_defs)
  from ServeHTTP_token [OF this r] have "\<exists>resp. x = Ok resp \<and> rs_Status resp = 401" by (simp add: token_request_def)
  then show ?thesis unfolding r by simp
qed

text \<open>C25: a response has one of nine statuses, and it is 200 exactly if the request was accepted and
  its command ran without error; its body is then the command's output, as text or, with the
  command, as JSON, whichever was asked for.\<close>

theorem ServeHTTP_status:
  assumes "ServeHTTP env decode r h w = (Ok resp, h', w')"
  shows "rs_Status resp \<in> {200, 400, 401, 405, 413, 500, 502, 503, 504}
    \<and> (rs_Status resp = 200 \<longleftrightarrow> (\<exists>b cmd out. accepted decode h r b cmd
        \<and> fst (cache_execute env (hq_Context r) b cmd (hd_cache h) w) = Ok out \<and> rs_Body resp = result_body r cmd out))"
proof (cases "\<exists>b cmd. accepted decode h r b cmd")
  case False
  with ServeHTTP_refused(3) [OF _ assms] show ?thesis by auto
next
  case True
  then obtain b cmd where a: "accepted decode h r b cmd" by blast
  obtain y c v where c: "cache_execute env (hq_Context r) b cmd (hd_cache h) w = (y, c, v)" by (rule prod_cases3)
  have only: "fst (cache_execute env (hq_Context r) b' cmd' (hd_cache h) w) = y \<and> result_body r cmd' out = result_body r cmd out"
    if "accepted decode h r b' cmd'" for b' cmd' out using accepted_unique [OF a that] c by simp
  from ServeHTTP_accepted [OF a c] show ?thesis
  proof cases
    case 1
    with assms show ?thesis by simp
  next
    case (2 err resp')
    then have "rs_Status resp = executeStatus err" using assms by simp
    moreover have "\<not> (\<exists>b cmd out. accepted decode h r b cmd \<and> fst (cache_execute env (hq_Context r) b cmd (hd_cache h) w) = Ok out)"
      using only 2(1) by fastforce
    ultimately show ?thesis using executeStatus_range [of err] by auto
  next
    case (3 out resp')
    then have resp: "rs_Status resp = 200" "rs_Body resp = result_body r cmd out" using assms by simp_all
    have "\<exists>b cmd out. accepted decode h r b cmd \<and> fst (cache_execute env (hq_Context r) b cmd (hd_cache h) w) = Ok out
        \<and> rs_Body resp = result_body r cmd out"
      by (intro exI [of _ b] exI [of _ cmd] exI [of _ out]) (simp add: a c 3(1) resp(2))
    with resp(1) show ?thesis by simp
  qed
qed

theorem ServeHTTP_status_witness:
  "\<exists>b cmd out. accepted no_json token_handler (token_request ''Bearer t'') b cmd
     \<and> fst (cache_execute (\<lambda>n. flaky 1) context_Background b cmd (hd_cache token_handler) start) = Ok out"
proof -
  let ?r = "ServeHTTP (\<lambda>n. flaky 1) no_json (token_request ''Bearer t'') token_handler start"
  have "map_res rs_Status (fst ?r) = Ok 200" by code_simp
  then obtain resp where resp: "fst ?r = Ok resp" "rs_Status resp = 200" by auto
  then have r: "?r = (Ok resp, fst (snd ?r), snd (snd ?r))" by (metis prod.collapse)
  from ServeHTTP_status [OF r] resp(2) show ?thesis by (auto simp: token_request_def)
qed

end
