(* ===== verification/Rcon_Cli.thy ===== *)
theory Rcon_Cli
  imports Rcon_Call Go_Strings
begin

text \<open>
  The command line tool: \<^verbatim>\<open>src/cmd/rcon/config.go\<close>, \<^verbatim>\<open>run.go\<close>, \<^verbatim>\<open>repl.go\<close>
  and \<^verbatim>\<open>main.go\<close>. Parameters are what the process gets from outside: the result of flag
  parsing, the environment, the home directory, the files, the JSON decoder, and all the bytes of
  standard input with the error that ends them, if it is not the end of file.
\<close>

subsection \<open>Numbers as text\<close>

text \<open>\<^verbatim>\<open>strconv.Itoa\<close> and, without its error, \<^verbatim>\<open>strconv.Atoi\<close>, which clamps a number that
  is out of range; \<^verbatim>\<open>strconv.ParseBool\<close> without its error.\<close>

definition digit :: "nat \<Rightarrow> char" where
  "digit n = char_of (48 + n)"

fun digits :: "nat \<Rightarrow> bytes" where
  "digits n = (if n < 10 then [digit n] else digits (n div 10) @ [digit (n mod 10)])"

declare digits.simps [simp del]

definition Itoa :: "int \<Rightarrow> bytes" where
  "Itoa i = (if i < 0 then ''-'' @ digits (nat (- i)) else digits (nat i))"

definition digit_val :: "char \<Rightarrow> nat option" where
  "digit_val c = (let n = (of_char c :: nat) in if 48 \<le> n \<and> n \<le> 57 then Some (n - 48) else None)"

fun read_digits :: "int \<Rightarrow> bytes \<Rightarrow> int option" where
  "read_digits acc [] = Some acc"
| "read_digits acc (c # s) =
     (case digit_val c of None \<Rightarrow> None | Some d \<Rightarrow> read_digits (10 * acc + int d) s)"

definition clamp64 :: "int \<Rightarrow> int" where
  "clamp64 i = max (- (2 ^ 63)) (min (2 ^ 63 - 1) i)"

definition Atoi :: "bytes \<Rightarrow> int" where
  "Atoi s =
     (let neg = (s \<noteq> [] \<and> hd s = CHR ''-'');
          ds = (if s \<noteq> [] \<and> (hd s = CHR ''-'' \<or> hd s = CHR ''+'') then tl s else s) in
      if ds = [] then 0
      else (case read_digits 0 ds of None \<Rightarrow> 0 | Some i \<Rightarrow> clamp64 (if neg then - i else i)))"

definition ParseBool :: "bytes \<Rightarrow> bool" where
  "ParseBool s \<longleftrightarrow> s \<in> {''1'', ''t'', ''T'', ''true'', ''TRUE'', ''True''}"

subsection \<open>Configuration\<close>

definition DefaultPort :: int where
  "DefaultPort = 25575"

record ServerConfig =
  sv_Host :: bytes
  sv_Port :: int
  sv_Password :: bytes
  sv_SinglePacket :: bool
  sv_Drain :: bool

record Config =
  cg_Default :: bytes
  cg_Servers :: "bytes \<rightharpoonup> ServerConfig"

record Flags =
  fl_Host :: bytes
  fl_Port :: int
  fl_Password :: bytes
  fl_Server :: bytes
  fl_SinglePacket :: bool
  fl_Drain :: bool

record Env =
  en_Host :: bytes
  en_Port :: int
  en_Password :: bytes
  en_SinglePacket :: bool
  en_Drain :: bool

record Resolved =
  rv_Address :: bytes
  rv_Password :: bytes
  rv_SinglePacket :: bool
  rv_Drain :: bool

text \<open>The zero values a missing map key and an absent file give.\<close>

definition no_server :: ServerConfig where
  "no_server = \<lparr>sv_Host = [], sv_Port = 0, sv_Password = [], sv_SinglePacket = False, sv_Drain = False\<rparr>"

definition no_config :: Config where
  "no_config = \<lparr>cg_Default = [], cg_Servers = Map.empty\<rparr>"

definition os_ErrNotExist :: goerr where
  "os_ErrNotExist = ErrorString ''file does not exist''"

definition LoadConfig :: "(bytes \<Rightarrow> bytes gores) \<Rightarrow> (bytes \<Rightarrow> Config gores) \<Rightarrow> bytes \<Rightarrow> bool \<Rightarrow> Config gores" where
  "LoadConfig readFile unmarshal path mustExist =
     (case readFile path of
        Err err \<Rightarrow> if errors_Is err os_ErrNotExist \<and> \<not> mustExist then Ok no_config else Err err
      | Hang \<Rightarrow> Hang
      | Ok data \<Rightarrow>
          (case unmarshal data of
             Err err \<Rightarrow> Err (Wrapf (''parse config '' @ path @ '': %w'') [err])
           | Hang \<Rightarrow> Hang
           | Ok cfg \<Rightarrow> Ok cfg))"

text \<open>\<^verbatim>\<open>cmp.Or\<close>: the first that is not the zero value, given that, or it.\<close>

fun cmp_Or :: "'a \<Rightarrow> 'a list \<Rightarrow> 'a" where
  "cmp_Or z [] = z"
| "cmp_Or z (x # xs) = (if x \<noteq> z then x else cmp_Or z xs)"

definition JoinHostPort :: "bytes \<Rightarrow> bytes \<Rightarrow> bytes" where
  "JoinHostPort host port =
     (if CHR '':'' \<in> set host then ''['' @ host @ '']:'' @ port else host @ '':'' @ port)"

definition errNoHost :: goerr where
  "errNoHost = ErrorString ''no host specified (use --host, RCON_HOST, or a config server)''"

definition Resolve :: "Config \<Rightarrow> Flags \<Rightarrow> Env \<Rightarrow> Resolved gores" where
  "Resolve cfg flags env =
     (let base = (case cg_Servers cfg (cmp_Or [] [fl_Server flags, cg_Default cfg]) of
                    None \<Rightarrow> no_server | Some sc \<Rightarrow> sc);
          host = cmp_Or [] [fl_Host flags, en_Host env, sv_Host base];
          password = cmp_Or [] [fl_Password flags, en_Password env, sv_Password base];
          port = cmp_Or 0 [fl_Port flags, en_Port env, sv_Port base, DefaultPort] in
      if host = [] then Err errNoHost
      else Ok \<lparr>rv_Address = JoinHostPort host (Itoa port), rv_Password = password,
               rv_SinglePacket = (fl_SinglePacket flags \<or> en_SinglePacket env \<or> sv_SinglePacket base),
               rv_Drain = (fl_Drain flags \<or> en_Drain env \<or> sv_Drain base)\<rparr>)"

definition envFromOS :: "(bytes \<Rightarrow> bytes) \<Rightarrow> Env" where
  "envFromOS getenv =
     \<lparr>en_Host = getenv ''RCON_HOST'', en_Port = Atoi (getenv ''RCON_PORT''),
      en_Password = getenv ''RCON_PASSWORD'', en_SinglePacket = ParseBool (getenv ''RCON_SINGLE_PACKET''),
      en_Drain = ParseBool (getenv ''RCON_DRAIN'')\<rparr>"

definition defaultConfigPath :: "bytes gores \<Rightarrow> bytes" where
  "defaultConfigPath homeDir = (case homeDir of Ok home \<Rightarrow> home @ ''/.rcon.json'' | _ \<Rightarrow> ''.rcon.json'')"

definition promptFor :: "bytes \<Rightarrow> Config \<Rightarrow> bytes" where
  "promptFor server cfg =
     (if server \<noteq> [] then server @ ''> ''
      else if cg_Default cfg \<noteq> [] then cg_Default cfg @ ''> ''
      else ''rcon> '')"

subsection \<open>Running commands\<close>

text \<open>What is written to the terminal, in order: the prompt, a line of output, or the line of an error on standard error.\<close>

datatype console_item = Prompt bytes | OutLine bytes | ErrorLine goerr | VersionLine

definition exitCode :: "goerr option \<Rightarrow> int" where
  "exitCode err = (case err of None \<Rightarrow> 0 | Some e \<Rightarrow> if errors_Is e ErrAuthFailed then 3 else 2)"

definition RunSingle ::
  "(nat \<Rightarrow> tcp_dialer) \<Rightarrow> (int \<Rightarrow> bool) \<Rightarrow> Client \<Rightarrow> ctx \<Rightarrow> Resolved \<Rightarrow> bytes \<Rightarrow> world
     \<Rightarrow> int run \<times> console_item list \<times> world" where
  "RunSingle env tie client cx target command w =
     (case client_Execute env tie client cx (rv_Address target) (rv_Password target) command w of
        (Panicked, w) \<Rightarrow> (Panicked, [], w)
      | (Ran Hang, w) \<Rightarrow> (Ran Hang, [], w)
      | (Ran (Err err), w) \<Rightarrow> (Ran (Ok (exitCode (Some err))), [ErrorLine err], w)
      | (Ran (Ok out), w) \<Rightarrow> (Ran (Ok 0), [OutLine out], w))"

text \<open>\<^verbatim>\<open>bufio.Scanner\<close> with its default buffer: a line without its end, the end of the
  input (or its error), or a line that does not fit.\<close>

definition MaxScanTokenSize :: int where
  "MaxScanTokenSize = 64 * 1024"

definition errTooLong :: goerr where
  "errTooLong = ErrorString ''bufio.Scanner: token too long''"

datatype scan = ScanLine bytes bytes | ScanEnd | ScanTooLong

definition dropCR :: "bytes \<Rightarrow> bytes" where
  "dropCR s = (if s \<noteq> [] \<and> last s = CHR 0x0D then butlast s else s)"

definition Scan :: "bytes \<Rightarrow> scan" where
  "Scan inp =
     (let line = takeWhile (\<lambda>c. c \<noteq> CHR 0x0A) inp; rest = dropWhile (\<lambda>c. c \<noteq> CHR 0x0A) inp in
      if inp = [] then ScanEnd
      else if int (length line) \<ge> MaxScanTokenSize then ScanTooLong
      else ScanLine (dropCR line) (tl rest))"

lemma Scan_shorter: "Scan inp = ScanLine line rest \<Longrightarrow> length rest < length inp"
proof -
  assume "Scan inp = ScanLine line rest"
  then have "inp \<noteq> []" "rest = tl (dropWhile (\<lambda>c. c \<noteq> CHR 0x0A) inp)"
    by (auto simp: Scan_def Let_def split: if_splits)
  then show ?thesis
    using length_dropWhile_le [of "\<lambda>c. c \<noteq> CHR 0x0A" inp] by (cases "dropWhile (\<lambda>c. c \<noteq> CHR 0x0A) inp") auto
qed

definition prompt_item :: "bytes \<Rightarrow> console_item list" where
  "prompt_item ps1 = (if ps1 \<noteq> [] then [Prompt ps1] else [])"

text \<open>The loop of \<^verbatim>\<open>RunInteractive\<close>, and the function: the session is closed when it
  returns.\<close>

function repl ::
  "(nat \<Rightarrow> tcp_dialer) \<Rightarrow> ctx \<Rightarrow> bytes \<Rightarrow> goerr option \<Rightarrow> bytes \<Rightarrow> Session \<Rightarrow> world
     \<Rightarrow> int gores \<times> console_item list \<times> Session \<times> world" where
  "repl env cx ps1 inErr inp session w =
     (case Scan inp of
        ScanEnd \<Rightarrow>
          (case inErr of
             None \<Rightarrow> (Ok 0, prompt_item ps1, session, w)
           | Some err \<Rightarrow> (Ok 2, prompt_item ps1 @ [ErrorLine err], session, w))
      | ScanTooLong \<Rightarrow> (Ok 2, prompt_item ps1 @ [ErrorLine errTooLong], session, w)
      | ScanLine text rest \<Rightarrow>
          (let line = TrimSpace text in
           if line = [] then
             (case repl env cx ps1 inErr rest session w of
                (x, con, st) \<Rightarrow> (x, prompt_item ps1 @ con, st))
           else if line = '':exit'' \<or> line = '':quit'' then (Ok 0, prompt_item ps1, session, w)
           else
             (case Session_Execute env cx line session w of
                (Hang, session, w) \<Rightarrow> (Hang, prompt_item ps1, session, w)
              | (Err err, session, w) \<Rightarrow>
                  (case repl env cx ps1 inErr rest session w of
                     (x, con, st) \<Rightarrow> (x, prompt_item ps1 @ ErrorLine err # con, st))
              | (Ok out, session, w) \<Rightarrow>
                  (case repl env cx ps1 inErr rest session w of
                     (x, con, st) \<Rightarrow> (x, prompt_item ps1 @ OutLine out # con, st)))))"
  by pat_completeness auto
termination
  by (relation "measure (\<lambda>(env, cx, p, e, inp, s, w). length inp)") (auto dest: Scan_shorter)

declare repl.simps [simp del]

definition RunInteractive ::
  "(nat \<Rightarrow> tcp_dialer) \<Rightarrow> Client \<Rightarrow> ctx \<Rightarrow> Resolved \<Rightarrow> bytes \<Rightarrow> bytes \<times> goerr option \<Rightarrow> world
     \<Rightarrow> int gores \<times> console_item list \<times> world" where
  "RunInteractive env client cx target ps1 stdin w =
     (case client_Dial env client cx (rv_Address target) (rv_Password target) w of
        (Err err, w) \<Rightarrow> (Ok (exitCode (Some err)), [ErrorLine err], w)
      | (Hang, w) \<Rightarrow> (Hang, [], w)
      | (Ok session, w) \<Rightarrow>
          (case repl env cx ps1 (snd stdin) (fst stdin) session w of
             (Hang, con, session, w) \<Rightarrow> (Hang, con, w)
           | (x, con, session, w) \<Rightarrow>
               (x, con, w\<lparr>w_socks := w_socks w @ [c_conn (ss_conn (snd (Session_Close session)))]\<rparr>)))"

subsection \<open>The program\<close>

text \<open>What \<^verbatim>\<open>fs.Parse\<close> leaves: a request for help, an error, or the flags, with the
  remaining arguments and whether \<^verbatim>\<open>-config\<close> was given.\<close>

record parsed =
  pa_flags :: Flags
  pa_configPath :: "bytes option"
  pa_showVer :: bool
  pa_args :: "bytes list"

datatype parse_result = ParseHelp | ParseError | Parsed parsed

definition cli_options :: "Resolved \<Rightarrow> client_Option list" where
  "cli_options target =
     (if rv_Drain target then [client_WithReadUntilIdle 0]
      else if rv_SinglePacket target then [client_WithSinglePacket]
      else [])"

definition cli_run ::
  "(nat \<Rightarrow> tcp_dialer) \<Rightarrow> (int \<Rightarrow> bool) \<Rightarrow> (bytes \<Rightarrow> bytes gores) \<Rightarrow> (bytes \<Rightarrow> Config gores) \<Rightarrow> (bytes \<Rightarrow> bytes)
     \<Rightarrow> bytes gores \<Rightarrow> parse_result \<Rightarrow> bytes \<times> goerr option \<Rightarrow> world \<Rightarrow> int run \<times> console_item list \<times> world" where
  "cli_run env tie readFile unmarshal getenv homeDir parse stdin w =
     (case parse of
        ParseHelp \<Rightarrow> (Ran (Ok 0), [], w)
      | ParseError \<Rightarrow> (Ran (Ok 2), [], w)
      | Parsed p \<Rightarrow>
          if pa_showVer p then (Ran (Ok 0), [VersionLine], w)
          else (let path = (case pa_configPath p of None \<Rightarrow> defaultConfigPath homeDir | Some path \<Rightarrow> path) in
            case LoadConfig readFile unmarshal path (pa_configPath p \<noteq> None) of
              Hang \<Rightarrow> (Ran Hang, [], w)
            | Err err \<Rightarrow> (Ran (Ok 2), [ErrorLine err], w)
            | Ok cfg \<Rightarrow>
                (case Resolve cfg (pa_flags p) (envFromOS getenv) of
                   Hang \<Rightarrow> (Ran Hang, [], w)
                 | Err err \<Rightarrow> (Ran (Ok 2), [ErrorLine err], w)
                 | Ok target \<Rightarrow>
                     (let client = client_New (cli_options target) in
                      if pa_args p \<noteq> [] then
                        RunSingle env tie client context_Background target (Join (pa_args p) '' '') w
                      else (case RunInteractive env client context_Background target
                                   (promptFor (fl_Server (pa_flags p)) cfg) stdin w of
                          (x, con, w) \<Rightarrow> (Ran x, con, w))))))"

subsection \<open>Numbers\<close>

lemma digit_val_digit [simp]: "n < 10 \<Longrightarrow> digit_val (digit n) = Some n"
  by (simp add: digit_val_def digit_def Let_def)

lemma digits_nonempty [simp]: "digits n \<noteq> []"
  by (subst digits.simps) simp

lemma digits_digit: "c \<in> set (digits n) \<Longrightarrow> digit_val c \<noteq> None"
proof (induction n rule: digits.induct)
  case (1 n)
  then show ?case by (subst (asm) (2) digits.simps) (auto split: if_splits)
qed

lemma read_digits_append:
  "read_digits acc (xs @ ys) = (case read_digits acc xs of None \<Rightarrow> None | Some v \<Rightarrow> read_digits v ys)"
  by (induction xs arbitrary: acc) (auto split: option.splits)

lemma read_digits_digits: "read_digits 0 (digits n) = Some (int n)"
proof (induction n rule: digits.induct)
  case (1 n)
  show ?case
  proof (cases "n < 10")
    case False
    have "10 * int (n div 10) + int (n mod 10) = int n" by presburger
    with False 1 show ?thesis by (subst digits.simps) (simp add: read_digits_append)
  qed (subst digits.simps, simp)
qed

text \<open>Decimal text of a 64-bit integer reads back as it.\<close>

lemma Atoi_Itoa:
  assumes "- (2 ^ 63) \<le> i" "i < 2 ^ 63"
  shows "Atoi (Itoa i) = i"
proof -
  have d: "digit_val (hd (digits n)) \<noteq> None" for n by (rule digits_digit [of _ n]) simp
  have "digit_val CHR ''-'' = None" "digit_val CHR ''+'' = None" by code_simp+
  then have hd: "hd (digits n) \<noteq> CHR ''-''" "hd (digits n) \<noteq> CHR ''+''" for n using d [of n] by metis+
  have "clamp64 i = i" using assms by (simp add: clamp64_def)
  with hd show ?thesis by (simp add: Atoi_def Itoa_def Let_def read_digits_digits)
qed

subsection \<open>Layers of settings\<close>

text \<open>A reference for the precedence: each source is a partial map of fields, and the later one
  overrides.\<close>

datatype field = FHost | FPort | FPassword

datatype field_value = Str bytes | Num int

definition layer :: "bytes \<Rightarrow> int \<Rightarrow> bytes \<Rightarrow> field \<rightharpoonup> field_value" where
  "layer host port password f =
     (case f of
        FHost \<Rightarrow> if host = [] then None else Some (Str host)
      | FPort \<Rightarrow> if port = 0 then None else Some (Num port)
      | FPassword \<Rightarrow> if password = [] then None else Some (Str password))"

definition chosen_server :: "Config \<Rightarrow> Flags \<Rightarrow> ServerConfig option" where
  "chosen_server cfg fl = cg_Servers cfg (if fl_Server fl \<noteq> [] then fl_Server fl else cg_Default cfg)"

definition server_layer :: "ServerConfig option \<Rightarrow> field \<rightharpoonup> field_value" where
  "server_layer sc = (case sc of None \<Rightarrow> Map.empty | Some sv \<Rightarrow> layer (sv_Host sv) (sv_Port sv) (sv_Password sv))"

definition layers :: "Config \<Rightarrow> Flags \<Rightarrow> Env \<Rightarrow> field \<rightharpoonup> field_value" where
  "layers cfg fl en =
     [FPort \<mapsto> Num DefaultPort] ++ server_layer (chosen_server cfg fl)
       ++ layer (en_Host en) (en_Port en) (en_Password en) ++ layer (fl_Host fl) (fl_Port fl) (fl_Password fl)"

definition any_source :: "(ServerConfig \<Rightarrow> bool) \<Rightarrow> bool \<Rightarrow> bool \<Rightarrow> ServerConfig option \<Rightarrow> bool" where
  "any_source sel f e sc \<longleftrightarrow> f \<or> e \<or> (\<exists>sv. sc = Some sv \<and> sel sv)"

lemma chosen_key: "cg_Servers cfg (cmp_Or [] [fl_Server fl, cg_Default cfg]) = chosen_server cfg fl"
  by (simp add: chosen_server_def)

text \<open>C28: \<^verbatim>\<open>Resolve\<close> is the layering of its sources: the default port, overridden by the chosen
  server of the file, by the environment and by the flags, field by field; without a host in any
  of them it fails; and each of the two modes is on if any source turns it on.\<close>

theorem Resolve_layers:
  "Resolve cfg fl en =
     (case layers cfg fl en FHost of
        Some (Str host) \<Rightarrow>
          Ok \<lparr>rv_Address = JoinHostPort host (case layers cfg fl en FPort of Some (Num p) \<Rightarrow> Itoa p | _ \<Rightarrow> []),
              rv_Password = (case layers cfg fl en FPassword of Some (Str pw) \<Rightarrow> pw | _ \<Rightarrow> []),
              rv_SinglePacket = any_source sv_SinglePacket (fl_SinglePacket fl) (en_SinglePacket en) (chosen_server cfg fl),
              rv_Drain = any_source sv_Drain (fl_Drain fl) (en_Drain en) (chosen_server cfg fl)\<rparr>
      | _ \<Rightarrow> Err errNoHost)"
  unfolding Resolve_def chosen_key
  by (cases "chosen_server cfg fl")
    (simp_all add: Let_def layers_def server_layer_def layer_def map_add_def no_server_def any_source_def DefaultPort_def)

text \<open>One consequence: a file that asks for draining decides the client's mode against a flag that asks for
  single packets.\<close>

lemma single_packet_flag_loses:
  assumes "Resolve cfg fl en = Ok target" "chosen_server cfg fl = Some sv" "sv_Drain sv" "fl_SinglePacket fl"
  shows "cl_idleDrain (client_New (cli_options target))" "\<not> cl_singlePacket (client_New (cli_options target))"
proof -
  have "rv_Drain target"
    using assms(1-3) unfolding Resolve_def chosen_key by (auto simp: Let_def simp del: cmp_Or.simps split: if_splits)
  then show "cl_idleDrain (client_New (cli_options target))" "\<not> cl_singlePacket (client_New (cli_options target))"
    by (simp_all add: cli_options_def client_option_defs)
qed

subsection \<open>Single commands\<close>

lemma RunSingle_exit:
  assumes "RunSingle env tie client cx target command w = (Ran (Ok code), con, w')"
  shows "code \<in> {0, 2, 3}" "code = 0 \<longleftrightarrow> (\<exists>out. con = [OutLine out])"
    "code = 3 \<longleftrightarrow> (\<exists>err. con = [ErrorLine err] \<and> errors_Is err ErrAuthFailed)"
  using assms by (auto simp: RunSingle_def exitCode_def split: prod.splits run.splits res.splits if_splits)

subsection \<open>The interactive loop\<close>

text \<open>The lines of the input, the commands among them up to the first that ends the loop, and the commands run
  in order on one session.\<close>

fun split_lines :: "bytes \<Rightarrow> bytes list" where
  "split_lines [] = []"
| "split_lines (c # s) =
     (if c = CHR 0x0A then [] # split_lines s
      else (case split_lines s of [] \<Rightarrow> [[c]] | l # ls \<Rightarrow> (c # l) # ls))"

definition quits :: "bytes \<Rightarrow> bool" where
  "quits line \<longleftrightarrow> line = '':exit'' \<or> line = '':quit''"

definition inputs :: "bytes \<Rightarrow> bytes list" where
  "inputs inp = filter (\<lambda>l. l \<noteq> []) (map (\<lambda>l. TrimSpace (dropCR l)) (split_lines inp))"

definition commands :: "bytes \<Rightarrow> bytes list" where
  "commands inp = takeWhile (\<lambda>l. \<not> quits l) (inputs inp)"

fun run_all ::
  "(nat \<Rightarrow> tcp_dialer) \<Rightarrow> ctx \<Rightarrow> bytes list \<Rightarrow> Session \<Rightarrow> world \<Rightarrow> bytes gores list \<times> Session \<times> world" where
  "run_all env cx [] s w = ([], s, w)"
| "run_all env cx (cmd # cmds) s w =
     (case Session_Execute env cx cmd s w of
        (Hang, s, w) \<Rightarrow> ([Hang], s, w)
      | (x, s, w) \<Rightarrow> (case run_all env cx cmds s w of (xs, st) \<Rightarrow> (x # xs, st)))"

fun shown :: "bytes gores \<Rightarrow> console_item list" where
  "shown (Ok out) = [OutLine out]"
| "shown (Err err) = [ErrorLine err]"
| "shown Hang = []"

definition not_prompt :: "console_item \<Rightarrow> bool" where
  "not_prompt i = (case i of Prompt _ \<Rightarrow> False | _ \<Rightarrow> True)"

text \<open>How the loop ends: the exit code, and the last line.\<close>

definition ending :: "goerr option \<Rightarrow> bytes \<Rightarrow> int \<times> console_item list" where
  "ending inErr inp =
     (if list_ex quits (inputs inp) then (0, [])
      else (case inErr of None \<Rightarrow> (0, []) | Some err \<Rightarrow> (2, [ErrorLine err])))"

definition short_lines :: "bytes \<Rightarrow> bool" where
  "short_lines inp = list_all (\<lambda>l. int (length l) < MaxScanTokenSize) (split_lines inp)"

lemma split_lines_first:
  "inp \<noteq> [] \<Longrightarrow> split_lines inp = takeWhile (\<lambda>c. c \<noteq> CHR 0x0A) inp # split_lines (tl (dropWhile (\<lambda>c. c \<noteq> CHR 0x0A) inp))"
proof (induction inp)
  case (Cons c s)
  then show ?case by (cases "s = []") auto
qed simp

lemma Scan_lines:
  assumes "short_lines inp"
  shows "(inp = [] \<and> Scan inp = ScanEnd) \<or>
    (\<exists>line rest. Scan inp = ScanLine (dropCR line) rest \<and> split_lines inp = line # split_lines rest \<and> short_lines rest)"
proof (cases "inp = []")
  case False
  with assms split_lines_first [OF False] show ?thesis by (auto simp: Scan_def short_lines_def Let_def)
qed (simp add: Scan_def)

lemma inputs_Cons:
  assumes "split_lines inp = line # split_lines rest"
  shows "inputs inp = (if TrimSpace (dropCR line) = [] then inputs rest else TrimSpace (dropCR line) # inputs rest)"
  using assms by (simp add: inputs_def)

lemma prompt_item_filter [simp]: "filter not_prompt (prompt_item p) = []"
  by (simp add: prompt_item_def not_prompt_def)

lemma shown_filter: "filter not_prompt (shown x) = shown x"
  by (cases x) (simp_all add: not_prompt_def)

lemma repl_refines:
  assumes "short_lines inp" "run_all env cx (commands inp) s w = (outs, s', w')" "Hang \<notin> set outs"
  shows "\<exists>con. repl env cx p inErr inp s w = (Ok (fst (ending inErr inp)), con, s', w')
    \<and> filter not_prompt con = concat (map shown outs) @ snd (ending inErr inp)"
  using assms
proof (induction "length inp" arbitrary: inp s w outs rule: less_induct)
  case less
  from Scan_lines [OF less.prems(1)] show ?case
  proof (elim disjE exE conjE)
    assume "inp = []" "Scan inp = ScanEnd"
    with less.prems show ?thesis
      by (subst repl.simps) (auto simp: ending_def commands_def inputs_def not_prompt_def split: option.splits)
  next
    fix line rest
    assume sc: "Scan inp = ScanLine (dropCR line) rest" and sl: "split_lines inp = line # split_lines rest" and sh: "short_lines rest"
    let ?l = "TrimSpace (dropCR line)"
    note IH = less.hyps [OF Scan_shorter [OF sc] sh]
    note inp = inputs_Cons [OF sl]
    show ?thesis
    proof (cases "?l = []")
      case True
      have "commands inp = commands rest" "ending inErr inp = ending inErr rest"
        using True inp by (simp_all add: commands_def ending_def)
      with IH [of s w outs] less.prems(2,3) sc True show ?thesis
        by (auto simp: repl.simps [of env cx p inErr inp])
    next
      case False
      show ?thesis
      proof (cases "quits ?l")
        case True
        then have "commands inp = []" "ending inErr inp = (0, [])"
          using False inp by (simp_all add: commands_def ending_def)
        with less.prems sc False True show ?thesis
          by (auto simp: repl.simps [of env cx p inErr inp] quits_def)
      next
        case nq: False
        then have c: "commands inp = ?l # commands rest" and e: "ending inErr inp = ending inErr rest"
          using False inp by (simp_all add: commands_def ending_def)
        obtain x s1 w1 where x: "Session_Execute env cx ?l s w = (x, s1, w1)" by (rule prod_cases3)
        obtain outs1 s2 w2 where r: "run_all env cx (commands rest) s1 w1 = (outs1, s2, w2)" by (rule prod_cases3)
        have nh: "x \<noteq> Hang" using less.prems(2,3) c x by (auto split: res.splits)
        then have o: "outs = x # outs1" "s2 = s'" "w2 = w'" using less.prems(2) c x r by (auto split: res.splits)
        obtain con where con: "repl env cx p inErr rest s1 w1 = (Ok (fst (ending inErr rest)), con, s', w')"
          "filter not_prompt con = concat (map shown outs1) @ snd (ending inErr rest)"
          using IH [OF r [unfolded o]] less.prems(3) o(1) by auto
        have "repl env cx p inErr inp s w = (Ok (fst (ending inErr rest)), prompt_item p @ shown x @ con, s', w')"
          using sc False nq x nh con(1) by (cases x) (auto simp: repl.simps [of env cx p inErr inp] quits_def)
        with con(2) o(1) e show ?thesis by (simp add: shown_filter)
      qed
    qed
  qed
qed

text \<open>C27: an interactive run whose session could be opened, on input whose lines fit the scanner's buffer,
  executes on that session, in order, exactly the lines of its input that are not blank, without
  their surrounding white space, up to the first \<^verbatim>\<open>:exit\<close> or \<^verbatim>\<open>:quit\<close>; it shows one
  line per result, goes on after an error, ends with code 0, or with 2 if reading the input failed
  before it was told to quit, and closes the session.\<close>

theorem RunInteractive_refines:
  assumes "client_Dial env client cx (rv_Address target) (rv_Password target) w = (Ok s, w1)"
    "short_lines (fst stdin)" "run_all env cx (commands (fst stdin)) s w1 = (outs, s', w2)" "Hang \<notin> set outs"
  shows "\<exists>con k. RunInteractive env client cx target p stdin w =
      (Ok (fst (ending (snd stdin) (fst stdin))), con, w2\<lparr>w_socks := w_socks w2 @ [k]\<rparr>)
    \<and> filter not_prompt con = concat (map shown outs) @ snd (ending (snd stdin) (fst stdin)) \<and> sclosed k"
proof -
  obtain con where "repl env cx p (snd stdin) (fst stdin) s w1 = (Ok (fst (ending (snd stdin) (fst stdin))), con, s', w2)"
    "filter not_prompt con = concat (map shown outs) @ snd (ending (snd stdin) (fst stdin))"
    using repl_refines [OF assms(2-4)] by blast
  moreover have "sclosed (c_conn (ss_conn (snd (Session_Close s'))))"
    by (simp add: Session_Close_def Conn_Close_def sock_Close_def with_sock_def split: prod.splits)
  ultimately show ?thesis using assms(1) by (auto simp: RunInteractive_def)
qed

definition typed :: bytes where
  "typed = '' '' @ [CHR 0x0A] @ ''ping '' @ [CHR 0x0D, CHR 0x0A] @ '':quit'' @ [CHR 0x0A] @ ''stop''"

theorem RunInteractive_refines_witness:
  "\<exists>con k. RunInteractive (\<lambda>n. flaky 1) (client_New []) context_Background
       \<lparr>rv_Address = ''h:1'', rv_Password = ''pw'', rv_SinglePacket = False, rv_Drain = False\<rparr> ''rcon> '' (typed, None) start =
      (Ok 0, con, k) \<and> filter not_prompt con = [OutLine ''pong'']"
proof -
  let ?d = "client_Dial (\<lambda>n. flaky 1) (client_New []) context_Background ''h:1'' ''pw'' start"
  let ?t = "\<lparr>rv_Address = ''h:1'', rv_Password = ''pw'', rv_SinglePacket = False, rv_Drain = False\<rparr>"
  have "is_Ok (fst ?d)" by code_simp
  then obtain s w1 where d: "?d = (Ok s, w1)" by (cases "?d") (auto simp: is_Ok_iff)
  have "(case ?d of (Ok s, w1) \<Rightarrow> fst (run_all (\<lambda>n. flaky 1) context_Background (commands typed) s w1) = [Ok ''pong''] | _ \<Rightarrow> False)"
    by code_simp
  then obtain s' w2 where r: "run_all (\<lambda>n. flaky 1) context_Background (commands (fst (typed, None :: goerr option))) s w1 = ([Ok ''pong''], s', w2)"
    unfolding d by (cases "run_all (\<lambda>n. flaky 1) context_Background (commands typed) s w1") auto
  have sh: "short_lines (fst (typed, None :: goerr option))" and e: "ending None typed = (0, [])" by code_simp+
  have d': "client_Dial (\<lambda>n. flaky 1) (client_New []) context_Background (rv_Address ?t) (rv_Password ?t) start = (Ok s, w1)"
    using d by simp
  from RunInteractive_refines [OF d' sh r, of "''rcon> ''"] e show ?thesis by auto
qed

end
