(* ===== verification/Spec2Isabelle.thy ===== *)
theory Spec2Isabelle
  imports Rcon_Fake Rcon_Lifecycle Rcon_Cache_Settled Rcon_Http Rcon_Cli
begin

text \<open>
  A verification development for \<^verbatim>\<open>github.com/cbrgm/rcon\<close>, a Go implementation of the
  Source RCON protocol: a client library, a server framework, an HTTP bridge and a command
  line tool.

  \<^bold>\<open>The program.\<close> Package \<^verbatim>\<open>rcon\<close> (\<^verbatim>\<open>src/rcon/\<close>) has the wire
  format and one authenticated connection. Package \<^verbatim>\<open>rconserver\<close> accepts connections,
  authenticates them and runs a handler per command. Package \<^verbatim>\<open>rconclient\<close> adds retries,
  timeouts and sessions that reconnect. Package \<^verbatim>\<open>rconhttp\<close> serves commands over HTTP
  with a cache of sessions, and \<^verbatim>\<open>cmd/rcon\<close> is the command line.

  \<^bold>\<open>Theories, and the code they model.\<close>
  \<^item> \<open>Rcon_Prelude\<close>: byte strings, results (a value, an error, or a call that blocks for ever),
    sequencing with early return.
  \<^item> \<open>Go_Errors\<close>: the error values, with the sentinels of \<^verbatim>\<open>rcon/errors.go\<close>, and
    \<^verbatim>\<open>errors.Is\<close> and \<^verbatim>\<open>errors.AsType\<close> on them.
  \<^item> \<open>Go_Net\<close>: what the code uses of the standard library: sockets with deadlines, the
    buffered reader, \<^verbatim>\<open>io.ReadFull\<close>, contexts. A socket carries a script of what its
    peer sends and when, and of how writes go; theorems hold for every script, which is finite.
    The reader interfaces are the locales \<open>counted_reader\<close> (every byte returned is taken off what is
    left, which makes the read loops end), \<open>io_reader\<close> (the bytes still to come and the
    end after them) and \<open>timed_reader\<close> (the instants at which they can be read), the writer
    interface is \<open>io_writer\<close>; the socket and the buffered
    reader are interpretations.
  \<^item> \<open>Rcon_Packet\<close>: \<^verbatim>\<open>rcon/packet.go\<close>. The decoder refines a parser of byte strings,
    for any reader; encoder and decoder are inverse; bad sizes and cut frames have their
    errors.
  \<^item> \<open>Rcon_Options\<close>, \<open>Rcon_Conn\<close>: \<^verbatim>\<open>rcon/options.go\<close>, \<^verbatim>\<open>rcon/auth.go\<close> and
    \<^verbatim>\<open>rcon/conn.go\<close>. The record \<open>Conn\<close> is the struct; its mutex serializes calls, so an
    operation is a function on it.
  \<^item> \<open>Rcon_Read\<close>: each of the three read modes refines a function on packet lists, for every
    segmentation of the stream and every content of the buffer; read-until-idle for packets
    that are each complete within the window of the one before.
  \<^item> \<open>Rcon_Exec\<close>: request ids, the login, \<^verbatim>\<open>Execute\<close> in its modes, the deadlines that
    bound it and that it returns outside read-until-idle, \<^verbatim>\<open>Close\<close> and \<^verbatim>\<open>Dial\<close>.
  \<^item> \<open>Rcon_Server\<close>, \<open>Rcon_Serve\<close>: \<^verbatim>\<open>rconserver/auth.go\<close>, \<^verbatim>\<open>handler.go\<close>,
    \<^verbatim>\<open>response.go\<close>, and \<^verbatim>\<open>serveConn\<close> and \<^verbatim>\<open>dispatch\<close> of
    \<^verbatim>\<open>server.go\<close>. A handler is a parameter with a state of its own. A served connection
    refines a function from the client's packets to the server's; without a login no handler
    runs; a panic closes it; and the time it lasts is bounded by the bytes the client sends.
  \<^item> \<open>Event_System\<close>: the locale of goroutines that interleave: a step per event, the reachable
    states, runs, and invariants. The server's lifecycle and the session cache are its
    interpretations.
  \<^item> \<open>Rcon_Lifecycle\<close>: \<^verbatim>\<open>ListenAndServe\<close>, \<^verbatim>\<open>Serve\<close>, \<^verbatim>\<open>Close\<close>,
    \<^verbatim>\<open>Shutdown\<close> and the tracking of connections and listeners, as goroutines that
    interleave step by step; invariants of all reachable states show what a finished stop
    leaves open and who closes it, and a property of all runs that \<^verbatim>\<open>Shutdown\<close> waits.
  \<^item> \<open>Rcon_Retry\<close>, \<open>Rcon_Client\<close>, \<open>Rcon_Call\<close>: \<^verbatim>\<open>rconclient/\<close>. The backoff is on 64-bit
    words; a call runs in a world that gives the outcome of each dial and records the time
    and the sockets let go.
  \<^item> \<open>Go_Strings\<close>: what the code uses of package \<^verbatim>\<open>strings\<close>.
  \<^item> \<open>Rcon_Cache\<close>: \<^verbatim>\<open>rconhttp/cache.go\<close>, each operation alone, on a heap of entries, since a
    request can hold an entry the map has lost. \<open>Rcon_Cache_Race\<close>: the same sections
    interleaved, with the mutexes of the entries, the reaper's ticker and calls of
    \<^verbatim>\<open>close\<close>; every request stays on its own backend and alone on its session.
    \<open>Rcon_Cache_Settled\<close>: the discipline under which a closed cache has released every
    session, but for those a pass of the reaper is still to close, and a run that breaks it and
    leaves one open for good.
  \<^item> \<open>Rcon_Http\<close>: the rest of \<^verbatim>\<open>rconhttp/\<close>: resolvers, options, the command of a request,
    responses and \<^verbatim>\<open>ServeHTTP\<close>. Requests that are refused touch nothing, and the status
    says what happened.
  \<^item> \<open>Rcon_Cli\<close>: \<^verbatim>\<open>cmd/rcon/\<close>: the configuration, which is a layering of its sources, single
    commands and exit codes, the interactive loop, which refines running the commands of its
    input in order, and the flow of \<^verbatim>\<open>run\<close>.
  \<^item> \<open>Rcon_Fake\<close>: \<^verbatim>\<open>internal/fakercon/server.go\<close>, a handler for the server.
  \<^item> This theory: client and server together, joined by their byte streams.

  \<^bold>\<open>Time, bounds and blocking.\<close> Instants and durations are unbounded integers of nanoseconds
  (the backoff alone computes on 64 bits, where the code can wrap around). Lengths are natural
  numbers; the size field, packet ids and types are 32-bit words. No fuel is used: every loop
  is a function with a measure, the bytes a reader has left or the attempts remaining, and a
  call that would wait for ever has the result \<open>Hang\<close>, so that claims of termination are
  claims about results. Two loops of the program have no bound of their own:
  \<^verbatim>\<open>readIdleDrain\<close>, which sets a new deadline before every packet, and the loop of
  \<^verbatim>\<open>serveConn\<close>. In the model they are total because what a peer sends is finite; that
  \<^verbatim>\<open>Execute\<close> returns is claimed for the other modes only, and of \<^verbatim>\<open>serveConn\<close>
  a bound in terms of the bytes the client sends.

  \<^bold>\<open>Parameters.\<close> What is not the program's code is an argument: handlers and authenticators,
  the outcome of every dial and the bytes of every peer, the JSON decoder, the files, the
  environment, and what flag parsing made of the arguments. Nothing is assumed of the JSON
  decoder, the files or the flags.

  \<^bold>\<open>Not modelled.\<close> Loggers; the texts of errors, of JSON and of the usage message, which are
  kept symbolic; \<^verbatim>\<open>LocalAddr\<close> and \<^verbatim>\<open>RemoteAddr\<close>; the header
  \<^verbatim>\<open>Connection: close\<close> that \<^verbatim>\<open>net/http\<close> adds to a response for a body that
  is too large; the registration of the test double with a test; concurrent use of one
  \<^verbatim>\<open>Conn\<close> beyond the serialization its mutex gives; memory-model effects of
  unsynchronized accesses; a mutex's order of waiting goroutines, of which every choice is
  allowed. Open: the HTTP handler joined to the server by byte streams.
\<close>

section \<open>Client and server together\<close>

text \<open>
  The two ends are joined by their streams: the server's socket delivers what the client's
  operation sent, and the client's socket delivers what serving that stream sent. Neither
  end's writes depend on how the other's bytes are cut or timed.
\<close>

text \<open>What an operation put on the wire.\<close>

definition newly_sent :: "sock \<Rightarrow> sock \<Rightarrow> bytes" where
  "newly_sent k k' = drop (length (outbound k)) (outbound k')"

subsection \<open>Logging in\<close>

lemma auth_request_fits: "length password \<le> MaxPayloadSize \<Longrightarrow> fits (auth_request password c)"
  by (simp add: fits_def auth_request_def)

lemma login_replies_fit: "\<forall>p \<in> set (login_replies s q). fits p"
  by (auto simp: login_replies_def reply_def fits_def)

lemma auth_spec_login:
  assumes "ID p \<noteq> -1"
  shows "auth_spec (login_replies s p) =
    Some (if checkPassword s (Body p) then Ok () else Err ErrAuthFailed)"
  using assms by (auto simp: login_replies_def reply_def auth_check_def packet_types)

text \<open>C11: the client's login against this server: the bytes \<^verbatim>\<open>authenticate\<close> sends make
  \<^verbatim>\<open>serveConn\<close> answer with bytes on which the same call succeeds if the server's
  password check accepts the password, and fails with \<^verbatim>\<open>ErrAuthFailed\<close> otherwise.\<close>

theorem login_end_to_end:
  assumes "writable (c_conn c)" "length password \<le> MaxPayloadSize" "srv_open k" "timely s k"
    "rx_pending None (inbound k) = newly_sent (c_conn c) (c_conn (snd (authenticate password c)))"
    "serveConn s cx addr (k, h) = (x, k', h')" "conn_pending c = newly_sent k k'"
  shows "fst (authenticate password c) = (if checkPassword s password then Ok () else Err ErrAuthFailed)"
proof -
  let ?p = "auth_request password c"
  have p: "Type ?p = TypeAuth" "Body ?p = password" "ID ?p \<noteq> -1" by (simp_all add: auth_request_def)
  have "rx_pending None (inbound k) = frames [?p]"
    using assms(5) authenticate_sends [OF assms(1)] by (simp add: newly_sent_def)
  from serveConn_session [OF assms(3,4) this _ assms(6)] auth_request_fits [OF assms(2)] p
  have "outbound k' = outbound k @ frames (login_replies s ?p)"
    by (simp add: session_spec_def split: if_splits)
  then have "conn_pending c = frames (login_replies s ?p)"
    using assms(7) by (simp add: newly_sent_def)
  from authenticate_verdict [OF assms(1) this login_replies_fit, of password]
    auth_spec_login [where s = s, OF p(3)] p(2) show ?thesis by simp
qed

theorem login_end_to_end_witness:
  "fst (authenticate ''pw'' (opened [] [(5, RxData (frames (login_replies (echo_server 0) (auth_request ''pw'' (opened [] [])))))])) = Ok ()"
proof -
  let ?s = "echo_server 0" and ?p = "auth_request ''pw'' (opened [] [])"
  let ?c = "opened [] [(5, RxData (frames (login_replies ?s ?p)))]" and ?k = "fresh_sock [(2, RxData (encode ?p))]"
  let ?r = "serveConn ?s context_Background ''peer'' (?k, 0 :: nat)"
  have h: "writable (c_conn ?c)" "length ''pw'' \<le> MaxPayloadSize" "srv_open ?k" "timely ?s ?k"
    "rx_pending None (inbound ?k) = newly_sent (c_conn ?c) (c_conn (snd (authenticate ''pw'' ?c)))"
    by code_simp+
  have "conn_pending ?c = newly_sent ?k (fst (snd ?r))" "checkPassword ?s ''pw''" by code_simp+
  with login_end_to_end [OF h] show ?thesis by (metis prod.collapse)
qed

subsection \<open>Running a command\<close>

lemma Execute_sends:
  assumes "ready cx command c" "mode (c_set c) = readMulti"
  shows "outbound (c_conn (snd (Conn_Execute cx command c))) =
    outbound (c_conn c) @ frames [exec_request command c, exec_sentinel c]"
proof -
  let ?r = "readMultiPacket (ID (exec_request command c)) (ID (exec_sentinel c)) [] (terminated cx command c)"
  have "read_frame (terminated cx command c) (snd ?r)"
    by (rule readMultiPacket_frame) (rule surjective_pairing)
  then show ?thesis
    using Conn_Execute_ready [OF assms(1)] assms(2) by (simp add: read_frame_def)
qed

lemma response_packets_fit: "\<forall>p \<in> set (response_packets i b). fits p"
  using response_bodies_sound(3) by (auto simp: response_packets_def reply_def fits_def)

lemma response_packets_sound:
  "\<forall>p \<in> set (response_packets i b). ID p = i" "concat (map Body (response_packets i b)) = b"
  using response_bodies_sound(2) [of b] by (auto simp: response_packets_def reply_def o_def)

text \<open>What the server sends for one command and its terminator.\<close>

lemma serve_spec_command:
  "fst (serve_spec s cx addr [exec_request command c, exec_sentinel c] h) =
     (case fst (answer s \<lparr>Command = command, RemoteAddr = addr, req_ctx = Some cx\<rparr> h) of
        None \<Rightarrow> []
      | Some body \<Rightarrow> response_packets (ID (exec_request command c)) body @ [reply (ID (exec_sentinel c)) []])"
  by (auto simp: exec_request_def exec_sentinel_def packet_types split: prod.splits option.splits)

text \<open>What \<^verbatim>\<open>Execute\<close> makes of the server's answer to its command.\<close>

lemma command_response:
  assumes "ready cx command c" "mode (c_set c) = readMulti"
    "Type lp = TypeAuth" "checkPassword s (Body lp)" "srv_open k" "timely s k"
    "rx_pending None (inbound k) = frames [lp, exec_request command c, exec_sentinel c]"
    "\<forall>p \<in> set [lp, exec_request command c, exec_sentinel c]. fits p"
    "serveConn s dcx addr (k, h) = (x, k', h')"
    "newly_sent k k' = frames (login_replies s lp) @ conn_pending (armed cx c)"
  shows "fst (Conn_Execute cx command c) =
    (case fst (answer s \<lparr>Command = command, RemoteAddr = addr, req_ctx = Some dcx\<rparr> h) of
       Some body \<Rightarrow> Ok body | None \<Rightarrow> dry_end [] (conn_final (armed cx c)))"
proof -
  let ?q = "exec_request command c" and ?t = "exec_sentinel c"
  let ?a = "fst (answer s \<lparr>Command = command, RemoteAddr = addr, req_ctx = Some dcx\<rparr> h)"
  let ?out = "case ?a of None \<Rightarrow> [] | Some body \<Rightarrow> response_packets (ID ?q) body @ [reply (ID ?t) []]"
  have "outbound k' = outbound k @ frames (fst (session_spec s dcx addr [lp, ?q, ?t] h))"
    using serveConn_session [OF assms(5-9)] by blast
  also have "fst (session_spec s dcx addr [lp, ?q, ?t] h) =
      login_replies s lp @ fst (serve_spec s dcx addr [?q, ?t] h)"
    using assms(3,4) by (simp add: session_spec_def del: serve_spec.simps split: prod.split)
  also have "\<dots> = login_replies s lp @ ?out"
    by (simp only: serve_spec_command)
  finally have "outbound k' = outbound k @ frames (login_replies s lp) @ frames ?out" by simp
  then have "conn_pending (armed cx c) = frames ?out"
    using assms(10) by (simp add: newly_sent_def)
  moreover have "\<forall>p \<in> set ?out. fits p"
    using response_packets_fit by (auto simp: reply_def fits_def split: option.splits)
  moreover have "multi_spec (ID ?q) (ID ?t) [] (response_packets (ID ?q) body @ [reply (ID ?t) []]) = Some (Ok body)" for body
    using multi_spec_chunks [of "response_packets (ID ?q) body" "ID ?q" "ID ?t" "reply (ID ?t) []" "[]" "[]"]
      response_packets_sound [where b = body] next_id_differs [of "c_id c", symmetric]
    by (auto simp: exec_request_def exec_sentinel_def reply_def)
  ultimately show ?thesis
    using Execute_multi [OF assms(1,2), of ?out] by (auto split: option.splits)
qed

text \<open>C1: a command against this server, after a login, in the multi-packet mode: the bytes
  \<^verbatim>\<open>Execute\<close> sends make \<^verbatim>\<open>serveConn\<close> answer with bytes from which the same
  \<^verbatim>\<open>Execute\<close> returns exactly what the handler wrote, of any length, if the handler
  returns. If it panics, \<^verbatim>\<open>serveConn\<close> returns and closes the connection, and the client,
  whose stream ends with the server's close, gets \<^verbatim>\<open>io.EOF\<close> and no response. Of a
  handler that blocks for ever nothing is said.\<close>

theorem command_end_to_end:
  assumes "ready cx command c" "mode (c_set c) = readMulti" "length command \<le> MaxPayloadSize"
    "Type lp = TypeAuth" "fits lp" "checkPassword s (Body lp)" "srv_open k" "timely s k"
    "rx_pending None (inbound k) =
       encode lp @ newly_sent (c_conn c) (c_conn (snd (Conn_Execute cx command c)))"
    "serveConn s dcx addr (k, h) = (x, k', h')"
    "newly_sent k k' = frames (login_replies s lp) @ conn_pending (armed cx c)"
    "sclosed k' \<Longrightarrow> conn_final (armed cx c) = Err IoEOF"
    "r = \<lparr>Command = command, RemoteAddr = addr, req_ctx = Some dcx\<rparr>"
  shows "case handler_end s r h of
      HReturn \<Rightarrow> (\<exists>body. fst (answer s r h) = Some body \<and> fst (Conn_Execute cx command c) = Ok body)
    | HPanic \<Rightarrow> x = Ok () \<and> sclosed k' \<and> fst (Conn_Execute cx command c) = Err IoEOF
    | HBlock \<Rightarrow> True"
proof -
  let ?q = "exec_request command c" and ?t = "exec_sentinel c"
  have q: "Type ?q = TypeExecCommand" "Body ?q = command" by (simp_all add: exec_request_def)
  have in_k: "rx_pending None (inbound k) = frames [lp, ?q, ?t]"
    using assms(9) Execute_sends [OF assms(1,2)] by (simp add: newly_sent_def)
  have fit: "\<forall>p \<in> set [lp, ?q, ?t]. fits p"
    using assms(3,5) by (simp add: fits_def exec_request_def exec_sentinel_def)
  note out = command_response [OF assms(1,2,4,6,7,8) in_k fit assms(10,11), folded assms(13)]
  show ?thesis
  proof (cases "handler_end s r h")
    case HReturn
    with answer_end [of s r h] out show ?thesis by (auto split: option.splits)
  next
    case HPanic
    then have "x = Ok () \<and> sclosed k'"
      using serveConn_panic [OF assms(7,8) in_k fit assms(4,6) q(1) _ assms(10)] q(2) assms(13) by simp
    moreover have "fst (answer s r h) = None" using answer_end [of s r h] HPanic by (cases "fst (answer s r h)") auto
    ultimately show ?thesis using HPanic out assms(12) by (simp add: dry_end_def)
  qed simp
qed

text \<open>A command that the handler answers, and one on which it panics.\<close>

theorem command_end_to_end_witness:
  "fst (Conn_Execute context_Background ''hi''
     (opened [] [(9, RxData (frames (response_packets 2 ''> hi'' @ [reply 3 []]))), (60, RxEOF)])) = Ok ''> hi''
   \<and> fst (Conn_Execute context_Background ''boom'' (opened [] [(9, RxEOF)])) = Err IoEOF
   \<and> sclosed (fst (snd (serveConn (echo_server 0) context_Background ''peer''
       (fresh_sock [(2, RxData (frames [login ''pw'', exec_request ''boom'' (opened [] []), exec_sentinel (opened [] [])]))], 0 :: nat))))"
proof -
  let ?s = "echo_server 0" and ?x = context_Background
  let ?c = "opened [] [(9, RxData (frames (response_packets 2 ''> hi'' @ [reply 3 []]))), (60, RxEOF)]"
    and ?b = "opened [] [(9, RxEOF)]"
  let ?k = "fresh_sock [(2, RxData (frames [login ''pw'', exec_request ''hi'' ?c, exec_sentinel ?c]))]"
    and ?j = "fresh_sock [(2, RxData (frames [login ''pw'', exec_request ''boom'' (opened [] []), exec_sentinel (opened [] [])]))]"
  let ?r = "serveConn ?s ?x ''peer'' (?k, 0 :: nat)" and ?q = "serveConn ?s ?x ''peer'' (?j, 0 :: nat)"
  have h: "ready ?x ''hi'' ?c" "mode (c_set ?c) = readMulti" "length ''hi'' \<le> MaxPayloadSize"
    "Type (login ''pw'') = TypeAuth" "fits (login ''pw'')" "checkPassword ?s (Body (login ''pw''))"
    "srv_open ?k" "timely ?s ?k"
    "rx_pending None (inbound ?k) =
       encode (login ''pw'') @ newly_sent (c_conn ?c) (c_conn (snd (Conn_Execute ?x ''hi'' ?c)))"
    by code_simp+
  have g: "ready ?x ''boom'' ?b" "mode (c_set ?b) = readMulti" "length ''boom'' \<le> MaxPayloadSize"
    "srv_open ?j" "timely ?s ?j"
    "rx_pending None (inbound ?j) =
       encode (login ''pw'') @ newly_sent (c_conn ?b) (c_conn (snd (Conn_Execute ?x ''boom'' ?b)))"
    by code_simp+
  have sent: "newly_sent ?k (fst (snd ?r)) = frames (login_replies ?s (login ''pw'')) @ conn_pending (armed ?x ?c)"
    "newly_sent ?j (fst (snd ?q)) = frames (login_replies ?s (login ''pw'')) @ conn_pending (armed ?x ?b)"
    by code_simp+
  have fin: "conn_final (armed ?x ?c) = Err IoEOF" "conn_final (armed ?x ?b) = Err IoEOF" by code_simp+
  obtain x k' h' where r: "?r = (x, k', h')" by (rule prod_cases3)
  obtain y j' i' where q: "?q = (y, j', i')" by (rule prod_cases3)
  have e: "handler_end ?s \<lparr>Command = ''hi'', RemoteAddr = ''peer'', req_ctx = Some ?x\<rparr> (0 :: nat) = HReturn"
    "handler_end ?s \<lparr>Command = ''boom'', RemoteAddr = ''peer'', req_ctx = Some ?x\<rparr> (0 :: nat) = HPanic"
    "fst (answer ?s \<lparr>Command = ''hi'', RemoteAddr = ''peer'', req_ctx = Some ?x\<rparr> (0 :: nat)) = Some ''> hi''"
    by code_simp+
  from command_end_to_end [OF h r sent(1) [unfolded r snd_conv fst_conv] fin(1) refl] e(1,3)
  have "fst (Conn_Execute ?x ''hi'' ?c) = Ok ''> hi''" by simp
  moreover from command_end_to_end [OF g(1-3) h(4-6) g(4-6) q sent(2) [unfolded q snd_conv fst_conv] fin(2) refl] e(2)
  have "sclosed j' \<and> fst (Conn_Execute ?x ''boom'' ?b) = Err IoEOF" by simp
  ultimately show ?thesis unfolding q by simp
qed

end
